(* ===== verification/Kora_Prelude.thy ===== *)
theory Kora_Prelude
  imports Main "HOL-Library.Word" "HOL-Library.List_Lexorder" "HOL-Library.AList"
begin

text \<open>
  Shared vocabulary of the development: byte strings, the error values of all packages,
  the parts of Go's standard library every component uses (\<open>encoding/binary\<close> in
  big-endian order, \<open>bytes.Compare\<close>, \<open>io.ReadFull\<close>), the counted read loop that the
  SSTable index, the manifest and the RESP reader share, and the interface of a
  self-delimiting codec, stated once as a locale and interpreted by every wire format.
\<close>

unbundle bit_operations_syntax

named_theorems kora_codec \<open>round trips of the wire formats\<close>
named_theorems kora_order \<open>bytes.Compare against the lexicographic order\<close>

section \<open>Types\<close>

type_synonym byte = "8 word"
type_synonym bytes = "byte list"
type_synonym u32 = "32 word"
type_synonym u64 = "64 word"

text \<open>
  The error values of the program. \<open>EOF\<close> and \<open>UnexpectedEOF\<close> are those of package io,
  \<open>ErrIO\<close> and \<open>ErrNotExist\<close> stand for failed system calls, \<open>Panic\<close> for a run-time panic
  (which unwinds past every error check of the code), the others are the package-level
  error variables and the formatted errors of the source.
\<close>

datatype err =
    EOF | UnexpectedEOF | ErrIO | ErrNotExist | Panic
  | ErrCorrupted | ErrKeyTooLarge | ErrValueTooLarge
  | ErrCorrupt | ErrOutOfOrder
  | ErrNoManifest | ErrManifestCorrupt | ErrPartialTail | ErrPartialImmutable
  | ErrProto | ErrServer bytes | ErrSyntax | ErrRange

section \<open>Package encoding/binary, big-endian\<close>

definition be32 :: "u32 \<Rightarrow> bytes" where
  "be32 w = [ucast (drop_bit 24 w), ucast (drop_bit 16 w), ucast (drop_bit 8 w), ucast w]"

text \<open>Every call of the source reads a slice of at least four bytes.\<close>

fun get32 :: "bytes \<Rightarrow> u32" where
  "get32 (a # b # c # d # _) =
     push_bit 24 (ucast a) OR push_bit 16 (ucast b) OR push_bit 8 (ucast c) OR ucast d"
| "get32 _ = 0"

definition be64 :: "u64 \<Rightarrow> bytes" where
  "be64 w = be32 (ucast (drop_bit 32 w)) @ be32 (ucast w)"

definition get64 :: "bytes \<Rightarrow> u64" where
  "get64 bs = push_bit 32 (ucast (get32 bs)) OR ucast (get32 (drop 4 bs))"

lemma length_be32 [simp]: "length (be32 w) = 4"
  by (simp add: be32_def)

lemma length_be64 [simp]: "length (be64 w) = 8"
  by (simp add: be64_def)

lemma be32_neq_Nil [simp]: "be32 w \<noteq> []" "be64 v \<noteq> []"
  by (auto simp: be32_def be64_def)

lemma get32_be32 [simp]: "get32 (be32 w @ r) = w"
proof (rule bit_word_eqI)
  fix n assume "n < LENGTH(32)"
  then consider "n < 8" | "8 \<le> n" "n < 16" | "16 \<le> n" "n < 24" | "24 \<le> n" "n < 32" by force
  then show "bit (get32 (be32 w @ r)) n = bit w n"
    by cases (auto simp: be32_def bit_simps)
qed

lemma get64_be64 [simp]: "get64 (be64 w @ r) = w"
proof (rule bit_word_eqI)
  fix n assume "n < LENGTH(64)"
  then consider "n < 32" | "32 \<le> n" "n < 64" by force
  then show "bit (get64 (be64 w @ r)) n = bit w n"
    by cases (auto simp: be64_def get64_def bit_simps)
qed

lemmas get32_be32' [simp] = get32_be32 [of _ "[]", simplified]
lemmas get64_be64' [simp] = get64_be64 [of _ "[]", simplified]

lemma ucast_byte_mask: "ucast (ucast b :: u32) = b" for b :: byte
  by (rule bit_word_eqI) (simp add: bit_simps)

text \<open>The other direction: four bytes are the encoding of the value they decode to.\<close>

lemma be32_get32_4: "be32 (get32 [a, b, c, d]) = [a, b, c, d]"
  by (auto simp: be32_def intro!: bit_word_eqI) (auto simp: bit_simps dest: bit_imp_le_length)

lemma be32_get32:
  assumes "length bs = 4" shows "be32 (get32 bs) = bs"
proof -
  obtain a b c d where "bs = [a, b, c, d]"
    using assms by (auto simp: numeral_eq_Suc length_Suc_conv)
  then show ?thesis using be32_get32_4 by simp
qed

lemma get32_take: "length bs \<ge> 4 \<Longrightarrow> get32 (take 4 bs) = get32 bs"
  by (cases bs rule: get32.cases) auto

lemma be64_get64:
  assumes "length bs = 8" shows "be64 (get64 bs) = bs"
proof -
  have hi: "ucast (drop_bit 32 (push_bit 32 (ucast x) OR ucast y :: u64)) = x" for x y :: u32
    by (rule bit_word_eqI) (auto simp: bit_simps dest: bit_imp_le_length)
  have lo: "ucast (push_bit 32 (ucast x) OR ucast y :: u64) = y" for x y :: u32
    by (rule bit_word_eqI) (auto simp: bit_simps)
  have "be64 (get64 bs) = be32 (get32 (take 4 bs)) @ be32 (get32 (drop 4 bs))"
    using assms by (simp only: be64_def get64_def hi lo get32_take)
  also have "\<dots> = bs"
    using assms by (simp add: be32_get32)
  finally show ?thesis .
qed

lemma unat_of_nat_u32 [simp]: "n < 2 ^ 32 \<Longrightarrow> unat (of_nat n :: u32) = n"
  by (simp add: unat_of_nat take_bit_nat_eq_self)

lemma unat_of_nat_u64 [simp]: "n < 2 ^ 64 \<Longrightarrow> unat (of_nat n :: u64) = n"
  by (simp add: unat_of_nat take_bit_nat_eq_self)

lemma unat_u32_lt [simp]: "unat (w :: u32) < 4294967296"
  using unsigned_less [of w] by simp

section \<open>bytes.Compare\<close>

text \<open>\<open>bytes.Compare\<close>: negative, zero or positive, in lexicographic byte order.\<close>

fun compareBytes :: "bytes \<Rightarrow> bytes \<Rightarrow> int" where
  "compareBytes [] [] = 0"
| "compareBytes [] (_ # _) = -1"
| "compareBytes (_ # _) [] = 1"
| "compareBytes (a # as) (b # bs) =
     (if a < b then -1 else if b < a then 1 else compareBytes as bs)"

lemma compareBytes_cases:
  "compareBytes a b = (if a < b then -1 else if a = b then 0 else 1)"
  by (induction a b rule: compareBytes.induct) auto

lemma compareBytes_eq [simp, kora_order]: "compareBytes a b = 0 \<longleftrightarrow> a = b"
  by (simp add: compareBytes_cases)

lemma compareBytes_lt [simp, kora_order]: "compareBytes a b < 0 \<longleftrightarrow> a < b"
  by (simp add: compareBytes_cases)

lemma compareBytes_le [simp, kora_order]: "compareBytes a b \<le> 0 \<longleftrightarrow> a \<le> b"
  by (auto simp: compareBytes_cases)

lemma compareBytes_gt [simp, kora_order]: "0 < compareBytes a b \<longleftrightarrow> b < a"
  by (auto simp: compareBytes_cases)

section \<open>io.ReadFull and counted read loops\<close>

text \<open>
  \<open>io.ReadFull(r, buf)\<close> with \<open>len(buf) = n\<close> on a stream that still holds the bytes \<open>s\<close>:
  it reports \<open>EOF\<close> only when not a single byte was read, and \<open>ErrUnexpectedEOF\<close> after a
  partial read. A buffer of length zero is filled at once.
\<close>

definition readFull :: "nat \<Rightarrow> bytes \<Rightarrow> err + bytes \<times> bytes" where
  "readFull n s =
     (if n \<le> length s then Inr (take n s, drop n s)
      else if s = [] then Inl EOF else Inl UnexpectedEOF)"

lemma readFull_append [simp]: "readFull n (xs @ s) = Inr (xs, s)" if "length xs = n"
  using that by (simp add: readFull_def)

lemma readFull_0 [simp]: "readFull 0 s = Inr ([], s)"
  by (simp add: readFull_def)

lemma readFull_Inr_iff:
  "readFull n s = Inr (xs, r) \<longleftrightarrow> s = xs @ r \<and> length xs = n"
  by (auto simp: readFull_def)

text \<open>
  The loop \<open>for i := 0; i < n; i++ { x, err := read(); if err != nil { return err }; \<dots> }\<close>
  over a stream.
\<close>

fun readN :: "(bytes \<Rightarrow> err + 'a \<times> bytes) \<Rightarrow> nat \<Rightarrow> bytes \<Rightarrow> err + 'a list \<times> bytes" where
  "readN rd 0 s = Inr ([], s)"
| "readN rd (Suc n) s =
     (case rd s of
        Inl e \<Rightarrow> Inl e
      | Inr (x, s') \<Rightarrow>
          (case readN rd n s' of Inl e \<Rightarrow> Inl e | Inr (xs, s'') \<Rightarrow> Inr (x # xs, s'')))"

section \<open>Self-delimiting codecs\<close>

text \<open>
  What every record format of the program promises: decoding a stream that starts with
  the encoding of a legal item gives the item back and leaves the rest of the stream
  untouched. The clients (log scans, index loading, argument lists) only use this.
\<close>

locale prefix_codec =
  fixes enc :: "'a \<Rightarrow> bytes"
    and dec :: "bytes \<Rightarrow> err + 'a \<times> bytes"
    and ok :: "'a \<Rightarrow> bool"
  assumes dec_enc: "ok x \<Longrightarrow> dec (enc x @ rest) = Inr (x, rest)"
begin

lemma readN_concat:
  "list_all ok xs \<Longrightarrow> readN dec (length xs) (concat (map enc xs) @ rest) = Inr (xs, rest)"
  by (induction xs) (auto simp: dec_enc)

lemma enc_prefix_free:
  assumes "ok x" "ok y" "enc x @ r = enc y @ s"
  shows "x = y \<and> r = s"
proof -
  have "Inr (x, r) = (Inr (y, s) :: err + 'a \<times> bytes)"
    using dec_enc [OF assms(1), of r] dec_enc [OF assms(2), of s] unfolding assms(3) by (rule trans [OF sym])
  then show ?thesis by simp
qed

lemma concat_enc_inj:
  assumes "list_all ok xs" "list_all ok ys" "length xs = length ys"
    and "concat (map enc xs) @ r = concat (map enc ys) @ s"
  shows "xs = ys \<and> r = s"
proof -
  have "Inr (xs, r) = (Inr (ys, s) :: err + 'a list \<times> bytes)"
    using readN_concat [OF assms(1), of r] readN_concat [OF assms(2), of s]
    unfolding assms(3,4) by (rule trans [OF sym])
  then show ?thesis by simp
qed

end

text \<open>The first instance: a big-endian word read by \<open>binary.BigEndian.Uint32\<close>.\<close>

definition readU32 :: "bytes \<Rightarrow> err + u32 \<times> bytes" where
  "readU32 s =
     (case readFull 4 s of Inl e \<Rightarrow> Inl e | Inr (b, s') \<Rightarrow> Inr (get32 b, s'))"

lemma readU32_be32 [simp, kora_codec]: "readU32 (be32 w @ s) = Inr (w, s)"
  by (simp add: readU32_def)

interpretation u32_codec: prefix_codec be32 readU32 "\<lambda>_. True"
  by unfold_locales (simp add: kora_codec)

section \<open>Lists\<close>

lemma sorted_wrt_less_map_of_drop:
  fixes es :: "('k :: linorder \<times> 'v) list"
  assumes "sorted_wrt (<) (map fst es)" and "n < length es \<Longrightarrow> fst (es ! n) \<le> k" and "n < length es"
  shows "map_of (drop n es) k = map_of es k"
proof -
  have "k \<notin> fst ` set (take n es)"
  proof
    assume "k \<in> fst ` set (take n es)"
    then obtain i where i: "i < n" "k = fst (es ! i)"
      using assms(3) by (force simp: in_set_conv_nth)
    then have "fst (es ! i) < fst (es ! n)"
      using assms(1,3) by (simp add: sorted_wrt_iff_nth_less)
    then show False using assms(2,3) i(2) by simp
  qed
  then have "map_of (take n es) k = None"
    by (simp add: map_of_eq_None_iff)
  then have "map_of (take n es @ drop n es) k = map_of (drop n es) k"
    by (simp add: map_add_def del: append_take_drop_id)
  then show ?thesis by simp
qed

lemma sorted_wrt_less_unique:
  fixes xs :: "'a :: linorder list"
  assumes "sorted_wrt (<) xs" "sorted_wrt (<) ys" "set xs = set ys"
  shows "xs = ys"
  using assms by (metis sorted_distinct_set_unique strict_sorted_iff)

lemma concat_map_length_drop:
  "concat (map f xs) = concat (map f (take n xs)) @ concat (map f (drop n xs))"
  by (metis append_take_drop_id concat_append map_append)

lemma option_eqI: "(\<And>v. a = Some v \<longleftrightarrow> b = Some v) \<Longrightarrow> a = b"
  by (cases a; cases b) auto

text \<open>A list sorted by key is determined by the map it represents.\<close>

lemma sorted_map_of_unique:
  fixes xs :: "('k :: linorder \<times> 'v) list"
  assumes "sorted_wrt (<) (map fst xs)" "sorted_wrt (<) (map fst ys)" "map_of xs = map_of ys"
  shows "xs = ys"
proof -
  have keys: "map fst xs = map fst ys"
    using assms by (intro sorted_wrt_less_unique) (auto simp: dom_map_of_conv_image_fst [symmetric])
  have rebuild: "map (\<lambda>k. (k, the (map_of zs k))) (map fst zs) = zs" if "sorted_wrt (<) (map fst zs)"
    for zs :: "('k \<times> 'v) list"
    using that by (auto simp: strict_sorted_iff intro!: map_idI)
  show ?thesis using rebuild [OF assms(1)] rebuild [OF assms(2)] keys assms(3) by simp
qed

end
