(* ===== verification/Kora_Decimal.thy ===== *)
theory Kora_Decimal
  imports Kora_Prelude
begin

text \<open>
  The parts of \<open>fmt\<close> and \<open>strconv\<close> the program uses for numbers: \<open>%d\<close> and \<open>%06d\<close>,
  \<open>ParseUint\<close>, \<open>ParseInt\<close> and \<open>Atoi\<close> in base 10, and the \<open>Sscanf\<close> verb that reads an id
  from a file name. A Go string is its byte list. The lemmas are the round trips used by
  the file names of the store and by the RESP integers and lengths.
\<close>

section \<open>String literals\<close>

definition str :: "string \<Rightarrow> bytes" where
  "str s = map of_char s"

lemma str_simps [simp]: "str [] = []" "str (c # cs) = of_char c # str cs"
  by (simp_all add: str_def)

lemma length_str [simp]: "length (str s) = length s"
  by (simp add: str_def)

section \<open>Printing\<close>

definition digit :: "nat \<Rightarrow> byte" where
  "digit d = 48 + of_nat d"

fun showNat :: "nat \<Rightarrow> bytes" where
  "showNat n = (if n < 10 then [digit n] else showNat (n div 10) @ [digit (n mod 10)])"

declare showNat.simps [simp del]

definition showInt :: "int \<Rightarrow> bytes" where
  "showInt i = (if i < 0 then 45 # showNat (nat (- i)) else showNat (nat i))"

text \<open>The verb \<open>%06d\<close> of an unsigned value.\<close>

definition pad6 :: "nat \<Rightarrow> bytes" where
  "pad6 n = replicate (6 - length (showNat n)) 48 @ showNat n"

section \<open>Parsing\<close>

definition isDigit :: "byte \<Rightarrow> bool" where
  "isDigit c \<longleftrightarrow> 48 \<le> c \<and> c \<le> 57"

definition digitVal :: "byte \<Rightarrow> nat" where
  "digitVal c = unat c - 48"

text \<open>The loop of \<open>strconv.ParseUint(s, 10, bits)\<close>; \<open>mx\<close> is the largest representable value.\<close>

fun parseLoop :: "nat \<Rightarrow> nat \<Rightarrow> bytes \<Rightarrow> err + nat" where
  "parseLoop mx acc [] = Inr acc"
| "parseLoop mx acc (c # cs) =
     (if \<not> isDigit c then Inl ErrSyntax
      else let acc' = acc * 10 + digitVal c
           in if acc' > mx then Inl ErrRange else parseLoop mx acc' cs)"

definition ParseUint :: "nat \<Rightarrow> bytes \<Rightarrow> err + nat" where
  "ParseUint bits s = (if s = [] then Inl ErrSyntax else parseLoop (2 ^ bits - 1) 0 s)"

definition ParseInt64 :: "bytes \<Rightarrow> err + int" where
  "ParseInt64 s =
     (case s of
        [] \<Rightarrow> Inl ErrSyntax
      | c # cs \<Rightarrow>
          let neg = (c = 45); body = (if c = 45 \<or> c = 43 then cs else s)
          in case ParseUint 64 body of
               Inl e \<Rightarrow> Inl e
             | Inr un \<Rightarrow>
                 if \<not> neg \<and> un \<ge> 2 ^ 63 then Inl ErrRange
                 else if neg \<and> un > 2 ^ 63 then Inl ErrRange
                 else Inr (if neg then - int un else int un))"

definition Atoi :: "bytes \<Rightarrow> err + int" where
  "Atoi s = ParseInt64 s"

text \<open>
  \<open>fmt.Sscanf(name, "%d.sst", &id)\<close> for a \<open>uint32\<close>, with at most \<open>wid\<close> digits: at least one
  digit, the value must fit, and the literal suffix must follow. (File names in the SSTable
  directory are the store's own and start with a digit; input after the suffix is ignored,
  as Sscanf does.)
\<close>

definition sscanfId :: "nat \<Rightarrow> bytes \<Rightarrow> err + u32" where
  "sscanfId wid name =
     (let ds = takeWhile isDigit (take wid name); rest = drop (length ds) name
      in case ParseUint 32 ds of
           Inl e \<Rightarrow> Inl e
         | Inr n \<Rightarrow> if take 4 rest = str ''.sst'' then Inr (of_nat n) else Inl ErrSyntax)"

section \<open>Round trips\<close>

lemma isDigit_digit [simp]: "d < 10 \<Longrightarrow> isDigit (digit d)"
  by (auto simp: isDigit_def digit_def word_le_nat_alt unat_word_ariths unat_of_nat take_bit_nat_eq_self)

lemma digitVal_digit [simp]: "d < 10 \<Longrightarrow> digitVal (digit d) = d"
  by (simp add: digitVal_def digit_def unat_word_ariths unat_of_nat take_bit_nat_eq_self)

lemma digit_0 [simp]: "digit 0 = 48"
  by (simp add: digit_def)

lemma showNat_digits: "list_all isDigit (showNat n)"
  by (induction n rule: showNat.induct) (subst showNat.simps, simp)

lemma showNat_neq_Nil [simp]: "showNat n \<noteq> []"
  by (subst showNat.simps) simp

lemma parseLoop_append:
  "parseLoop mx acc (xs @ ys) =
     (case parseLoop mx acc xs of Inl e \<Rightarrow> Inl e | Inr a \<Rightarrow> parseLoop mx a ys)"
  by (induction mx acc xs rule: parseLoop.induct) (auto simp: Let_def)

lemma parseLoop_showNat: "n \<le> mx \<Longrightarrow> parseLoop mx 0 (showNat n) = Inr n"
proof (induction n rule: showNat.induct)
  case (1 n)
  show ?case
  proof (cases "n < 10")
    case True
    with 1 show ?thesis by (subst showNat.simps) simp
  next
    case False
    with 1 have "parseLoop mx 0 (showNat (n div 10)) = Inr (n div 10)" by simp
    with False 1(2) show ?thesis
      by (subst showNat.simps) (simp add: parseLoop_append)
  qed
qed

lemma parseLoop_zeros: "parseLoop mx 0 (replicate k 48 @ s) = parseLoop mx 0 s"
  by (induction k) (auto simp: isDigit_def digitVal_def)

lemma ParseUint_showNat: "n < 2 ^ bits \<Longrightarrow> ParseUint bits (showNat n) = Inr n"
  by (simp add: ParseUint_def parseLoop_showNat)

lemma ParseUint_pad6: "n < 2 ^ bits \<Longrightarrow> ParseUint bits (pad6 n) = Inr n"
  by (simp add: ParseUint_def pad6_def parseLoop_zeros parseLoop_showNat)

lemma pad6_digits: "list_all isDigit (pad6 n)"
  using showNat_digits [of n] by (auto simp: pad6_def list_all_iff isDigit_def)

lemma pad6_neq_Nil [simp]: "pad6 n \<noteq> []"
  by (simp add: pad6_def)

lemma showNat_hd_digit: "isDigit (hd (showNat n))"
  using showNat_digits [of n] by (cases "showNat n") auto

lemma ParseInt64_showInt:
  assumes "- (2 ^ 63) \<le> i" "i < 2 ^ 63"
  shows "ParseInt64 (showInt i) = Inr i"
proof (cases "i < 0")
  case True
  then have "nat (- i) < 2 ^ 64" "nat (- i) \<le> 2 ^ 63" using assms by auto
  with True show ?thesis
    by (simp add: ParseInt64_def showInt_def ParseUint_showNat)
next
  case False
  then have b: "nat i < 2 ^ 64" "nat i < 2 ^ 63" using assms by auto
  obtain c cs where s: "showNat (nat i) = c # cs" by (cases "showNat (nat i)") auto
  then have "isDigit c" using showNat_hd_digit [of "nat i"] by simp
  then have "c \<noteq> 45" "c \<noteq> 43" by (auto simp: isDigit_def)
  with False b s ParseUint_showNat [OF b(1)] show ?thesis
    by (simp add: ParseInt64_def showInt_def)
qed

lemma Atoi_showNat: "n < 2 ^ 63 \<Longrightarrow> Atoi (showNat n) = Inr (int n)"
  using ParseInt64_showInt [of "int n"] by (simp add: Atoi_def showInt_def)

lemma Atoi_minus1 [simp]: "Atoi [45, 49] = Inr (- 1)"
  by (simp add: Atoi_def ParseInt64_def ParseUint_def isDigit_def digitVal_def)

lemma pad6_inj: "pad6 m = pad6 n \<Longrightarrow> m = n"
proof -
  assume eq: "pad6 m = pad6 n"
  obtain bits where "m < 2 ^ bits" "n < 2 ^ bits"
    by (metis less_exp max.strict_coboundedI1 max.strict_coboundedI2 max_less_iff_conj)
  then have "Inr m = (Inr n :: err + nat)"
    using ParseUint_pad6 eq by metis
  then show ?thesis by simp
qed

text \<open>The RESP separators never occur in a printed number.\<close>

lemma showNat_no_ctrl: "c \<in> set (showNat n) \<Longrightarrow> 48 \<le> c"
  using showNat_digits [of n] by (auto simp: list_all_iff isDigit_def)

end
