(* ===== verification/Kora_Proto.thy ===== *)
theory Kora_Proto
  imports Kora_Decimal
begin

text \<open>
  Package proto: the RESP2 wire format. A writer is the byte string it writes (the errors of
  a \<open>bufio.Writer\<close> are sticky and surface in \<open>Flush\<close>); a reader consumes a stream and returns
  its result together with what is left of the stream, also after an error, because a client
  keeps reading from the same connection. A stream is what the peer sends before it closes.
  A byte slice that may be nil is a \<open>bytes option\<close>.
\<close>

section \<open>What the package uses of Go\<close>

lemma str_inj: "str a = str b \<longleftrightarrow> a = b"
proof -
  have "inj (of_char :: char \<Rightarrow> byte)"
  proof (rule injI)
    fix c d :: char assume "(of_char c :: byte) = of_char d"
    then have "unat (of_nat (of_char c) :: byte) = unat (of_nat (of_char d) :: byte)" by (simp only: of_nat_of_char)
    then have "(of_char c :: nat) = of_char d" by (simp add: unat_of_nat take_bit_nat_eq_self)
    then show "c = d" by (simp add: of_char_eq_iff)
  qed
  then show ?thesis by (simp add: str_def inj_map_eq_map)
qed

text \<open>
  \<open>make([]T, n)\<close> with elements of \<open>sz\<close> bytes: a negative length, or one beyond the allocator's
  address range (48 bits on 64-bit Linux), is a run-time panic.
\<close>

definition maxAlloc :: int where
  "maxAlloc = 2 ^ 48"

definition makeslice :: "int \<Rightarrow> int \<Rightarrow> err + nat" where
  "makeslice sz n = (if n < 0 \<or> n * sz > maxAlloc then Inl Panic else Inr (nat n))"

text \<open>The value of an \<open>int\<close> expression: 64-bit two's complement.\<close>

definition goInt :: "int \<Rightarrow> int" where
  "goInt i = sint (word_of_int i :: 64 word)"

text \<open>
  \<open>strings.TrimRight(s, "\r\n")\<close>, and \<open>strings.Fields\<close>. Where a string holds bytes outside ASCII
  the Unicode tables of the standard library decide; they are a parameter of the model.
\<close>

definition trimRight :: "bytes \<Rightarrow> bytes" where
  "trimRight s = rev (dropWhile (\<lambda>c. c = 13 \<or> c = 10) (rev s))"

record unicodeLib =
  uniFields :: "bytes \<Rightarrow> bytes list"
  uniUpper :: "bytes \<Rightarrow> bytes"
  uniLower :: "bytes \<Rightarrow> bytes"
  uniTrim :: "bytes \<Rightarrow> bytes"
  uniQuote :: "bytes \<Rightarrow> bytes"

definition isAscii :: "bytes \<Rightarrow> bool" where
  "isAscii s \<longleftrightarrow> list_all (\<lambda>c. c < 128) s"

definition isSpace :: "byte \<Rightarrow> bool" where
  "isSpace c \<longleftrightarrow> c = 32 \<or> (9 \<le> c \<and> c \<le> 13)"

lemma drop_word_shorter:
  assumes "dropWhile P s \<noteq> []"
  shows "length (dropWhile (\<lambda>c. \<not> P c) (dropWhile P s)) < length s"
proof -
  have "\<not> P (hd (dropWhile P s))" using assms by (rule hd_dropWhile)
  then have "length (dropWhile (\<lambda>c. \<not> P c) (dropWhile P s)) < length (dropWhile P s)"
    using assms by (cases "dropWhile P s") (auto simp: less_Suc_eq_le length_dropWhile_le)
  also have "\<dots> \<le> length s" by (rule length_dropWhile_le)
  finally show ?thesis .
qed

function asciiFields :: "bytes \<Rightarrow> bytes list" where
  "asciiFields s =
     (let t = dropWhile isSpace s
      in if t = [] then []
         else takeWhile (\<lambda>c. \<not> isSpace c) t # asciiFields (dropWhile (\<lambda>c. \<not> isSpace c) t))"
  by pat_completeness auto
termination
  by (relation "measure length") (auto intro: drop_word_shorter)

declare asciiFields.simps [simp del]

definition goFields :: "unicodeLib \<Rightarrow> bytes \<Rightarrow> bytes list" where
  "goFields U s = (if isAscii s then asciiFields s else uniFields U s)"

section \<open>Writers\<close>

definition crlf :: bytes where
  "crlf = [13, 10]"

definition WriteOK :: bytes where
  "WriteOK = str ''+OK'' @ crlf"

definition WriteSimpleString :: "bytes \<Rightarrow> bytes" where
  "WriteSimpleString s = str ''+'' @ s @ crlf"

definition WriteError :: "bytes \<Rightarrow> bytes" where
  "WriteError msg = str ''-ERR '' @ msg @ crlf"

definition WriteInteger :: "int \<Rightarrow> bytes" where
  "WriteInteger n = str '':'' @ showInt n @ crlf"

definition WriteBulkString :: "bytes option \<Rightarrow> bytes" where
  "WriteBulkString b0 =
     (case b0 of
        None \<Rightarrow> str ''$-1'' @ crlf
      | Some b \<Rightarrow> str ''$'' @ showNat (length b) @ crlf @ b @ crlf)"

definition WriteArrayLen :: "nat \<Rightarrow> bytes" where
  "WriteArrayLen n = str ''*'' @ showNat n @ crlf"

section \<open>Readers\<close>

type_synonym 'a parse = "(err + 'a) \<times> bytes"

definition readLine :: "bytes \<Rightarrow> bytes parse" where
  "readLine s =
     (case dropWhile (\<lambda>c. c \<noteq> 10) s of
        [] \<Rightarrow> (Inl EOF, [])
      | nl # rest \<Rightarrow> (Inr (trimRight (takeWhile (\<lambda>c. c \<noteq> 10) s @ [nl])), rest))"

text \<open>The shared end of \<open>ReadBulkString\<close> and \<open>readBulkArg\<close>: the length, the data, its CRLF.\<close>

definition readBulkBody :: "bytes \<Rightarrow> bytes \<Rightarrow> bytes option parse" where
  "readBulkBody digits rest =
     (case Atoi digits of
        Inl _ \<Rightarrow> (Inl ErrProto, rest)
      | Inr n \<Rightarrow>
          if n < 0 then (Inr None, rest)
          else (case makeslice 1 (goInt (n + 2)) of
                  Inl e \<Rightarrow> (Inl e, rest)
                | Inr m \<Rightarrow>
                    (case readFull m rest of
                       Inl e \<Rightarrow> (Inl e, [])
                     | Inr (buf, rest') \<Rightarrow> (Inr (Some (take (nat n) buf)), rest'))))"

definition readBulkArg :: "bytes \<Rightarrow> bytes option parse" where
  "readBulkArg s =
     (case readLine s of
        (Inl e, r) \<Rightarrow> (Inl e, r)
      | (Inr line, r) \<Rightarrow>
          if line = [] \<or> hd line \<noteq> 36 then (Inl ErrProto, r) else readBulkBody (tl line) r)"

fun readMany :: "(bytes \<Rightarrow> 'a parse) \<Rightarrow> nat \<Rightarrow> bytes \<Rightarrow> 'a list parse" where
  "readMany rd 0 s = (Inr [], s)"
| "readMany rd (Suc n) s =
     (case rd s of
        (Inl e, r) \<Rightarrow> (Inl e, r)
      | (Inr x, r) \<Rightarrow>
          (case readMany rd n r of (Inl e, r') \<Rightarrow> (Inl e, r') | (Inr xs, r') \<Rightarrow> (Inr (x # xs), r')))"

definition readArrayCommand :: "bytes \<Rightarrow> bytes option list parse" where
  "readArrayCommand s =
     (case readLine s of
        (Inl e, r) \<Rightarrow> (Inl e, r)
      | (Inr line, r) \<Rightarrow>
          if length line < 2 \<or> hd line \<noteq> 42 then (Inl ErrProto, r)
          else (case Atoi (tl line) of
                  Inl _ \<Rightarrow> (Inl ErrProto, r)
                | Inr n \<Rightarrow>
                    if n < 0 then (Inl ErrProto, r)
                    else (case makeslice 24 n of
                            Inl e \<Rightarrow> (Inl e, r)
                          | Inr m \<Rightarrow> readMany readBulkArg m r)))"

definition readInlineCommand :: "unicodeLib \<Rightarrow> bytes \<Rightarrow> bytes option list parse" where
  "readInlineCommand U s =
     (case readLine s of
        (Inl e, r) \<Rightarrow> (Inl e, r)
      | (Inr line, r) \<Rightarrow> (Inr (map Some (goFields U line)), r))"

text \<open>The nil argument list of a blank line and the empty array are the same list.\<close>

definition ReadCommand :: "unicodeLib \<Rightarrow> bytes \<Rightarrow> bytes option list parse" where
  "ReadCommand U s =
     (case s of
        [] \<Rightarrow> (Inl EOF, [])
      | b # _ \<Rightarrow> if b = 42 then readArrayCommand s else readInlineCommand U s)"

definition ReadSimpleString :: "bytes \<Rightarrow> bytes parse" where
  "ReadSimpleString s =
     (case readLine s of
        (Inl e, r) \<Rightarrow> (Inl e, r)
      | (Inr [], r) \<Rightarrow> (Inl ErrProto, r)
      | (Inr (c # line), r) \<Rightarrow>
          if c = 43 then (Inr line, r)
          else if c = 45 then (Inl (ErrServer line), r)
          else (Inl ErrProto, r))"

definition ReadBulkString :: "bytes \<Rightarrow> bytes option parse" where
  "ReadBulkString s =
     (case readLine s of
        (Inl e, r) \<Rightarrow> (Inl e, r)
      | (Inr [], r) \<Rightarrow> (Inl ErrProto, r)
      | (Inr (c # line), r) \<Rightarrow>
          if c = 45 then (Inl (ErrServer line), r)
          else if c = 36 then readBulkBody line r
          else (Inl ErrProto, r))"

definition ReadInteger :: "bytes \<Rightarrow> int parse" where
  "ReadInteger s =
     (case readLine s of
        (Inl e, r) \<Rightarrow> (Inl e, r)
      | (Inr [], r) \<Rightarrow> (Inl ErrProto, r)
      | (Inr (c # line), r) \<Rightarrow>
          if c = 45 then (Inl (ErrServer line), r)
          else if c = 58 then
            (case ParseInt64 line of Inl _ \<Rightarrow> (Inl ErrProto, r) | Inr n \<Rightarrow> (Inr n, r))
          else (Inl ErrProto, r))"

text \<open>One iteration of the loop of \<open>ReadPairs\<close>.\<close>

definition readPair :: "bytes \<Rightarrow> (bytes option \<times> bytes option) parse" where
  "readPair s =
     (case readBulkArg s of
        (Inl e, r) \<Rightarrow> (Inl e, r)
      | (Inr k, r) \<Rightarrow>
          (case readBulkArg r of (Inl e, r') \<Rightarrow> (Inl e, r') | (Inr v, r') \<Rightarrow> (Inr (k, v), r')))"

text \<open>Go's \<open>%\<close> and \<open>/\<close> agree with \<open>mod\<close> and \<open>div\<close> here: the remainder is only compared with 0.\<close>

definition ReadPairs :: "bytes \<Rightarrow> (bytes option \<times> bytes option) list parse" where
  "ReadPairs s =
     (case readLine s of
        (Inl e, r) \<Rightarrow> (Inl e, r)
      | (Inr [], r) \<Rightarrow> (Inl ErrProto, r)
      | (Inr (c # line), r) \<Rightarrow>
          if c = 45 then (Inl (ErrServer line), r)
          else if c = 42 then
            (case Atoi line of
               Inl _ \<Rightarrow> (Inl ErrProto, r)
             | Inr n \<Rightarrow>
                 if n = 0 then (Inr [], r)
                 else if n mod 2 \<noteq> 0 then (Inl ErrProto, r)
                 else (case makeslice 48 (n div 2) of
                         Inl e \<Rightarrow> (Inl e, r)
                       | Inr m \<Rightarrow> readMany readPair m r))
          else (Inl ErrProto, r))"

section \<open>Lines\<close>

definition lineOk :: "bytes \<Rightarrow> bool" where
  "lineOk s \<longleftrightarrow> 10 \<notin> set s \<and> (s = [] \<or> last s \<noteq> 13)"

lemma trimRight_line: "lineOk s \<Longrightarrow> trimRight (s @ crlf) = s"
  by (cases s rule: rev_cases) (auto simp: trimRight_def lineOk_def crlf_def)

lemma readLine_line [simp]:
  assumes "lineOk s"
  shows "readLine (s @ crlf @ rest) = (Inr s, rest)"
proof -
  have "10 \<notin> set s" using assms by (simp add: lineOk_def)
  then have "takeWhile (\<lambda>c. c \<noteq> 10) (s @ crlf @ rest) = s @ [13]" "dropWhile (\<lambda>c. c \<noteq> 10) (s @ crlf @ rest) = 10 # rest"
    by (auto simp: crlf_def takeWhile_append dropWhile_append)
  then show ?thesis using trimRight_line [OF assms] by (simp add: readLine_def crlf_def)
qed

lemma readLine_Cons [simp]: "lineOk (c # s) \<Longrightarrow> readLine (c # s @ crlf @ rest) = (Inr (c # s), rest)"
  using readLine_line [of "c # s" rest] by simp

lemma lineOk_number [simp]:
  assumes "c \<noteq> 10"
  shows "lineOk (c # showNat n)"
proof -
  have "x \<noteq> 10 \<and> x \<noteq> 13" if "x \<in> set (showNat n)" for x using showNat_no_ctrl [OF that] by auto
  then show ?thesis using assms last_in_set [OF showNat_neq_Nil, of n] by (auto simp: lineOk_def)
qed

lemma lineOk_showInt: "lineOk (c # showInt n)" if "c \<noteq> 10"
  using that lineOk_number [of 45 "nat (- n)"] lineOk_number [of c "nat n"]
  by (auto simp: showInt_def lineOk_def)

lemma lineOk_Cons: "lineOk (c # s) \<longleftrightarrow> c \<noteq> 10 \<and> lineOk s \<and> (s = [] \<longrightarrow> c \<noteq> 13)"
  by (auto simp: lineOk_def)

lemma readLine_shorter: "readLine s = (x, r) \<Longrightarrow> length r \<le> length s - 1"
proof -
  assume "readLine s = (x, r)"
  moreover have "length (dropWhile (\<lambda>c. c \<noteq> 10) s) \<le> length s" by (rule length_dropWhile_le)
  ultimately show ?thesis by (auto simp: readLine_def split: list.splits)
qed

section \<open>Bulk strings\<close>

definition bulkOk :: "bytes option \<Rightarrow> bool" where
  "bulkOk b0 \<longleftrightarrow> (case b0 of None \<Rightarrow> True | Some b \<Rightarrow> int (length b) + 2 \<le> maxAlloc)"

lemma goInt_id: "- (2 ^ 63) \<le> i \<Longrightarrow> i < 2 ^ 63 \<Longrightarrow> goInt i = i"
  by (simp add: goInt_def sint_sbintrunc' signed_take_bit_int_eq_self)

lemma readBulkBody_write:
  assumes "int (length b) + 2 \<le> maxAlloc"
  shows "readBulkBody (showNat (length b)) (b @ crlf @ rest) = (Inr (Some b), rest)"
proof -
  have n: "length b < 2 ^ 63" "goInt (int (length b) + 2) = int (length b) + 2"
    using assms by (auto simp: maxAlloc_def intro!: goInt_id)
  moreover have "readFull (length b + 2) (b @ crlf @ rest) = Inr (b @ crlf, rest)"
    using readFull_append [of "b @ crlf" "length b + 2" rest] by (simp add: crlf_def)
  moreover have "nat (int (length b) + 2) = length b + 2" by simp
  ultimately show ?thesis using assms by (simp add: readBulkBody_def Atoi_showNat makeslice_def)
qed

lemma WriteBulk_line:
  "WriteBulkString b @ rest =
     (case b of None \<Rightarrow> 36 # [45, 49] @ crlf @ rest
      | Some x \<Rightarrow> 36 # showNat (length x) @ crlf @ (x @ crlf @ rest))"
  by (simp add: WriteBulkString_def split: option.splits)

lemma lineOk_minus1 [simp]: "lineOk [36, 45, 49]"
  by (simp add: lineOk_def)

lemma readLine_null [simp]: "readLine (36 # 45 # 49 # crlf @ rest) = (Inr [36, 45, 49], rest)"
  using readLine_line [of "[36, 45, 49]" rest] by simp

lemma readBulkBody_null [simp]: "readBulkBody [45, 49] r = (Inr None, r)"
  by (simp add: readBulkBody_def)

lemma readBulkArg_write [simp]: "bulkOk b \<Longrightarrow> readBulkArg (WriteBulkString b @ rest) = (Inr b, rest)"
  unfolding WriteBulk_line readBulkArg_def bulkOk_def
  by (cases b) (simp_all add: readBulkBody_write)

lemma ReadBulkString_write [simp]: "bulkOk b \<Longrightarrow> ReadBulkString (WriteBulkString b @ rest) = (Inr b, rest)"
  unfolding WriteBulk_line ReadBulkString_def bulkOk_def
  by (cases b) (simp_all add: readBulkBody_write)

text \<open>Readers as decoders, and bulk strings as an instance of the codec interface.\<close>

definition asDec :: "(bytes \<Rightarrow> 'a parse) \<Rightarrow> bytes \<Rightarrow> err + 'a \<times> bytes" where
  "asDec rd s = (case rd s of (Inl e, r) \<Rightarrow> Inl e | (Inr x, r) \<Rightarrow> Inr (x, r))"

lemma asDec_Inr [simp]: "asDec rd s = Inr (x, r) \<longleftrightarrow> rd s = (Inr x, r)"
  by (auto simp: asDec_def split: sum.splits prod.splits)

lemma asDec_readMany: "asDec (readMany rd n) s = readN (asDec rd) n s"
proof (induction n arbitrary: s)
  case (Suc n)
  show ?case using Suc [of "snd (rd s)"]
    by (cases "rd s"; cases "fst (rd s)"; cases "readMany rd n (snd (rd s))"; cases "fst (readMany rd n (snd (rd s)))")
      (auto simp: asDec_def split: sum.splits)
qed (simp add: asDec_def)

interpretation bulk: prefix_codec WriteBulkString "asDec readBulkArg" bulkOk
  by unfold_locales simp

lemma readPair_write: "bulkOk k \<Longrightarrow> bulkOk v \<Longrightarrow>
    readPair ((WriteBulkString k @ WriteBulkString v) @ rest) = (Inr (k, v), rest)"
  by (simp add: readPair_def)

definition writePair :: "bytes option \<times> bytes option \<Rightarrow> bytes" where
  "writePair p = WriteBulkString (fst p) @ WriteBulkString (snd p)"

interpretation pair: prefix_codec writePair "asDec readPair" "\<lambda>p. bulkOk (fst p) \<and> bulkOk (snd p)"
  using readPair_write by unfold_locales (auto simp: writePair_def)

lemma readMany_args:
  assumes "list_all bulkOk args"
  shows "readMany readBulkArg (length args) (concat (map WriteBulkString args) @ rest) = (Inr args, rest)"
  using bulk.readN_concat [OF assms] by (simp flip: asDec_readMany)

lemma readMany_pairs:
  assumes "list_all (\<lambda>p. bulkOk (fst p) \<and> bulkOk (snd p)) ps"
  shows "readMany readPair (length ps) (concat (map writePair ps) @ rest) = (Inr ps, rest)"
  using pair.readN_concat [OF assms] by (simp flip: asDec_readMany)

section \<open>Progress\<close>

lemma readBulkBody_shorter: "readBulkBody d r = (x, r') \<Longrightarrow> length r' \<le> length r"
  by (auto simp: readBulkBody_def readFull_Inr_iff split: sum.splits if_splits prod.splits)

lemma readBulkArg_shorter: "readBulkArg s = (x, r) \<Longrightarrow> length r \<le> length s"
  using readLine_shorter [of s] readBulkBody_shorter
  by (fastforce simp: readBulkArg_def split: sum.splits if_splits prod.splits)

lemma readMany_shorter:
  assumes "\<And>s x r. rd s = (x, r) \<Longrightarrow> length r \<le> length s"
  shows "readMany rd n s = (x, r) \<Longrightarrow> length r \<le> length s"
proof (induction n arbitrary: s x r)
  case (Suc n)
  then show ?case using assms by (fastforce split: sum.splits prod.splits dest!: Suc.IH)
qed simp

lemma ReadCommand_shorter:
  assumes "ReadCommand U s = (x, r)" "s \<noteq> []"
  shows "length r < length s"
proof -
  obtain l r1 where l: "readLine s = (l, r1)" by (cases "readLine s")
  then have "length r1 < length s" using readLine_shorter [OF l] assms(2) by (cases s) auto
  moreover have "length r \<le> length r1"
    using assms l readMany_shorter [of readBulkArg, OF readBulkArg_shorter]
    by (auto simp: ReadCommand_def readArrayCommand_def readInlineCommand_def split: list.splits if_splits sum.splits)
  ultimately show ?thesis by simp
qed

section \<open>Inline words\<close>

definition wordOk :: "bytes \<Rightarrow> bool" where
  "wordOk x \<longleftrightarrow> x \<noteq> [] \<and> isAscii x \<and> list_all (\<lambda>c. \<not> isSpace c) x"

fun unwords :: "bytes list \<Rightarrow> bytes" where
  "unwords [] = []"
| "unwords [x] = x"
| "unwords (x # y # xs) = x @ 32 # unwords (y # xs)"

lemma asciiFields_word:
  assumes "wordOk x"
  shows "asciiFields (x @ 32 # s) = x # asciiFields (32 # s)" "asciiFields x = [x]"
proof -
  have x: "x \<noteq> []" "list_all (\<lambda>c. \<not> isSpace c) x" using assms by (simp_all add: wordOk_def)
  then have "dropWhile isSpace (x @ t) = x @ t" for t by (cases x) auto
  moreover have "takeWhile (\<lambda>c. \<not> isSpace c) (x @ 32 # s) = x" "dropWhile (\<lambda>c. \<not> isSpace c) (x @ 32 # s) = 32 # s"
    using x(2) by (auto simp: takeWhile_append dropWhile_append list_all_iff isSpace_def)
  moreover have "takeWhile (\<lambda>c. \<not> isSpace c) x = x" "dropWhile (\<lambda>c. \<not> isSpace c) x = []"
    using x(2) by (auto simp: list_all_iff)
  moreover have "dropWhile isSpace x = x" using x by (cases x) auto
  ultimately show "asciiFields (x @ 32 # s) = x # asciiFields (32 # s)" "asciiFields x = [x]"
    using x(1) asciiFields.simps [of "x @ 32 # s"] asciiFields.simps [of x] asciiFields.simps [of "[]"] by (simp_all del: dropWhile_eq_Nil_conv takeWhile_eq_all_conv)
qed

lemma asciiFields_space: "asciiFields (32 # s) = asciiFields s"
  by (subst (1 2) asciiFields.simps) (simp add: isSpace_def)

lemma asciiFields_unwords: "list_all wordOk xs \<Longrightarrow> asciiFields (unwords xs) = xs"
  by (induction xs rule: unwords.induct)
    (simp_all add: asciiFields_word asciiFields_space asciiFields.simps [of "[]"])

lemma unwords_chars:
  "list_all wordOk xs \<Longrightarrow> c \<in> set (unwords xs) \<Longrightarrow> c < 128 \<and> (c = 32 \<or> \<not> isSpace c)"
  by (induction xs rule: unwords.induct) (auto simp: wordOk_def isAscii_def list_all_iff)

lemma unwords_line:
  assumes "list_all wordOk xs"
  shows "isAscii (unwords xs)" "lineOk (unwords xs)"
proof -
  have c: "c < 128 \<and> c \<noteq> 10 \<and> c \<noteq> 13" if "c \<in> set (unwords xs)" for c
    using unwords_chars [OF assms that] by (auto simp: isSpace_def)
  then show "isAscii (unwords xs)" by (auto simp: isAscii_def list_all_iff)
  show "lineOk (unwords xs)" using c last_in_set [of "unwords xs"] by (auto simp: lineOk_def)
qed

lemma ReadCommand_array:
  assumes "list_all bulkOk args" "int (length args) * 24 \<le> maxAlloc"
  shows "ReadCommand U (WriteArrayLen (length args) @ concat (map WriteBulkString args) @ rest) = (Inr args, rest)"
proof -
  let ?body = "concat (map WriteBulkString args) @ rest"
  have n: "length args < 2 ^ 63" using assms(2) by (simp add: maxAlloc_def)
  have len: "\<not> length (42 # showNat (length args)) < 2" by (cases "showNat (length args)") auto
  have "readLine (42 # showNat (length args) @ crlf @ ?body) = (Inr (42 # showNat (length args)), ?body)" by simp
  then show ?thesis
    using assms n len readMany_args [OF assms(1), of rest]
    by (simp add: ReadCommand_def WriteArrayLen_def readArrayCommand_def Atoi_showNat makeslice_def)
qed

section \<open>Replies\<close>

lemma ReadSimpleString_write:
  assumes "lineOk s"
  shows "ReadSimpleString (WriteSimpleString s @ rest) = (Inr s, rest)"
proof -
  have "lineOk (43 # s)" using assms by (auto simp: lineOk_Cons)
  then show ?thesis by (simp add: ReadSimpleString_def WriteSimpleString_def)
qed

lemma WriteOK_simple: "WriteOK = WriteSimpleString (str ''OK'')"
  by (simp add: WriteOK_def WriteSimpleString_def)

lemma ReadInteger_write:
  assumes "- (2 ^ 63) \<le> n" "n < 2 ^ 63"
  shows "ReadInteger (WriteInteger n @ rest) = (Inr n, rest)"
proof -
  have "lineOk (58 # showInt n)" by (simp add: lineOk_showInt)
  then show ?thesis using ParseInt64_showInt [OF assms] by (simp add: ReadInteger_def WriteInteger_def)
qed

lemma ReadPairs_write:
  assumes "list_all (\<lambda>p. bulkOk (fst p) \<and> bulkOk (snd p)) ps" "int (length ps) * 48 \<le> maxAlloc"
  shows "ReadPairs (WriteArrayLen (length ps * 2) @ concat (map writePair ps) @ rest) = (Inr ps, rest)"
proof -
  have n: "length ps * 2 < 2 ^ 63" using assms(2) by (simp add: maxAlloc_def)
  then show ?thesis using assms(2) readMany_pairs [OF assms(1), of rest] Atoi_showNat [OF n]
    by (auto simp: ReadPairs_def WriteArrayLen_def makeslice_def)
qed

lemma readers_on_error:
  assumes "lineOk msg" "msg \<noteq> []"
  shows "ReadSimpleString (WriteError msg @ rest) = (Inl (ErrServer (str ''ERR '' @ msg)), rest)"
    "ReadBulkString (WriteError msg @ rest) = (Inl (ErrServer (str ''ERR '' @ msg)), rest)"
    "ReadInteger (WriteError msg @ rest) = (Inl (ErrServer (str ''ERR '' @ msg)), rest)"
    "ReadPairs (WriteError msg @ rest) = (Inl (ErrServer (str ''ERR '' @ msg)), rest)"
proof -
  have "lineOk (45 # str ''ERR '' @ msg)" using assms by (auto simp: lineOk_def)
  then have "readLine (WriteError msg @ rest) = (Inr (45 # str ''ERR '' @ msg), rest)"
    using readLine_Cons [of 45 "str ''ERR '' @ msg" rest] by (simp add: WriteError_def)
  then show "ReadSimpleString (WriteError msg @ rest) = (Inl (ErrServer (str ''ERR '' @ msg)), rest)"
    "ReadBulkString (WriteError msg @ rest) = (Inl (ErrServer (str ''ERR '' @ msg)), rest)"
    "ReadInteger (WriteError msg @ rest) = (Inl (ErrServer (str ''ERR '' @ msg)), rest)"
    "ReadPairs (WriteError msg @ rest) = (Inl (ErrServer (str ''ERR '' @ msg)), rest)"
    by (simp_all add: ReadSimpleString_def ReadBulkString_def ReadInteger_def ReadPairs_def)
qed

section \<open>Properties\<close>

text \<open>
  C27: Commands survive the wire: reading an array of bulk strings gives back exactly the
  arguments that were written, nil ones included, and leaves the stream at the next command.
\<close>

theorem command_roundtrip:
  assumes "list_all bulkOk args" "int (length args) * 24 \<le> maxAlloc"
  shows "ReadCommand U (WriteArrayLen (length args) @ concat (map WriteBulkString args) @ rest) = (Inr args, rest)"
  using assms by (rule ReadCommand_array)

theorem command_roundtrip_witness:
  "\<forall>U. ReadCommand U (WriteArrayLen (Suc (Suc 0)) @ (WriteBulkString (Some [71, 13, 10]) @ WriteBulkString None) @ [43]) =
     (Inr [Some [71, 13, 10], None], [43])"
  using command_roundtrip [of "[Some [71, 13, 10], None]" _ "[43]"] by (simp add: bulkOk_def maxAlloc_def)

text \<open>
  C28: Replies survive the wire: the reader for each kind of reply returns what the server wrote
  and stops where the next reply starts. A simple string must be a single line.
\<close>

theorem replies_roundtrip:
  assumes "lineOk s" "bulkOk b" "- (2 ^ 63) \<le> n" "n < 2 ^ 63"
    and "list_all (\<lambda>p. bulkOk (fst p) \<and> bulkOk (snd p)) ps" "int (length ps) * 48 \<le> maxAlloc"
  shows "ReadSimpleString (WriteSimpleString s @ rest) = (Inr s, rest) \<and>
    ReadBulkString (WriteBulkString b @ rest) = (Inr b, rest) \<and>
    ReadInteger (WriteInteger n @ rest) = (Inr n, rest) \<and>
    ReadPairs (WriteArrayLen (length ps * 2) @ concat (map (\<lambda>p. WriteBulkString (fst p) @ WriteBulkString (snd p)) ps) @ rest)
      = (Inr ps, rest)"
  using assms ReadSimpleString_write ReadBulkString_write ReadInteger_write ReadPairs_write [of ps rest]
  by (simp add: writePair_def [abs_def])

theorem replies_roundtrip_witness:
  "ReadInteger (WriteInteger (- 7) @ [1]) = (Inr (- 7), [1]) \<and>
   ReadPairs (WriteArrayLen (Suc 0 * 2) @ (WriteBulkString (Some [97]) @ WriteBulkString None) @ [1]) = (Inr [(Some [97], None)], [1])"
  using replies_roundtrip [of "str ''OK''" "Some [13, 10]" "- 7" "[(Some [97], None)]" "[1]"]
  by (simp add: bulkOk_def maxAlloc_def lineOk_def)

text \<open>
  Errors survive the wire: an error reply with a one-line message is reported as that error by
  every reader of the client, and the stream stays in step.
\<close>

theorem error_reply_reported:
  assumes "lineOk msg" "msg \<noteq> []"
  shows "ReadSimpleString (WriteError msg @ rest) = (Inl (ErrServer (str ''ERR '' @ msg)), rest) \<and>
    ReadBulkString (WriteError msg @ rest) = (Inl (ErrServer (str ''ERR '' @ msg)), rest) \<and>
    ReadInteger (WriteError msg @ rest) = (Inl (ErrServer (str ''ERR '' @ msg)), rest) \<and>
    ReadPairs (WriteError msg @ rest) = (Inl (ErrServer (str ''ERR '' @ msg)), rest)"
  using readers_on_error [OF assms] by simp

theorem error_reply_reported_witness:
  "ReadBulkString (WriteError (str ''no'') @ [43]) = (Inl (ErrServer (str ''ERR no'')), [43])"
  using error_reply_reported [of "str ''no''" "[43]"] by (simp add: lineOk_def)

text \<open>
  Inline commands: words of printable ASCII separated by spaces and ended by CRLF are read as
  those words, unless the line starts with an asterisk.
\<close>

theorem inline_command_words:
  assumes "list_all wordOk ws" "ws \<noteq> []" "hd (hd ws) \<noteq> 42"
  shows "ReadCommand U (unwords ws @ crlf @ rest) = (Inr (map Some ws), rest)"
proof -
  obtain c x xs where ws: "ws = (c # x) # xs" using assms(1,2) by (cases ws; cases "hd ws") (auto simp: wordOk_def)
  then obtain u where u: "unwords ws = c # u" by (cases xs) auto
  then have "ReadCommand U (unwords ws @ crlf @ rest) = readInlineCommand U (unwords ws @ crlf @ rest)"
    using assms(3) ws by (simp add: ReadCommand_def)
  then show ?thesis
    using unwords_line [OF assms(1)] asciiFields_unwords [OF assms(1)]
    by (simp add: readInlineCommand_def goFields_def)
qed

theorem inline_command_words_witness:
  "\<forall>U. ReadCommand U (str ''GET a'' @ crlf @ [80]) = (Inr [Some (str ''GET''), Some (str ''a'')], [80])"
  using inline_command_words [of "[str ''GET'', str ''a'']" _ "[80]"]
  by (simp add: wordOk_def isAscii_def isSpace_def)

text \<open>
  C40: Lengths are not validated: a bulk length above the allocator's range, up to the one whose
  \<open>n+2\<close> overflows, makes the reader of the server panic, and a negative even array length does
  the same to the client's \<open>ReadPairs\<close>.
\<close>

theorem hostile_length_panics:
  assumes "2 ^ 48 - 2 < n" "n < 2 ^ 63" and "0 < m" "m < 2 ^ 62"
  shows "fst (ReadCommand U (WriteArrayLen 1 @ str ''$'' @ showNat n @ crlf @ rest)) = Inl Panic \<and>
    fst (ReadPairs (str ''*'' @ showInt (- (2 * int m)) @ crlf @ rest)) = Inl Panic"
proof
  have one: "readLine (WriteArrayLen 1 @ s) = (Inr (42 # showNat 1), s)" "Atoi (showNat 1) = Inr 1" for s
    using Atoi_showNat [of 1] by (simp_all add: WriteArrayLen_def)
  have short: "showNat 1 = [49]" by (simp add: showNat.simps digit_def)
  have "makeslice 1 (goInt (int n + 2)) = Inl Panic"
  proof (cases "n + 2 < 2 ^ 63")
    case True
    then have "goInt (int n + 2) = int n + 2" by (intro goInt_id) auto
    then show ?thesis using assms(1) by (simp add: makeslice_def maxAlloc_def)
  next
    case False
    then have "n = 2 ^ 63 - 2 \<or> n = 2 ^ 63 - 1" using assms(2) by (simp, linarith)
    then have "goInt (int n + 2) < 0" by (auto simp: goInt_def sint_sbintrunc' signed_take_bit_def)
    then show ?thesis by (simp add: makeslice_def)
  qed
  then have "fst (readBulkBody (showNat n) rest) = Inl Panic"
    using assms(2) by (simp add: readBulkBody_def Atoi_showNat)
  then have "fst (readBulkArg (36 # showNat n @ crlf @ rest)) = Inl Panic" by (simp add: readBulkArg_def)
  then have "fst (readMany readBulkArg (Suc 0) (str ''$'' @ showNat n @ crlf @ rest)) = Inl Panic"
    by (auto split: prod.splits)
  moreover have "ReadCommand U (WriteArrayLen 1 @ s) = readArrayCommand (WriteArrayLen 1 @ s)" for s
    by (simp add: ReadCommand_def WriteArrayLen_def)
  ultimately show "fst (ReadCommand U (WriteArrayLen 1 @ str ''$'' @ showNat n @ crlf @ rest)) = Inl Panic"
    using one short by (simp add: readArrayCommand_def makeslice_def maxAlloc_def del: One_nat_def)
  have "Atoi (showInt (- (2 * int m))) = Inr (- (2 * int m))"
    using assms(3,4) by (simp add: Atoi_def ParseInt64_showInt)
  then show "fst (ReadPairs (str ''*'' @ showInt (- (2 * int m)) @ crlf @ rest)) = Inl Panic"
    using lineOk_showInt [of 42 "- (2 * int m)"] assms(3) by (simp add: ReadPairs_def makeslice_def)
qed

theorem hostile_length_panics_witness:
  "\<forall>U. fst (ReadCommand U (WriteArrayLen 1 @ str ''$'' @ showNat 9223372036854775807 @ crlf @ [])) = Inl Panic \<and>
   fst (ReadPairs (str ''*'' @ showInt (- 2) @ crlf @ [])) = Inl Panic"
  using hostile_length_panics [of 9223372036854775807 1 _ "[]"] by simp

end
