(* ===== verification/Kora_Art_Node.thy ===== *)
theory Kora_Art_Node
  imports Kora_Prelude
begin

text \<open>
  The four node layouts of the adaptive radix tree (\<open>internal/art/node.go\<close>, \<open>node4.go\<close>,
  \<open>node16.go\<close>, \<open>node48.go\<close>, \<open>node256.go\<close>). A pointer to a child slot, which \<open>findChild\<close>
  returns and through which the tree code replaces a child, is the slot's index. A child
  slot holds \<open>None\<close> for a nil node. The contract every layout satisfies is the locale
  \<open>child_table\<close>: a finite map from key bytes to children, iterated in ascending order.
\<close>

section \<open>Go's copy and sort.Search\<close>

text \<open>\<open>copy(dst[off:], src)\<close>.\<close>

definition goCopy :: "'a list \<Rightarrow> nat \<Rightarrow> 'a list \<Rightarrow> 'a list" where
  "goCopy dst off src =
     take off dst @ take (length dst - off) src @ drop (off + length src) dst"

function searchLoop :: "(nat \<Rightarrow> bool) \<Rightarrow> nat \<Rightarrow> nat \<Rightarrow> nat" where
  "searchLoop f i j =
     (if i < j then
        let h = (i + j) div 2
        in if \<not> f h then searchLoop f (h + 1) j else searchLoop f i h
      else i)"
  by pat_completeness auto
termination
  by (relation "measure (\<lambda>(_, i, j). j - i)") auto

declare searchLoop.simps [simp del]

definition sortSearch :: "nat \<Rightarrow> (nat \<Rightarrow> bool) \<Rightarrow> nat" where
  "sortSearch n f = searchLoop f 0 n"

lemma searchLoop_bracket:
  assumes mono: "\<And>a b. a \<le> b \<Longrightarrow> b < n \<Longrightarrow> f a \<Longrightarrow> f b"
    and R: "\<And>i. R i \<longleftrightarrow> i \<le> n \<and> (\<forall>a<i. \<not> f a)" and S: "\<And>j. S j \<longleftrightarrow> (\<forall>a. j \<le> a \<and> a < n \<longrightarrow> f a)"
  shows "i \<le> j \<Longrightarrow> j \<le> n \<Longrightarrow> R i \<Longrightarrow> S j \<Longrightarrow> R (searchLoop f i j) \<and> S (searchLoop f i j)"
proof (induction "j - i" arbitrary: i j rule: less_induct)
  case less
  define h where "h = (i + j) div 2"
  show ?case
  proof (cases "i < j")
    case True
    then have h: "i \<le> h" "h < j" by (auto simp: h_def)
    show ?thesis
    proof (cases "f h")
      case fh: True
      have "S h" unfolding S using mono fh by blast
      then have "R (searchLoop f i h) \<and> S (searchLoop f i h)"
        using h less.prems by (intro less.hyps) simp_all
      then show ?thesis using True fh by (subst (1 2) searchLoop.simps) (simp add: h_def Let_def)
    next
      case nf: False
      have "\<not> f a" if "a < h + 1" for a
        using mono [of a h] nf h(2) less.prems(2) that by linarith
      then have "R (h + 1)" unfolding R using h less.prems(2) by simp
      then have "R (searchLoop f (h + 1) j) \<and> S (searchLoop f (h + 1) j)"
        using h less.prems by (intro less.hyps) simp_all
      then show ?thesis using True nf by (subst (1 2) searchLoop.simps) (simp add: h_def Let_def)
    qed
  next
    case False
    then have "searchLoop f i j = i" by (subst searchLoop.simps) simp
    then show ?thesis using False less.prems by simp
  qed
qed

lemma sortSearch_spec:
  assumes "\<And>a b. a \<le> b \<Longrightarrow> b < n \<Longrightarrow> f a \<Longrightarrow> f b"
  shows "sortSearch n f \<le> n" and "a < sortSearch n f \<Longrightarrow> \<not> f a"
    and "sortSearch n f \<le> a \<Longrightarrow> a < n \<Longrightarrow> f a"
  proof -
  have "(sortSearch n f \<le> n \<and> (\<forall>a < sortSearch n f. \<not> f a)) \<and>
      (\<forall>a. sortSearch n f \<le> a \<and> a < n \<longrightarrow> f a)"
    unfolding sortSearch_def by (rule searchLoop_bracket [where n = n]) (use assms in auto)
  then show "sortSearch n f \<le> n" and "a < sortSearch n f \<Longrightarrow> \<not> f a"
    and "sortSearch n f \<le> a \<Longrightarrow> a < n \<Longrightarrow> f a" by blast+
qed

section \<open>Layouts\<close>

definition maxPrefixLen :: nat where
  "maxPrefixLen = 64"

record artHeader =
  prefixLen :: nat
  prefix :: bytes

definition zeroHeader :: artHeader where
  "zeroHeader = \<lparr>prefixLen = 0, prefix = replicate maxPrefixLen 0\<rparr>"

text \<open>
  \<open>node4\<close> and \<open>node16\<close>: a count, an array of key bytes and an array of children; the
  capacity is the length of the arrays.
\<close>

datatype 'c nodeArr = NodeArr (nChildren: nat) (keys: bytes) (children: "'c option list")

text \<open>\<open>node48\<close>: a count, the 256-entry index (0 is empty, else slot number plus 1), 48 slots.\<close>

datatype 'c node48 = Node48 (nChildren48: nat) (index48: bytes) (slots48: "'c option list")

text \<open>\<open>node256\<close>: a count and one slot per byte.\<close>

datatype 'c node256 = Node256 (nChildren256: nat) (children256: "'c option list")

text \<open>The node interface: a leaf or one of the four inner nodes with its embedded header.\<close>

datatype 'v node =
    Leaf (leafKey: bytes) (leafValue: 'v)
  | N4 artHeader "'v node nodeArr"
  | N16 artHeader "'v node nodeArr"
  | N48 artHeader "'v node node48"
  | N256 artHeader "'v node node256"

definition newArr :: "nat \<Rightarrow> 'c nodeArr" where
  "newArr cap = NodeArr 0 (replicate cap 0) (replicate cap None)"

definition newNode48 :: "'c node48" where
  "newNode48 = Node48 0 (replicate 256 0) (replicate 48 None)"

definition newNode256 :: "'c node256" where
  "newNode256 = Node256 0 (replicate 256 None)"

section \<open>Reading and writing through a slot pointer\<close>

text \<open>
  \<open>nthSlot\<close> reads an array of children; indices past its end, which no reachable node has
  (\<open>nodeInv\<close> below), read as nil.
\<close>

definition nthSlot :: "'c option list \<Rightarrow> nat \<Rightarrow> 'c option" where
  "nthSlot cs i = (if i < length cs then cs ! i else None)"

definition getArr :: "'c nodeArr \<Rightarrow> nat \<Rightarrow> 'c option" where
  "getArr n i = nthSlot (children n) i"

definition putArr :: "'c nodeArr \<Rightarrow> nat \<Rightarrow> 'c \<Rightarrow> 'c nodeArr" where
  "putArr n i c = NodeArr (nChildren n) (keys n) ((children n)[i := Some c])"

definition get48 :: "'c node48 \<Rightarrow> nat \<Rightarrow> 'c option" where
  "get48 n i = nthSlot (slots48 n) i"

definition put48 :: "'c node48 \<Rightarrow> nat \<Rightarrow> 'c \<Rightarrow> 'c node48" where
  "put48 n i c = Node48 (nChildren48 n) (index48 n) ((slots48 n)[i := Some c])"

definition get256 :: "'c node256 \<Rightarrow> nat \<Rightarrow> 'c option" where
  "get256 n i = nthSlot (children256 n) i"

definition put256 :: "'c node256 \<Rightarrow> nat \<Rightarrow> 'c \<Rightarrow> 'c node256" where
  "put256 n i c = Node256 (nChildren256 n) ((children256 n)[i := Some c])"

section \<open>findChild\<close>

fun findFrom :: "byte \<Rightarrow> bytes \<Rightarrow> nat \<Rightarrow> nat \<Rightarrow> nat option" where
  "findFrom b ks i 0 = None"
| "findFrom b ks i (Suc m) = (if ks ! i = b then Some i else findFrom b ks (Suc i) m)"

definition findChild4 :: "'c nodeArr \<Rightarrow> byte \<Rightarrow> nat option" where
  "findChild4 n b = findFrom b (keys n) 0 (nChildren n)"

definition findChild16 :: "'c nodeArr \<Rightarrow> byte \<Rightarrow> nat option" where
  "findChild16 n b =
     (let cnt = nChildren n; i = sortSearch cnt (\<lambda>i. keys n ! i \<ge> b)
      in if i < cnt \<and> keys n ! i = b then Some i else None)"

definition findChild48 :: "'c node48 \<Rightarrow> byte \<Rightarrow> nat option" where
  "findChild48 n b =
     (let s = index48 n ! unat b in if s = 0 then None else Some (unat s - 1))"

definition findChild256 :: "'c node256 \<Rightarrow> byte \<Rightarrow> nat option" where
  "findChild256 n b = (if children256 n ! unat b = None then None else Some (unat b))"

section \<open>forEach\<close>

definition eachArr :: "'c nodeArr \<Rightarrow> (byte \<times> 'c option) list" where
  "eachArr n = take (nChildren n) (zip (keys n) (children n))"

definition each48 :: "'c node48 \<Rightarrow> (byte \<times> 'c option) list" where
  "each48 n =
     map (\<lambda>i. (of_nat i, get48 n (unat (index48 n ! i) - 1)))
       (filter (\<lambda>i. index48 n ! i \<noteq> 0) [0..<256])"

definition each256 :: "'c node256 \<Rightarrow> (byte \<times> 'c option) list" where
  "each256 n =
     map (\<lambda>i. (of_nat i, get256 n i)) (filter (\<lambda>i. get256 n i \<noteq> None) [0..<256])"

section \<open>addChild\<close>

text \<open>The sorted insertion of \<open>node4\<close> and \<open>node16\<close> into arrays with a free place.\<close>

definition insertArr :: "'c nodeArr \<Rightarrow> byte \<Rightarrow> 'c \<Rightarrow> 'c nodeArr" where
  "insertArr n b c =
     (let pos = sortSearch (nChildren n) (\<lambda>i. keys n ! i \<ge> b);
          ks = goCopy (keys n) (pos + 1) (drop pos (keys n));
          cs = goCopy (children n) (pos + 1) (drop pos (children n))
      in NodeArr (nChildren n + 1) (ks[pos := b]) (cs[pos := Some c]))"

text \<open>\<open>insertAt\<close>: with all 48 slots taken the write is out of range.\<close>

definition insertAt48 :: "'c node48 \<Rightarrow> byte \<Rightarrow> 'c option \<Rightarrow> err + 'c node48" where
  "insertAt48 n b c =
     (let s = length (takeWhile (\<lambda>x. x \<noteq> None) (slots48 n))
      in if s < 48
         then Inr (Node48 (nChildren48 n + 1) ((index48 n)[unat b := of_nat (s + 1)])
                     ((slots48 n)[s := c]))
         else Inl Panic)"

text \<open>Repeated insertion, as the loops that convert one layout into another do.\<close>

fun insertAll48 :: "'c node48 \<Rightarrow> (byte \<times> 'c option) list \<Rightarrow> err + 'c node48" where
  "insertAll48 n [] = Inr n"
| "insertAll48 n ((b, c) # xs) =
     (case insertAt48 n b c of Inl e \<Rightarrow> Inl e | Inr n' \<Rightarrow> insertAll48 n' xs)"

definition addChild256 :: "'c node256 \<Rightarrow> byte \<Rightarrow> 'c \<Rightarrow> 'c node256" where
  "addChild256 n b c =
     Node256 (if children256 n ! unat b = None then nChildren256 n + 1 else nChildren256 n)
       ((children256 n)[unat b := Some c])"

definition grow256 :: "'c node48 \<Rightarrow> 'c node256" where
  "grow256 n =
     foldl (\<lambda>m i. if index48 n ! i \<noteq> 0
                  then Node256 (nChildren256 m + 1)
                         ((children256 m)[i := get48 n (unat (index48 n ! i) - 1)])
                  else m)
       newNode256 [0..<256]"

definition addChild48 :: "artHeader \<Rightarrow> 'v node node48 \<Rightarrow> byte \<Rightarrow> 'v node \<Rightarrow> err + 'v node" where
  "addChild48 h n b c =
     (if nChildren48 n < 48 then
        (case insertAt48 n b (Some c) of Inl e \<Rightarrow> Inl e | Inr n' \<Rightarrow> Inr (N48 h n'))
      else Inr (N256 h (addChild256 (grow256 n) b c)))"

definition addChild16 :: "artHeader \<Rightarrow> 'v node nodeArr \<Rightarrow> byte \<Rightarrow> 'v node \<Rightarrow> err + 'v node" where
  "addChild16 h n b c =
     (if nChildren n < 16 then Inr (N16 h (insertArr n b c))
      else case insertAll48 newNode48 (eachArr n) of
             Inl e \<Rightarrow> Inl e | Inr n48 \<Rightarrow> addChild48 h n48 b c)"

definition addChild4 :: "artHeader \<Rightarrow> 'v node nodeArr \<Rightarrow> byte \<Rightarrow> 'v node \<Rightarrow> err + 'v node" where
  "addChild4 h n b c =
     (if nChildren n < 4 then Inr (N4 h (insertArr n b c))
      else
        let n16 = NodeArr (nChildren n) (goCopy (keys (newArr 16 :: 'v node nodeArr)) 0 (keys n))
                    (goCopy (children (newArr 16)) 0 (children n))
        in addChild16 h n16 b c)"

fun addChild :: "'v node \<Rightarrow> byte \<Rightarrow> 'v node \<Rightarrow> err + 'v node" where
  "addChild (Leaf k v) b c = Inr (Leaf k v)"
| "addChild (N4 h n) b c = addChild4 h n b c"
| "addChild (N16 h n) b c = addChild16 h n b c"
| "addChild (N48 h n) b c = addChild48 h n b c"
| "addChild (N256 h n) b c = Inr (N256 h (addChild256 n b c))"

section \<open>removeChild\<close>

text \<open>The left shift of \<open>node4\<close> and \<open>node16\<close>, which also clears the vacated child.\<close>

definition removeAtArr :: "'c nodeArr \<Rightarrow> nat \<Rightarrow> 'c nodeArr" where
  "removeAtArr n i =
     NodeArr (nChildren n - 1) (goCopy (keys n) i (drop (i + 1) (keys n)))
       ((goCopy (children n) i (drop (i + 1) (children n)))[nChildren n - 1 := None])"

definition removeChild4 :: "artHeader \<Rightarrow> 'v node nodeArr \<Rightarrow> byte \<Rightarrow> 'v node" where
  "removeChild4 h n b =
     (case findChild4 n b of None \<Rightarrow> N4 h n | Some i \<Rightarrow> N4 h (removeAtArr n i))"

definition removeChild16 :: "artHeader \<Rightarrow> 'v node nodeArr \<Rightarrow> byte \<Rightarrow> 'v node" where
  "removeChild16 h n b =
     (let n' = (case findChild16 n b of None \<Rightarrow> n | Some i \<Rightarrow> removeAtArr n i)
      in if nChildren n' \<le> 4 then
           N4 h (NodeArr (nChildren n')
                   (goCopy (keys (newArr 4 :: 'v node nodeArr)) 0 (take (nChildren n') (keys n')))
                   (goCopy (children (newArr 4)) 0 (take (nChildren n') (children n'))))
         else N16 h n')"

text \<open>The conversion loop of \<open>node48.removeChild\<close>: \<open>n16.addChild\<close> for every entry, the result ignored.\<close>

fun addAll16 :: "'c nodeArr \<Rightarrow> (byte \<times> 'c option) list \<Rightarrow> 'c nodeArr" where
  "addAll16 n [] = n"
| "addAll16 n ((b, c) # xs) =
     (case c of
        None \<Rightarrow> addAll16 n xs
      | Some x \<Rightarrow> addAll16 (if nChildren n < 16 then insertArr n b x else n) xs)"

definition removeChild48 :: "artHeader \<Rightarrow> 'v node node48 \<Rightarrow> byte \<Rightarrow> 'v node" where
  "removeChild48 h n b =
     (let s = index48 n ! unat b
      in if s = 0 then N48 h n
         else
           let n' = Node48 (nChildren48 n - 1) ((index48 n)[unat b := 0])
                      ((slots48 n)[unat s - 1 := None])
           in if nChildren48 n' \<le> 16 then N16 h (addAll16 (newArr 16) (each48 n'))
              else N48 h n')"

definition removeChild256 :: "artHeader \<Rightarrow> 'v node node256 \<Rightarrow> byte \<Rightarrow> err + 'v node" where
  "removeChild256 h n b =
     (let n' = (if children256 n ! unat b \<noteq> None
                then Node256 (nChildren256 n - 1) ((children256 n)[unat b := None]) else n)
      in if nChildren256 n' \<le> 48 then
           (case insertAll48 newNode48 (each256 n') of
              Inl e \<Rightarrow> Inl e | Inr n48 \<Rightarrow> Inr (N48 h n48))
         else Inr (N256 h n'))"

fun removeChild :: "'v node \<Rightarrow> byte \<Rightarrow> err + 'v node" where
  "removeChild (Leaf k v) b = Inr (Leaf k v)"
| "removeChild (N4 h n) b = Inr (removeChild4 h n b)"
| "removeChild (N16 h n) b = Inr (removeChild16 h n b)"
| "removeChild (N48 h n) b = Inr (removeChild48 h n b)"
| "removeChild (N256 h n) b = removeChild256 h n b"

section \<open>Dispatch on the node kind\<close>

fun findChild :: "'v node \<Rightarrow> byte \<Rightarrow> nat option" where
  "findChild (Leaf k v) b = None"
| "findChild (N4 h n) b = findChild4 n b"
| "findChild (N16 h n) b = findChild16 n b"
| "findChild (N48 h n) b = findChild48 n b"
| "findChild (N256 h n) b = findChild256 n b"

fun slotGet :: "'v node \<Rightarrow> nat \<Rightarrow> 'v node option" where
  "slotGet (Leaf k v) i = None"
| "slotGet (N4 h n) i = getArr n i"
| "slotGet (N16 h n) i = getArr n i"
| "slotGet (N48 h n) i = get48 n i"
| "slotGet (N256 h n) i = get256 n i"

fun slotPut :: "'v node \<Rightarrow> nat \<Rightarrow> 'v node \<Rightarrow> 'v node" where
  "slotPut (Leaf k v) i c = Leaf k v"
| "slotPut (N4 h n) i c = N4 h (putArr n i c)"
| "slotPut (N16 h n) i c = N16 h (putArr n i c)"
| "slotPut (N48 h n) i c = N48 h (put48 n i c)"
| "slotPut (N256 h n) i c = N256 h (put256 n i c)"

fun forEach :: "'v node \<Rightarrow> (byte \<times> 'v node option) list" where
  "forEach (Leaf k v) = []"
| "forEach (N4 h n) = eachArr n"
| "forEach (N16 h n) = eachArr n"
| "forEach (N48 h n) = each48 n"
| "forEach (N256 h n) = each256 n"

fun childCount :: "'v node \<Rightarrow> nat" where
  "childCount (Leaf k v) = 0"
| "childCount (N4 h n) = nChildren n"
| "childCount (N16 h n) = nChildren n"
| "childCount (N48 h n) = nChildren48 n"
| "childCount (N256 h n) = nChildren256 n"

fun header :: "'v node \<Rightarrow> artHeader option" where
  "header (Leaf k v) = None"
| "header (N4 h n) = Some h"
| "header (N16 h n) = Some h"
| "header (N48 h n) = Some h"
| "header (N256 h n) = Some h"

fun setHeader :: "artHeader \<Rightarrow> 'v node \<Rightarrow> 'v node" where
  "setHeader h (Leaf k v) = Leaf k v"
| "setHeader h (N4 _ n) = N4 h n"
| "setHeader h (N16 _ n) = N16 h n"
| "setHeader h (N48 _ n) = N48 h n"
| "setHeader h (N256 _ n) = N256 h n"

section \<open>The contract of a child table\<close>

locale child_table =
  fixes find :: "'t \<Rightarrow> byte \<Rightarrow> nat option"
    and get :: "'t \<Rightarrow> nat \<Rightarrow> 'c option"
    and put :: "'t \<Rightarrow> nat \<Rightarrow> 'c \<Rightarrow> 't"
    and each :: "'t \<Rightarrow> (byte \<times> 'c option) list"
    and count :: "'t \<Rightarrow> nat"
    and inv :: "'t \<Rightarrow> bool"
  assumes each_sorted: "inv t \<Longrightarrow> sorted_wrt (<) (map fst (each t))"
    and each_some: "inv t \<Longrightarrow> (b, co) \<in> set (each t) \<Longrightarrow> co \<noteq> None"
    and each_count: "inv t \<Longrightarrow> count t = length (each t)"
    and find_none: "inv t \<Longrightarrow> find t b = None \<Longrightarrow> b \<notin> fst ` set (each t)"
    and find_some: "inv t \<Longrightarrow> find t b = Some i \<Longrightarrow> (b, get t i) \<in> set (each t)"
    and put_inv: "inv t \<Longrightarrow> find t b = Some i \<Longrightarrow> inv (put t i c)"
    and put_each: "inv t \<Longrightarrow> find t b = Some i \<Longrightarrow>
      set (each (put t i c)) = insert (b, Some c) {x \<in> set (each t). fst x \<noteq> b}"
begin

lemma each_unique:
  assumes "inv t" "(b, c) \<in> set (each t)" "(b, d) \<in> set (each t)" shows "c = d"
  using assms each_sorted [OF assms(1)]
  by (metis eq_key_imp_eq_value strict_sorted_iff)

lemma find_get:
  assumes "inv t" "find t b = Some i"
  shows "\<exists>c. get t i = Some c \<and> (b, Some c) \<in> set (each t)"
  using find_some [OF assms] each_some [OF assms(1)] by fastforce

lemma member_find:
  assumes "inv t" "(b, Some c) \<in> set (each t)"
  shows "\<exists>i. find t b = Some i \<and> get t i = Some c"
proof (cases "find t b")
  case None
  then show ?thesis using find_none [OF assms(1)] assms(2) by force
next
  case (Some i)
  then show ?thesis using find_some [OF assms(1)] each_unique [OF assms(1)] assms(2) by blast
qed

end

section \<open>The array layouts\<close>

definition arrInv :: "nat \<Rightarrow> 'c nodeArr \<Rightarrow> bool" where
  "arrInv cap n \<longleftrightarrow>
     length (keys n) = cap \<and> length (children n) = cap \<and> nChildren n \<le> cap \<and>
     sorted_wrt (<) (take (nChildren n) (keys n)) \<and>
     (\<forall>i < nChildren n. children n ! i \<noteq> None)"

lemma arrInv_nth_less:
  "arrInv cap n \<Longrightarrow> i < j \<Longrightarrow> j < nChildren n \<Longrightarrow> keys n ! i < keys n ! j"
  by (auto simp: arrInv_def sorted_wrt_iff_nth_less)

lemma arr_keys_inj:
  "arrInv cap n \<Longrightarrow> i < nChildren n \<Longrightarrow> j < nChildren n \<Longrightarrow> keys n ! i = keys n ! j \<Longrightarrow> i = j"
  by (metis arrInv_nth_less less_irrefl linorder_neqE_nat)

lemma eachArr_keys: "arrInv cap n \<Longrightarrow> map fst (eachArr n) = take (nChildren n) (keys n)"
  by (simp add: eachArr_def arrInv_def take_map flip: take_map)

lemma length_eachArr: "arrInv cap n \<Longrightarrow> length (eachArr n) = nChildren n"
  by (simp add: eachArr_def arrInv_def)

lemma set_eachArr: "arrInv cap n \<Longrightarrow> set (eachArr n) = {(keys n ! i, children n ! i) | i. i < nChildren n}"
  by (force simp: eachArr_def arrInv_def in_set_conv_nth)

lemma findFrom_spec:
  "(case findFrom b ks i m of
      None \<Rightarrow> \<forall>j. i \<le> j \<and> j < i + m \<longrightarrow> ks ! j \<noteq> b
    | Some j \<Rightarrow> i \<le> j \<and> j < i + m \<and> ks ! j = b)"
proof (induction b ks i m rule: findFrom.induct)
  case (2 b ks i m)
  then show ?case
    by (auto split: option.splits) (metis Suc_leI add_Suc_shift le_neq_implies_less)+
qed auto

lemma findChild4_spec:
  "(case findChild4 n b of
      None \<Rightarrow> \<forall>j < nChildren n. keys n ! j \<noteq> b
    | Some j \<Rightarrow> j < nChildren n \<and> keys n ! j = b)"
  using findFrom_spec [where b = b and ks = "keys n" and i = 0 and m = "nChildren n"] by (simp add: findChild4_def split: option.splits)

lemma arr_search_spec:
  assumes "arrInv cap n"
  shows "sortSearch (nChildren n) (\<lambda>i. b \<le> keys n ! i) \<le> nChildren n" (is ?le)
    and "a < sortSearch (nChildren n) (\<lambda>i. b \<le> keys n ! i) \<Longrightarrow> keys n ! a < b" (is "?lt \<Longrightarrow> _")
    and "sortSearch (nChildren n) (\<lambda>i. b \<le> keys n ! i) \<le> a \<Longrightarrow> a < nChildren n \<Longrightarrow> b \<le> keys n ! a"
      (is "?ge \<Longrightarrow> _ \<Longrightarrow> _")
proof -
  have mono: "b \<le> keys n ! d" if "c \<le> d" "d < nChildren n" "b \<le> keys n ! c" for c d
    using that arrInv_nth_less [OF assms, of c d] by (cases "c = d") auto
  note s = sortSearch_spec [of "nChildren n" "\<lambda>i. b \<le> keys n ! i"]
  show ?le using s(1) mono by blast
  show "?lt \<Longrightarrow> keys n ! a < b" using s(2) [of a] mono by (meson not_le)
  show "?ge \<Longrightarrow> a < nChildren n \<Longrightarrow> b \<le> keys n ! a" using s(3) [of a] mono by blast
qed

lemma findChild16_spec:
  assumes "arrInv cap n"
  shows "(case findChild16 n b of
      None \<Rightarrow> \<forall>j < nChildren n. keys n ! j \<noteq> b
    | Some j \<Rightarrow> j < nChildren n \<and> keys n ! j = b)"
proof -
  define i where "i = sortSearch (nChildren n) (\<lambda>i. b \<le> keys n ! i)"
  note s = arr_search_spec [OF assms, where b = b, folded i_def]
  have "i = j" if j: "j < nChildren n" "keys n ! j = b" for j
  proof (rule ccontr)
    assume "i \<noteq> j"
    then consider "j < i" | "i < j" by linarith
    then show False
    proof cases
      case 1 then show False using s(2) [of j] j(2) by simp
    next
      case 2
      then have "keys n ! i < b" using arrInv_nth_less [OF assms 2 j(1)] j(2) by simp
      then show False using s(3) [of i] 2 j(1) by simp
    qed
  qed
  moreover have "findChild16 n b = (if i < nChildren n \<and> keys n ! i = b then Some i else None)"
    by (simp add: findChild16_def i_def Let_def)
  ultimately show ?thesis by auto
qed

text \<open>Any search that finds the right position makes the arrays a child table.\<close>

lemma arr_table:
  fixes fnd :: "'c nodeArr \<Rightarrow> byte \<Rightarrow> nat option"
  assumes "\<And>n b. arrInv cap n \<Longrightarrow>
     (case fnd n b of None \<Rightarrow> \<forall>j < nChildren n. keys n ! j \<noteq> b
      | Some j \<Rightarrow> j < nChildren n \<and> keys n ! j = b)"
  shows "child_table fnd getArr putArr eachArr nChildren (arrInv cap)"
proof
  fix t :: "'c nodeArr" and b i and c :: 'c
  assume inv: "arrInv cap t"
  show "sorted_wrt (<) (map fst (eachArr t))" using inv by (simp add: eachArr_keys) (simp add: arrInv_def)
  show "nChildren t = length (eachArr t)" using inv by (simp add: length_eachArr)
  show "(b, co) \<in> set (eachArr t) \<Longrightarrow> co \<noteq> None" for co
    using inv by (auto simp: set_eachArr [OF inv] arrInv_def)
  show "fnd t b = None \<Longrightarrow> b \<notin> fst ` set (eachArr t)"
    using assms [OF inv, of b] by (auto simp: set_eachArr [OF inv])
  show "fnd t b = Some i \<Longrightarrow> (b, getArr t i) \<in> set (eachArr t)"
    using assms [OF inv, of b] by (auto simp: set_eachArr [OF inv] getArr_def nthSlot_def) (use inv in \<open>simp add: arrInv_def\<close>)
  have "(children t)[i := Some c] ! j \<noteq> None" if "children t ! j \<noteq> None" "j < length (children t)" for j
    using that by (cases "i = j") auto
  then show inv': "arrInv cap (putArr t i c)" using inv by (simp add: arrInv_def putArr_def)
  assume "fnd t b = Some i"
  then have i: "i < nChildren t" "keys t ! i = b" using assms [OF inv, of b] by auto
  moreover have "i < length (children t)" using i inv by (simp add: arrInv_def)
  ultimately show "set (eachArr (putArr t i c)) = insert (b, Some c) {x \<in> set (eachArr t). fst x \<noteq> b}"
    using arr_keys_inj [OF inv] by (auto simp: set_eachArr [OF inv'] set_eachArr [OF inv]) (auto simp: putArr_def nth_list_update)
qed

interpretation t4: child_table findChild4 getArr putArr eachArr nChildren "arrInv 4"
  by (rule arr_table) (rule findChild4_spec)

interpretation t16: child_table findChild16 getArr putArr eachArr nChildren "arrInv 16"
  by (rule arr_table) (rule findChild16_spec)

text \<open>Insertion and removal on the arrays, through the lists of used entries.\<close>

lemma goCopy_insert:
  assumes "pos < length xs"
  shows "(goCopy xs (pos + 1) (drop pos xs))[pos := x] = take pos xs @ x # butlast (drop pos xs)"
proof -
  have "take (length xs - Suc pos) (drop pos xs) = butlast (drop pos xs)"
    by (simp add: butlast_conv_take)
  moreover have "take (Suc pos) xs = take pos xs @ [xs ! pos]"
    using assms by (rule take_Suc_conv_app_nth)
  ultimately show ?thesis using assms by (simp add: goCopy_def list_update_append)
qed

lemma insert_take:
  assumes "pos \<le> n" "n < length xs"
  shows "take (Suc n) (take pos xs @ x # butlast (drop pos xs)) =
    take pos (take n xs) @ x # drop pos (take n xs)"
proof -
  have "Suc n - pos = Suc (n - pos)" "min (n - pos) (length xs - Suc pos) = n - pos"
    "min pos n = pos" "take (Suc n) (take pos xs) = take pos xs"
    using assms by (auto simp: min_def)
  then show ?thesis using assms by (simp add: butlast_conv_take drop_take)
qed

lemma eachArr_zip:
  "arrInv cap n \<Longrightarrow> eachArr n = zip (take (nChildren n) (keys n)) (take (nChildren n) (children n))"
  by (intro nth_equalityI) (auto simp: eachArr_def arrInv_def)

lemma insertArr_spec:
  assumes inv: "arrInv cap n" and room: "nChildren n < cap" and new: "b \<notin> fst ` set (eachArr n)"
  shows "arrInv cap (insertArr n b c)" and "set (eachArr (insertArr n b c)) = insert (b, Some c) (set (eachArr n))"
    and "nChildren (insertArr n b c) = Suc (nChildren n)"
proof -
  define m where "m = nChildren n"
  define pos where "pos = sortSearch m (\<lambda>i. b \<le> keys n ! i)"
  define ks where "ks = take m (keys n)"
  define cs where "cs = take m (children n)"
  have len: "length (keys n) = cap" "length (children n) = cap" "m < cap"
    using inv room by (auto simp: arrInv_def m_def)
  note s = arr_search_spec [OF inv, where b = b, folded m_def, folded pos_def]
  have r: "insertArr n b c = NodeArr (Suc m) (take pos (keys n) @ b # butlast (drop pos (keys n)))
      (take pos (children n) @ Some c # butlast (drop pos (children n)))"
    using s(1) len goCopy_insert [of pos "keys n"] goCopy_insert [of pos "children n"]
    unfolding insertArr_def Let_def m_def [symmetric] pos_def [symmetric] by simp
  have lens: "length ks = m" "length cs = m" using len by (simp_all add: ks_def cs_def)
  have tk: "take (Suc m) (keys (insertArr n b c)) = take pos ks @ b # drop pos ks"
    "take (Suc m) (children (insertArr n b c)) = take pos cs @ Some c # drop pos cs"
    unfolding r ks_def cs_def nodeArr.sel using s(1) len by (simp_all only: insert_take)
  have low: "x < b" if "x \<in> set (take pos ks)" for x
    using that s(1,2) len by (auto simp: ks_def in_set_conv_nth)
  have high: "b < x" if x: "x \<in> set (drop pos ks)" for x
  proof -
    obtain k where "k < m - pos" "x = drop pos ks ! k"
      using x lens(1) by (auto simp: in_set_conv_nth)
    then obtain j where j: "pos \<le> j" "j < m" "x = keys n ! j"
      using that [of "pos + k"] lens(1) s(1) by (simp add: ks_def)
    have "keys n ! j \<noteq> b" using new j(2) by (force simp: set_eachArr [OF inv] m_def)
    then show ?thesis using s(3) [OF j(1,2)] j(3) by simp
  qed
  have sk: "sorted_wrt (<) ks" using inv by (simp add: arrInv_def ks_def m_def)
  then have sorted: "sorted_wrt (<) (take pos ks @ b # drop pos ks)"
    using low high sorted_wrt_append [of "(<)" "take pos ks" "drop pos ks"]
    by (auto simp: sorted_wrt_append)
  have some: "\<forall>x \<in> set cs. x \<noteq> None"
    using inv len by (auto simp: cs_def arrInv_def in_set_conv_nth m_def)
  have blen: "length (take pos xs @ x # butlast (drop pos xs)) = length xs" if "pos < length xs" for x and xs :: "'z list"
    using that by simp
  show nc: "nChildren (insertArr n b c) = Suc (nChildren n)" by (simp add: r m_def)
  show inv': "arrInv cap (insertArr n b c)"
  proof -
    have "children (insertArr n b c) ! i \<noteq> None" if "i < Suc m" for i
    proof -
      have "children (insertArr n b c) ! i = (take pos cs @ Some c # drop pos cs) ! i"
        using that tk(2) by (metis nth_take)
      moreover have "(take pos cs @ Some c # drop pos cs) ! i \<in> set (take pos cs @ Some c # drop pos cs)"
        using that lens s(1) by (intro nth_mem) simp
      ultimately show ?thesis using some by (auto dest: in_set_takeD in_set_dropD)
    qed
    then show ?thesis
      using sorted tk(1) len s(1) nc unfolding arrInv_def m_def by (simp add: r flip: m_def)
  qed
  have "eachArr (insertArr n b c) = zip (take pos ks @ b # drop pos ks) (take pos cs @ Some c # drop pos cs)"
    using eachArr_zip [OF inv'] tk nc by (simp add: m_def)
  also have "\<dots> = take pos (zip ks cs) @ (b, Some c) # drop pos (zip ks cs)"
    using lens by (simp add: take_zip drop_zip zip_append)
  finally have "set (eachArr (insertArr n b c)) =
      insert (b, Some c) (set (take pos (zip ks cs)) \<union> set (drop pos (zip ks cs)))" by simp
  moreover have "set (take pos (zip ks cs)) \<union> set (drop pos (zip ks cs)) = set (zip ks cs)"
    by (metis append_take_drop_id set_append)
  ultimately show "set (eachArr (insertArr n b c)) = insert (b, Some c) (set (eachArr n))"
    using eachArr_zip [OF inv] by (simp add: ks_def cs_def m_def)
qed

lemma distinct_split_fst:
  assumes "zs = xs @ p # ys" "fst p = k" "distinct (map fst zs)"
  shows "set xs \<union> set ys = {x \<in> set zs. fst x \<noteq> k}"
proof -
  have "k \<notin> fst ` set xs" "k \<notin> fst ` set ys" using assms by auto
  then show ?thesis using assms(1,2) by (auto simp: image_iff)
qed

lemma goCopy_remove:
  assumes "i < length xs"
  shows "goCopy xs i (drop (i + 1) xs) = take i xs @ drop (i + 1) xs @ [last xs]"
proof -
  have "drop (length xs - 1) xs = [last xs]" using assms by (cases xs rule: rev_cases) auto
  then show ?thesis using assms by (simp add: goCopy_def)
qed

lemma remove_take:
  assumes "i < n" "n \<le> length xs"
  shows "take (n - 1) (take i xs @ drop (i + 1) xs @ ys) = take i (take n xs) @ drop (i + 1) (take n xs)"
proof -
  have "min (n - 1) i = i" "n - 1 - i = n - (i + 1)" "n - 1 - i \<le> length xs - (i + 1)" using assms by auto
  then show ?thesis using assms by (simp add: drop_take)
qed

lemma arrInv_resize:
  assumes "arrInv cap n" "nChildren n = m" "m \<le> cap'" "length ks = cap'" "length cs = cap'"
    "take m ks = take m (keys n)" "take m cs = take m (children n)"
  shows "arrInv cap' (NodeArr m ks cs)" "eachArr (NodeArr m ks cs) = eachArr n"
proof -
  have "cs ! i = children n ! i" if "i < m" for i using that assms(7) by (metis nth_take)
  then show "arrInv cap' (NodeArr m ks cs)" using assms by (simp add: arrInv_def)
  show "eachArr (NodeArr m ks cs) = eachArr n" using assms by (simp add: eachArr_def take_zip)
qed

lemma removeAtArr_spec:
  assumes inv: "arrInv cap n" and i: "i < nChildren n"
  shows "arrInv cap (removeAtArr n i)"
    and "set (eachArr (removeAtArr n i)) = {x \<in> set (eachArr n). fst x \<noteq> keys n ! i}"
    and "nChildren (removeAtArr n i) = nChildren n - 1"
proof -
  define m where "m = nChildren n"
  define ks where "ks = take m (keys n)"
  define cs where "cs = take m (children n)"
  have len: "length (keys n) = cap" "length (children n) = cap" "m \<le> cap" "i < m"
    using inv i by (auto simp: arrInv_def m_def)
  have lens: "length ks = m" "length cs = m" using len by (simp_all add: ks_def cs_def)
  have r: "removeAtArr n i = NodeArr (m - 1) (take i (keys n) @ drop (i + 1) (keys n) @ [last (keys n)])
      ((take i (children n) @ drop (i + 1) (children n) @ [last (children n)])[m - 1 := None])"
    using len goCopy_remove [of i "keys n"] goCopy_remove [of i "children n"]
    unfolding removeAtArr_def m_def [symmetric] by simp
  have tk: "take (m - 1) (keys (removeAtArr n i)) = take i ks @ drop (i + 1) ks"
    "take (m - 1) (children (removeAtArr n i)) = take i cs @ drop (i + 1) cs"
    using len unfolding r nodeArr.sel ks_def cs_def
    by (simp_all only: remove_take take_update_cancel order_refl)
  show nc: "nChildren (removeAtArr n i) = nChildren n - 1" by (simp add: r m_def)
  have sk: "sorted_wrt (<) ks" using inv by (simp add: arrInv_def ks_def m_def)
  have sorted: "sorted_wrt (<) (take i ks @ drop (i + 1) ks)"
  proof -
    have "sorted_wrt (<) (take i ks @ drop i ks)" using sk by simp
    moreover have "drop i ks = ks ! i # drop (i + 1) ks" using lens len by (simp add: Cons_nth_drop_Suc)
    ultimately show ?thesis by (simp add: sorted_wrt_append)
  qed
  have some: "\<forall>x \<in> set cs. x \<noteq> None"
    using inv len by (auto simp: cs_def arrInv_def in_set_conv_nth m_def)
  show inv': "arrInv cap (removeAtArr n i)"
  proof -
    have "children (removeAtArr n i) ! j \<noteq> None" if "j < m - 1" for j
    proof -
      have "children (removeAtArr n i) ! j = (take i cs @ drop (i + 1) cs) ! j"
        using that tk(2) by (metis nth_take)
      moreover have "(take i cs @ drop (i + 1) cs) ! j \<in> set (take i cs @ drop (i + 1) cs)"
        using that lens len by (intro nth_mem) simp
      ultimately show ?thesis using some by (auto dest: in_set_takeD in_set_dropD)
    qed
    then show ?thesis
      using sorted tk(1) len nc unfolding arrInv_def m_def by (simp add: r flip: m_def)
  qed
  have "eachArr (removeAtArr n i) = zip (take i ks @ drop (i + 1) ks) (take i cs @ drop (i + 1) cs)"
    using eachArr_zip [OF inv'] tk nc by (simp add: m_def)
  also have "\<dots> = take i (zip ks cs) @ drop (i + 1) (zip ks cs)"
    using lens by (simp add: take_zip drop_zip zip_append)
  finally have "set (eachArr (removeAtArr n i)) = set (take i (eachArr n)) \<union> set (drop (i + 1) (eachArr n))"
    using eachArr_zip [OF inv] by (simp add: ks_def cs_def m_def)
  also have "\<dots> = {x \<in> set (eachArr n). fst x \<noteq> keys n ! i}"
  proof (rule distinct_split_fst)
    show "eachArr n = take i (eachArr n) @ eachArr n ! i # drop (i + 1) (eachArr n)"
      using id_take_nth_drop [of i "eachArr n"] i length_eachArr [OF inv] by simp
    show "fst (eachArr n ! i) = keys n ! i" using len by (simp add: eachArr_def m_def)
    show "distinct (map fst (eachArr n))"
      using sk by (simp add: eachArr_keys [OF inv] ks_def m_def strict_sorted_iff)
  qed
  finally show "set (eachArr (removeAtArr n i)) = {x \<in> set (eachArr n). fst x \<noteq> keys n ! i}" .
qed

section \<open>The indexed layouts\<close>

lemma unat_byte_lt [simp]: "unat (b :: byte) < 256"
  using unsigned_less [of b] by simp

lemma unat_of_nat_byte [simp]: "n < 256 \<Longrightarrow> unat (of_nat n :: byte) = n"
  by (simp add: unat_of_nat take_bit_nat_eq_self)

lemma nth_update_byte:
  "length xs = 256 \<Longrightarrow> xs[unat b := v] ! unat b' = (if b' = b then v else xs ! unat b')"
  for b b' :: byte
  by (auto simp: nth_list_update word_unat_eq_iff)

text \<open>A loop \<open>for i := 0; i < 256; i++\<close> with a test visits the bytes that pass it, in order.\<close>

lemma set_byte_loop:
  "set (map (\<lambda>i. (of_nat i :: byte, f i)) (filter P [0..<256])) = {(b, f (unat b)) | b. P (unat b)}"
proof -
  have "\<exists>i. i < 256 \<and> P i \<and> b = of_nat i \<and> f (unat b) = f i" if "P (unat b)" for b :: byte
    using that by (intro exI [of _ "unat b"]) simp
  then show ?thesis by (auto simp: image_iff)
qed

lemma sorted_byte_loop:
  "sorted_wrt (<) (map fst (map (\<lambda>i. (of_nat i :: byte, f i)) (filter P [0..<256])))"
proof -
  have "sorted_wrt (<) (filter P [0..<256])" by (rule sorted_wrt_filter) simp
  then have "sorted_wrt (\<lambda>i j. (of_nat i :: byte) < of_nat j) (filter P [0..<256])"
    by (rule sorted_wrt_mono_rel [rotated]) (auto simp: word_less_nat_alt)
  then show ?thesis by (simp add: sorted_wrt_map o_def)
qed

lemma length_byte_loop:
  "length (map (\<lambda>i. (of_nat i :: byte, f i)) (filter P [0..<256])) = card {b :: byte. P (unat b)}"
proof -
  let ?xs = "map (\<lambda>i. (of_nat i :: byte, f i)) (filter P [0..<256])"
  have "distinct (map fst ?xs)" using sorted_byte_loop [of f P] unfolding strict_sorted_iff by (rule conjunct2)
  then have "card (set (map fst ?xs)) = length (map fst ?xs)" by (rule distinct_card)
  then have "length ?xs = card (set (map fst ?xs))" by (simp only: length_map)
  also have "set (map fst ?xs) = fst ` {(b :: byte, f (unat b)) | b. P (unat b)}"
    unfolding set_byte_loop [of f P, symmetric] by (rule set_map)
  also have "\<dots> = {b. P (unat b)}" by (auto simp: image_iff)
  finally show ?thesis .
qed

definition inv48 :: "'c node48 \<Rightarrow> bool" where
  "inv48 n \<longleftrightarrow>
     length (index48 n) = 256 \<and> length (slots48 n) = 48 \<and>
     nChildren48 n = card {b :: byte. index48 n ! unat b \<noteq> 0} \<and>
     (\<forall>b :: byte. index48 n ! unat b \<noteq> 0 \<longrightarrow>
        unat (index48 n ! unat b) \<le> 48 \<and> slots48 n ! (unat (index48 n ! unat b) - 1) \<noteq> None) \<and>
     (\<forall>b b' :: byte. index48 n ! unat b \<noteq> 0 \<longrightarrow> index48 n ! unat b = index48 n ! unat b' \<longrightarrow> b = b') \<and>
     (\<forall>s < 48. slots48 n ! s \<noteq> None \<longrightarrow> (\<exists>b :: byte. unat (index48 n ! unat b) = s + 1))"

definition inv256 :: "'c node256 \<Rightarrow> bool" where
  "inv256 n \<longleftrightarrow> length (children256 n) = 256 \<and>
     nChildren256 n = card {b :: byte. children256 n ! unat b \<noteq> None}"

lemma inv48D:
  fixes b b' :: byte
  assumes "inv48 n"
  shows "length (index48 n) = 256" "length (slots48 n) = 48"
    "nChildren48 n = card {b :: byte. index48 n ! unat b \<noteq> 0}"
    "index48 n ! unat b \<noteq> 0 \<Longrightarrow> unat (index48 n ! unat b) \<le> 48"
    "index48 n ! unat b \<noteq> 0 \<Longrightarrow> slots48 n ! (unat (index48 n ! unat b) - 1) \<noteq> None"
    "index48 n ! unat b \<noteq> 0 \<Longrightarrow> index48 n ! unat b = index48 n ! unat b' \<Longrightarrow> b = b'"
    "s < 48 \<Longrightarrow> slots48 n ! s \<noteq> None \<Longrightarrow> \<exists>b :: byte. unat (index48 n ! unat b) = s + 1"
  using assms unfolding inv48_def by blast+

lemma inv48I:
  assumes "length ix = 256" "length ss = 48" "m = card {b :: byte. ix ! unat b \<noteq> 0}"
    and "\<And>b :: byte. ix ! unat b \<noteq> 0 \<Longrightarrow> unat (ix ! unat b) \<le> 48"
    and "\<And>b :: byte. ix ! unat b \<noteq> 0 \<Longrightarrow> ss ! (unat (ix ! unat b) - 1) \<noteq> None"
    and "\<And>b b' :: byte. ix ! unat b \<noteq> 0 \<Longrightarrow> ix ! unat b = ix ! unat b' \<Longrightarrow> b = b'"
    and "\<And>s. s < 48 \<Longrightarrow> ss ! s \<noteq> None \<Longrightarrow> \<exists>b :: byte. unat (ix ! unat b) = s + 1"
  shows "inv48 (Node48 m ix ss)"
  unfolding inv48_def node48.sel using assms by blast

text \<open>The slot of byte \<open>b\<close>, counted from 0.\<close>

abbreviation slotOf :: "'c node48 \<Rightarrow> byte \<Rightarrow> nat" where
  "slotOf n b \<equiv> unat (index48 n ! unat b) - 1"

lemma slotOf_lt: "inv48 n \<Longrightarrow> index48 n ! unat b \<noteq> 0 \<Longrightarrow> slotOf n b < 48"
  using inv48D(4) [of n b] by (simp add: unat_eq_zero flip: gr0_conv_Suc)

lemma slotOf_inj:
  assumes "inv48 n" "index48 n ! unat b \<noteq> 0" "index48 n ! unat b' \<noteq> 0" "slotOf n b = slotOf n b'"
  shows "b = b'"
proof -
  have "unat (index48 n ! unat b) \<noteq> 0" "unat (index48 n ! unat b') \<noteq> 0"
    using assms(2,3) by (simp_all add: unat_eq_zero)
  then have "unat (index48 n ! unat b) = unat (index48 n ! unat b')" using assms(4) by arith
  then show ?thesis using inv48D(6) [OF assms(1,2)] by (simp add: word_unat_eq_iff)
qed

lemma set_each48:
  assumes "inv48 n"
  shows "set (each48 n) = {(b, slots48 n ! slotOf n b) | b. index48 n ! unat b \<noteq> 0}"
  unfolding each48_def set_byte_loop
  using slotOf_lt [OF assms] inv48D(2) [OF assms] by (auto simp: get48_def nthSlot_def)

lemma set_each256:
  assumes "inv256 n"
  shows "set (each256 n) = {(b, children256 n ! unat b) | b. children256 n ! unat b \<noteq> None}"
  unfolding each256_def set_byte_loop using assms by (auto simp: get256_def nthSlot_def inv256_def)

lemma inv48_slots:
  assumes "inv48 n" "length ss = 48" "\<And>s. s < 48 \<Longrightarrow> ss ! s = None \<longleftrightarrow> slots48 n ! s = None"
  shows "inv48 (Node48 (nChildren48 n) (index48 n) ss)"
proof (rule inv48I)
  note D = inv48D [OF assms(1)]
  show "length (index48 n) = 256" "length ss = 48"
    "nChildren48 n = card {b :: byte. index48 n ! unat b \<noteq> 0}" by (fact D assms)+
  fix b b' :: byte
  show "index48 n ! unat b \<noteq> 0 \<Longrightarrow> index48 n ! unat b = index48 n ! unat b' \<Longrightarrow> b = b'" by (rule D(6))
  show "s < 48 \<Longrightarrow> ss ! s \<noteq> None \<Longrightarrow> \<exists>b :: byte. unat (index48 n ! unat b) = s + 1" for s
    using D(7) [of s] assms(3) [of s] by simp
  assume nz: "index48 n ! unat b \<noteq> 0"
  then show "unat (index48 n ! unat b) \<le> 48" by (rule D(4))
  show "ss ! slotOf n b \<noteq> None" using assms(3) [OF slotOf_lt [OF assms(1) nz]] D(5) [OF nz] by simp
qed

interpretation t48: child_table findChild48 get48 put48 each48 nChildren48 inv48
proof
  fix t :: "'c node48" and b i and c :: 'c
  assume inv: "inv48 t"
  note D = inv48D [OF inv]
  show "sorted_wrt (<) (map fst (each48 t))" unfolding each48_def by (rule sorted_byte_loop)
  show "nChildren48 t = length (each48 t)" unfolding each48_def length_byte_loop by (rule D(3))
  show "(b, co) \<in> set (each48 t) \<Longrightarrow> co \<noteq> None" for co
    using D(5) by (auto simp: set_each48 [OF inv])
  show "findChild48 t b = None \<Longrightarrow> b \<notin> fst ` set (each48 t)"
    by (auto simp: set_each48 [OF inv] findChild48_def Let_def split: if_splits)
  assume f: "findChild48 t b = Some i"
  then have i: "index48 t ! unat b \<noteq> 0" "i = slotOf t b" by (auto simp: findChild48_def Let_def split: if_splits)
  then have lt: "i < 48" using slotOf_lt [OF inv] by simp
  show "(b, get48 t i) \<in> set (each48 t)"
    using i lt D(2) by (auto simp: set_each48 [OF inv] get48_def nthSlot_def)
  show inv': "inv48 (put48 t i c)"
    unfolding put48_def using D(2) D(5) [OF i(1)] i lt by (intro inv48_slots inv) (auto simp: nth_list_update)
  show "set (each48 (put48 t i c)) = insert (b, Some c) {x \<in> set (each48 t). fst x \<noteq> b}"
    unfolding set_each48 [OF inv'] set_each48 [OF inv]
    using i lt D(2) slotOf_inj [OF inv] by (auto simp: put48_def nth_list_update)
qed

lemma graph_upd:
  "{(x, if x = b then Some c else f x) | x. (if x = b then Some c else f x) \<noteq> None} =
     insert (b, Some c) {x \<in> {(x, f x) | x. f x \<noteq> None}. fst x \<noteq> b}" (is "?L = ?R")
proof (intro set_eqI iffI)
  fix p assume "p \<in> ?L"
  then obtain x where "p = (x, if x = b then Some c else f x)" "(if x = b then Some c else f x) \<noteq> None" by blast
  then show "p \<in> ?R" by (cases "x = b") simp_all
next
  fix p assume "p \<in> ?R"
  then consider "p = (b, Some c)" | x where "p = (x, f x)" "f x \<noteq> None" "x \<noteq> b" by fastforce
  then show "p \<in> ?L" by cases simp_all
qed

lemma graph_del:
  "{(x, if x = b then None else f x) | x. (if x = b then None else f x) \<noteq> None} =
     {x \<in> {(x, f x) | x. f x \<noteq> None}. fst x \<noteq> b}" (is "?L = ?R")
proof (intro set_eqI iffI)
  fix p assume "p \<in> ?L"
  then obtain x where "p = (x, if x = b then None else f x)" "(if x = b then None else f x) \<noteq> None" by blast
  then show "p \<in> ?R" by (cases "x = b") simp_all
next
  fix p assume "p \<in> ?R"
  then obtain x where "p = (x, f x)" "f x \<noteq> None" "x \<noteq> b" by fastforce
  then show "p \<in> ?L" by simp
qed

interpretation t256: child_table findChild256 get256 put256 each256 nChildren256 inv256
proof
  fix t :: "'c node256" and b i and c :: 'c
  assume inv: "inv256 t"
  then have len: "length (children256 t) = 256" by (simp add: inv256_def)
  show "sorted_wrt (<) (map fst (each256 t))" unfolding each256_def by (rule sorted_byte_loop)
  show "nChildren256 t = length (each256 t)"
    unfolding each256_def length_byte_loop using inv by (simp add: inv256_def get256_def nthSlot_def)
  show "(b, co) \<in> set (each256 t) \<Longrightarrow> co \<noteq> None" for co by (auto simp: set_each256 [OF inv])
  show "findChild256 t b = None \<Longrightarrow> b \<notin> fst ` set (each256 t)"
    by (auto simp: set_each256 [OF inv] findChild256_def split: if_splits)
  assume f: "findChild256 t b = Some i"
  then have i: "children256 t ! unat b \<noteq> None" "i = unat b" by (auto simp: findChild256_def split: if_splits)
  show "(b, get256 t i) \<in> set (each256 t)"
    using i len by (auto simp: set_each256 [OF inv] get256_def nthSlot_def)
  show inv': "inv256 (put256 t i c)"
  proof -
    have "{b' :: byte. (children256 t)[unat b := Some c] ! unat b' \<noteq> None} = {b'. children256 t ! unat b' \<noteq> None}"
      using i(1) len by (auto simp: nth_update_byte)
    then show ?thesis using inv i(2) by (simp add: inv256_def put256_def)
  qed
  show "set (each256 (put256 t i c)) = insert (b, Some c) {x \<in> set (each256 t). fst x \<noteq> b}"
    unfolding set_each256 [OF inv'] set_each256 [OF inv]
    by (simp only: i(2) put256_def node256.sel nth_update_byte [OF len] graph_upd)
qed

section \<open>Insertion, growth, removal and shrinking\<close>

lemma free_slot48:
  assumes "inv48 n" "nChildren48 n < 48"
  shows "\<exists>s < 48. slots48 n ! s = None"
proof (rule ccontr)
  assume "\<not> (\<exists>s < 48. slots48 n ! s = None)"
  then have full: "\<And>s. s < 48 \<Longrightarrow> slots48 n ! s \<noteq> None" by simp
  have "s \<in> slotOf n ` {b. index48 n ! unat b \<noteq> 0}" if s: "s < 48" for s
  proof -
    obtain b :: byte where b: "unat (index48 n ! unat b) = s + 1"
      using inv48D(7) [OF assms(1) s full [OF s]] by blast
    then have "index48 n ! unat b \<noteq> 0" by auto
    then show ?thesis using b by force
  qed
  then have "{..<48} \<subseteq> slotOf n ` {b. index48 n ! unat b \<noteq> 0}" by blast
  then have "card {..<48 :: nat} \<le> card {b :: byte. index48 n ! unat b \<noteq> 0}"
    by (rule surj_card_le [rotated]) simp
  then show False using assms inv48D(3) [OF assms(1)] by simp
qed

lemma insertAt48_spec:
  assumes inv: "inv48 n" and room: "nChildren48 n < 48" and new: "b \<notin> fst ` set (each48 n)"
  shows "\<exists>n'. insertAt48 n b (Some c) = Inr n' \<and> inv48 n' \<and> nChildren48 n' = Suc (nChildren48 n) \<and>
    set (each48 n') = insert (b, Some c) (set (each48 n))"
proof -
  note D = inv48D [OF inv]
  define s where "s = length (takeWhile (\<lambda>x. x \<noteq> None) (slots48 n))"
  obtain s0 where s0: "s0 < 48" "slots48 n ! s0 = None" using free_slot48 [OF inv room] by blast
  have "s \<le> s0"
  proof (rule ccontr)
    assume "\<not> s \<le> s0"
    then have "takeWhile (\<lambda>x. x \<noteq> None) (slots48 n) ! s0 = None" "s0 < s" using s0 by (simp_all add: s_def takeWhile_nth)
    then have "None \<in> set (takeWhile (\<lambda>x. x \<noteq> None) (slots48 n))"
      using nth_mem [of s0 "takeWhile (\<lambda>x. x \<noteq> None) (slots48 n)"] by (simp add: s_def)
    then show False by (auto dest: set_takeWhileD)
  qed
  then have s: "s < 48" "slots48 n ! s = None"
    using s0 nth_length_takeWhile [of "\<lambda>x. x \<noteq> None" "slots48 n"] D(2) by (simp_all add: s_def)
  define v :: byte where "v = of_nat (s + 1)"
  define ix where "ix = (index48 n)[unat b := v]"
  define n' where "n' = Node48 (nChildren48 n + 1) ix ((slots48 n)[s := Some c])"
  have b0: "index48 n ! unat b = 0" using new by (force simp: set_each48 [OF inv])
  have us: "unat v = s + 1" unfolding v_def using s(1) by (intro unat_of_nat_byte) simp
  have ix: "ix ! unat x = (if x = b then v else index48 n ! unat x)" for x :: byte
    unfolding ix_def by (rule nth_update_byte [OF D(1)])
  have nz: "v \<noteq> 0" using us by auto
  have free: "index48 n ! unat x \<noteq> 0 \<Longrightarrow> slotOf n x \<noteq> s" for x :: byte using D(5) [of x] s(2) by auto
  have nodup: "index48 n ! unat x \<noteq> v" for x :: byte
    using free [of x] us nz by auto
  have dom: "{x :: byte. ix ! unat x \<noteq> 0} = insert b {x. index48 n ! unat x \<noteq> 0}"
    using nz by (auto simp: ix)
  have inv': "inv48 n'"
    unfolding n'_def
  proof (rule inv48I)
    show "length ix = 256" "length ((slots48 n)[s := Some c]) = 48" by (simp_all add: ix_def D)
    show "nChildren48 n + 1 = card {x :: byte. ix ! unat x \<noteq> 0}"
      unfolding dom D(3) using b0 by simp
    fix x y :: byte
    show "ix ! unat x \<noteq> 0 \<Longrightarrow> unat (ix ! unat x) \<le> 48" using D(4) us s(1) by (cases "x = b") (simp_all add: ix)
    show "ix ! unat x \<noteq> 0 \<Longrightarrow> (slots48 n)[s := Some c] ! (unat (ix ! unat x) - 1) \<noteq> None"
      using D(5) [of x] us s(1) free [of x] by (cases "x = b") (auto simp: ix D(2))
    show "ix ! unat x \<noteq> 0 \<Longrightarrow> ix ! unat x = ix ! unat y \<Longrightarrow> x = y"
      using D(6) nodup by (auto simp: ix split: if_splits)
    show "\<exists>x :: byte. unat (ix ! unat x) = t + 1" if t: "t < 48" "(slots48 n)[s := Some c] ! t \<noteq> None" for t
    proof (cases "t = s")
      case True
      then show ?thesis using us by (intro exI [of _ b]) (simp add: ix)
    next
      case False
      then obtain x :: byte where x: "unat (index48 n ! unat x) = t + 1" using D(7) [OF t(1)] t(2) by auto
      then have "x \<noteq> b" using b0 by auto
      then show ?thesis using x by (intro exI [of _ x]) (simp add: ix)
    qed
  qed
  have "insertAt48 n b (Some c) = Inr n'"
    using s(1) unfolding insertAt48_def Let_def n'_def ix_def v_def s_def [symmetric] by (simp only: if_True)
  moreover have "set (each48 n') = insert (b, Some c) (set (each48 n))"
  proof -
    have "slots48 n' ! slotOf n' x = (if x = b then Some c else slots48 n ! slotOf n x)"
      if "x = b \<or> index48 n ! unat x \<noteq> 0" for x
      using that us s(1) D(2) free [of x] by (auto simp: n'_def ix)
    moreover have "index48 n' ! unat x \<noteq> 0 \<longleftrightarrow> x = b \<or> index48 n ! unat x \<noteq> 0" for x :: byte
      using dom by (auto simp: n'_def)
    ultimately show ?thesis unfolding set_each48 [OF inv'] set_each48 [OF inv] using b0 by auto
  qed
  ultimately show ?thesis using inv' by (simp add: n'_def)
qed

lemma insertAll48_spec:
  assumes "inv48 n" "distinct (map fst xs)" "\<forall>x \<in> set xs. snd x \<noteq> None"
    "fst ` set xs \<inter> fst ` set (each48 n) = {}" "nChildren48 n + length xs \<le> 48"
  shows "\<exists>n'. insertAll48 n xs = Inr n' \<and> inv48 n' \<and> set (each48 n') = set xs \<union> set (each48 n)"
  using assms
proof (induction n xs rule: insertAll48.induct)
  case (2 n b co xs)
  obtain c where c: "co = Some c" using "2.prems"(3) by auto
  obtain n1 where n1: "insertAt48 n b co = Inr n1" "inv48 n1" "nChildren48 n1 = Suc (nChildren48 n)"
    "set (each48 n1) = insert (b, co) (set (each48 n))"
    using insertAt48_spec [OF "2.prems"(1), of b c] "2.prems"(4,5) c by auto
  have "\<exists>n'. insertAll48 n1 xs = Inr n' \<and> inv48 n' \<and> set (each48 n') = set xs \<union> set (each48 n1)"
    using n1 "2.prems" by (intro "2.IH") auto
  then show ?case using n1 by auto
qed simp

lemma newNode48_inv [simp]: "inv48 newNode48" "nChildren48 newNode48 = 0" "each48 newNode48 = []"
proof -
  have z: "replicate 256 (0 :: byte) ! unat b = 0" for b :: byte by simp
  show "inv48 newNode48" by (auto simp: newNode48_def inv48_def z)
  show "nChildren48 newNode48 = 0" by (simp add: newNode48_def)
  have "filter (\<lambda>i. index48 newNode48 ! i \<noteq> 0) [0..<256] = []"
    by (auto simp: newNode48_def filter_empty_conv)
  then show "each48 newNode48 = []" unfolding each48_def by simp
qed

lemma grow256_prefix:
  assumes "inv48 n" "k \<le> 256"
  defines "step \<equiv> \<lambda>m i. if index48 n ! i \<noteq> 0
      then Node256 (nChildren256 m + 1) ((children256 m)[i := get48 n (unat (index48 n ! i) - 1)]) else m"
  shows "let m = foldl step newNode256 [0..<k] in length (children256 m) = 256 \<and>
    nChildren256 m = card {i. i < k \<and> index48 n ! i \<noteq> 0} \<and>
    (\<forall>i < 256. children256 m ! i =
      (if i < k \<and> index48 n ! i \<noteq> 0 then get48 n (unat (index48 n ! i) - 1) else None))"
  using assms(2)
proof (induction k)
  case 0
  then show ?case by (simp add: newNode256_def)
next
  case (Suc k)
  define m where "m = foldl step newNode256 [0..<k]"
  have IH: "length (children256 m) = 256" "nChildren256 m = card {i. i < k \<and> index48 n ! i \<noteq> 0}"
    "\<And>i. i < 256 \<Longrightarrow> children256 m ! i =
      (if i < k \<and> index48 n ! i \<noteq> 0 then get48 n (unat (index48 n ! i) - 1) else None)"
    using Suc by (simp_all add: m_def Let_def)
  have st: "foldl step newNode256 [0..<Suc k] = step m k" by (simp add: m_def)
  have cd: "{i. i < Suc k \<and> index48 n ! i \<noteq> 0} =
      (if index48 n ! k \<noteq> 0 then insert k {i. i < k \<and> index48 n ! i \<noteq> 0} else {i. i < k \<and> index48 n ! i \<noteq> 0})"
    by (auto simp: less_Suc_eq)
  show ?case
    unfolding st cd Let_def using IH Suc.prems by (auto simp: step_def nth_list_update less_Suc_eq)
qed

lemma grow256_spec:
  assumes inv: "inv48 n"
  shows "inv256 (grow256 n)" "set (each256 (grow256 n)) = set (each48 n)"
proof -
  note D = inv48D [OF inv]
  let ?m = "grow256 n"
  have P: "length (children256 ?m) = 256" "nChildren256 ?m = card {i. i < 256 \<and> index48 n ! i \<noteq> 0}"
    and C: "\<And>i. i < 256 \<Longrightarrow> children256 ?m ! i =
      (if index48 n ! i \<noteq> 0 then get48 n (unat (index48 n ! i) - 1) else None)"
    using grow256_prefix [OF inv order_refl, unfolded Let_def, folded grow256_def] by simp_all
  have ch: "children256 ?m ! unat b = (if index48 n ! unat b \<noteq> 0 then slots48 n ! slotOf n b else None)" for b :: byte
    using C [of "unat b"] slotOf_lt [OF inv, of b] D(2) by (simp add: get48_def nthSlot_def)
  have dom: "children256 ?m ! unat b \<noteq> None \<longleftrightarrow> index48 n ! unat b \<noteq> 0" for b :: byte
    using D(5) by (simp add: ch)
  have "{i. i < 256 \<and> index48 n ! i \<noteq> 0} = unat ` {b :: byte. index48 n ! unat b \<noteq> 0}"
  proof (intro set_eqI iffI)
    fix i assume "i \<in> {i. i < 256 \<and> index48 n ! i \<noteq> 0}"
    then show "i \<in> unat ` {b :: byte. index48 n ! unat b \<noteq> 0}"
      by (intro image_eqI [of _ _ "of_nat i"]) simp_all
  qed auto
  moreover have "inj_on unat {b :: byte. index48 n ! unat b \<noteq> 0}"
    by (auto intro: inj_onI simp: word_unat_eq_iff)
  ultimately have "nChildren256 ?m = card {b :: byte. index48 n ! unat b \<noteq> 0}"
    using P(2) by (simp add: card_image)
  then show inv': "inv256 ?m" using P(1) unfolding inv256_def dom by simp
  show "set (each256 ?m) = set (each48 n)"
    unfolding set_each256 [OF inv'] set_each48 [OF inv] dom by (intro Collect_cong ex_cong1) (auto simp: ch)
qed

lemma addAll16_spec:
  assumes "arrInv 16 n" "distinct (map fst xs)" "\<forall>x \<in> set xs. snd x \<noteq> None"
    "fst ` set xs \<inter> fst ` set (eachArr n) = {}" "nChildren n + length xs \<le> 16"
  shows "arrInv 16 (addAll16 n xs) \<and> set (eachArr (addAll16 n xs)) = set xs \<union> set (eachArr n)"
  using assms
proof (induction n xs rule: addAll16.induct)
  case (2 n b co xs)
  obtain c where c: "co = Some c" using "2.prems"(3) by auto
  have "nChildren n < 16" "b \<notin> fst ` set (eachArr n)" using "2.prems"(4,5) by auto
  note i = insertArr_spec [OF "2.prems"(1) this, where c = c]
  have "arrInv 16 (addAll16 (insertArr n b c) xs) \<and>
      set (eachArr (addAll16 (insertArr n b c) xs)) = set xs \<union> set (eachArr (insertArr n b c))"
    using "2.IH"(2) [OF c] i \<open>nChildren n < 16\<close> "2.prems" by simp
  then show ?case using c i(2) \<open>nChildren n < 16\<close> by simp
qed simp

lemma newArr_inv [simp]: "arrInv cap (newArr cap)" "nChildren (newArr cap) = 0" "eachArr (newArr cap) = []"
  by (simp_all add: newArr_def arrInv_def eachArr_def)

section \<open>The contract of an inner node\<close>

fun nodeInv :: "'v node \<Rightarrow> bool" where
  "nodeInv (Leaf k v) = True"
| "nodeInv (N4 h n) = arrInv 4 n"
| "nodeInv (N16 h n) = arrInv 16 n"
| "nodeInv (N48 h n) = inv48 n"
| "nodeInv (N256 h n) = inv256 n"

interpretation node: child_table findChild slotGet slotPut forEach childCount nodeInv
proof
  fix t :: "'v node" and b i and c :: "'v node" and co :: "'v node option"
  assume inv: "nodeInv t"
  show "sorted_wrt (<) (map fst (forEach t))"
    using inv t4.each_sorted t16.each_sorted t48.each_sorted t256.each_sorted by (cases t) auto
  show "childCount t = length (forEach t)"
    using inv t4.each_count t16.each_count t48.each_count t256.each_count by (cases t) auto
  show "co \<noteq> None" if e: "(b, co) \<in> set (forEach t)"
  proof (cases t)
    case (N4 h n) then show ?thesis using inv e t4.each_some [of n b co] by simp
  next
    case (N16 h n) then show ?thesis using inv e t16.each_some [of n b co] by simp
  next
    case (N48 h n) then show ?thesis using inv e t48.each_some [of n b co] by simp
  next
    case (N256 h n) then show ?thesis using inv e t256.each_some [of n b co] by simp
  next
    case (Leaf k v) then show ?thesis using e by simp
  qed
  show "b \<notin> fst ` set (forEach t)" if e: "findChild t b = None"
  proof (cases t)
    case (N4 h n) then show ?thesis using inv e t4.find_none [of n b] by simp
  next
    case (N16 h n) then show ?thesis using inv e t16.find_none [of n b] by simp
  next
    case (N48 h n) then show ?thesis using inv e t48.find_none [of n b] by simp
  next
    case (N256 h n) then show ?thesis using inv e t256.find_none [of n b] by simp
  next
    case (Leaf k v) then show ?thesis using e by simp
  qed
  assume f: "findChild t b = Some i"
  show "(b, slotGet t i) \<in> set (forEach t)"
  proof (cases t)
    case (N4 h n) then show ?thesis using inv f t4.find_some [of n b i] by simp
  next
    case (N16 h n) then show ?thesis using inv f t16.find_some [of n b i] by simp
  next
    case (N48 h n) then show ?thesis using inv f t48.find_some [of n b i] by simp
  next
    case (N256 h n) then show ?thesis using inv f t256.find_some [of n b i] by simp
  next
    case (Leaf k v) then show ?thesis using f by simp
  qed
  show "nodeInv (slotPut t i c)"
  proof (cases t)
    case (N4 h n) then show ?thesis using inv f t4.put_inv [of n b i c] by simp
  next
    case (N16 h n) then show ?thesis using inv f t16.put_inv [of n b i c] by simp
  next
    case (N48 h n) then show ?thesis using inv f t48.put_inv [of n b i c] by simp
  next
    case (N256 h n) then show ?thesis using inv f t256.put_inv [of n b i c] by simp
  next
    case (Leaf k v) then show ?thesis using f by simp
  qed
  show "set (forEach (slotPut t i c)) = insert (b, Some c) {x \<in> set (forEach t). fst x \<noteq> b}"
  proof (cases t)
    case (N4 h n) then show ?thesis using inv f t4.put_each [of n b i c] by simp
  next
    case (N16 h n) then show ?thesis using inv f t16.put_each [of n b i c] by simp
  next
    case (N48 h n) then show ?thesis using inv f t48.put_each [of n b i c] by simp
  next
    case (N256 h n) then show ?thesis using inv f t256.put_each [of n b i c] by simp
  next
    case (Leaf k v) then show ?thesis using f by simp
  qed
qed

lemma each_distinct: "nodeInv n \<Longrightarrow> distinct (map fst (forEach n))"
  using node.each_sorted strict_sorted_iff by blast

lemma dom_each256: "inv256 m \<Longrightarrow> b \<in> fst ` set (each256 m) \<longleftrightarrow> children256 m ! unat b \<noteq> None"
  by (simp add: set_each256 image_iff)

lemma addChild256_spec:
  assumes inv: "inv256 m" and new: "b \<notin> fst ` set (each256 m)"
  shows "inv256 (addChild256 m b c)"
    and "set (each256 (addChild256 m b c)) = insert (b, Some c) (set (each256 m))"
proof -
  have len: "length (children256 m) = 256" using inv by (simp add: inv256_def)
  have b0: "children256 m ! unat b = None" using new dom_each256 [OF inv] by blast
  have "{b' :: byte. (children256 m)[unat b := Some c] ! unat b' \<noteq> None} =
      insert b {b'. children256 m ! unat b' \<noteq> None}"
    by (simp only: nth_update_byte [OF len]) auto
  then show inv': "inv256 (addChild256 m b c)"
    using inv b0 by (simp add: inv256_def addChild256_def)
  have "set (each256 (addChild256 m b c)) = insert (b, Some c) {x \<in> set (each256 m). fst x \<noteq> b}"
    unfolding set_each256 [OF inv'] set_each256 [OF inv]
    by (simp only: addChild256_def node256.sel nth_update_byte [OF len] graph_upd)
  moreover have "{x \<in> set (each256 m). fst x \<noteq> b} = set (each256 m)" using new by (auto simp: image_iff)
  ultimately show "set (each256 (addChild256 m b c)) = insert (b, Some c) (set (each256 m))" by simp
qed

lemma addChild48_spec:
  assumes inv: "inv48 n" and new: "b \<notin> fst ` set (each48 n)"
  shows "\<exists>n'. addChild48 h n b c = Inr n' \<and> nodeInv n' \<and> header n' = Some h \<and>
    set (forEach n') = insert (b, Some c) (set (each48 n))"
proof (cases "nChildren48 n < 48")
  case True
  then show ?thesis using insertAt48_spec [OF inv True new, of c] by (auto simp: addChild48_def)
next
  case False
  have "b \<notin> fst ` set (each256 (grow256 n))" using new grow256_spec(2) [OF inv] by simp
  then show ?thesis
    using False addChild256_spec [OF grow256_spec(1) [OF inv]] grow256_spec(2) [OF inv]
    by (simp add: addChild48_def)
qed

lemma addChild16_spec:
  assumes inv: "arrInv 16 n" and new: "b \<notin> fst ` set (eachArr n)"
  shows "\<exists>n'. addChild16 h n b c = Inr n' \<and> nodeInv n' \<and> header n' = Some h \<and>
    set (forEach n') = insert (b, Some c) (set (eachArr n))"
proof (cases "nChildren n < 16")
  case True
  then show ?thesis using insertArr_spec [OF inv True new] by (simp add: addChild16_def)
next
  case False
  have "length (eachArr n) \<le> 16" using t16.each_count [OF inv] inv by (simp add: arrInv_def)
  moreover have "distinct (map fst (eachArr n))" using t16.each_sorted [OF inv] strict_sorted_iff by blast
  moreover have "\<forall>x \<in> set (eachArr n). snd x \<noteq> None" using t16.each_some [OF inv] by (metis prod.collapse)
  ultimately obtain m where m: "insertAll48 newNode48 (eachArr n) = Inr m" "inv48 m" "set (each48 m) = set (eachArr n)"
    using insertAll48_spec [of newNode48 "eachArr n"] by auto
  then show ?thesis using False addChild48_spec [OF m(2)] new by (simp add: addChild16_def)
qed

lemma addChild4_spec:
  assumes inv: "arrInv 4 n" and new: "b \<notin> fst ` set (eachArr n)"
  shows "\<exists>n'. addChild4 h n b c = Inr n' \<and> nodeInv n' \<and> header n' = Some h \<and>
    set (forEach n') = insert (b, Some c) (set (eachArr n))"
proof (cases "nChildren n < 4")
  case True
  then show ?thesis using insertArr_spec [OF inv True new] by (simp add: addChild4_def)
next
  case False
  let ?m = "NodeArr (nChildren n) (goCopy (keys (newArr 16 :: 'a node nodeArr)) 0 (keys n))
                    (goCopy (children (newArr 16)) 0 (children n))"
  have "arrInv 16 ?m" "eachArr ?m = eachArr n"
    by (rule arrInv_resize [OF inv refl], use inv in \<open>simp_all add: arrInv_def goCopy_def newArr_def\<close>)+
  then show ?thesis using False addChild16_spec [of ?m b h c] new by (simp add: addChild4_def Let_def)
qed

lemma addChild_spec:
  assumes "nodeInv n" "header n = Some h" "b \<notin> fst ` set (forEach n)"
  shows "\<exists>n'. addChild n b c = Inr n' \<and> nodeInv n' \<and> header n' = Some h \<and>
    set (forEach n') = insert (b, Some c) (set (forEach n))"
  using assms addChild4_spec addChild16_spec addChild48_spec
  by (cases n) (simp_all add: addChild256_spec)

lemma removeFound_spec:
  assumes inv: "arrInv cap n"
    and fnd: "case fnd of None \<Rightarrow> \<forall>j < nChildren n. keys n ! j \<noteq> b
      | Some j \<Rightarrow> j < nChildren n \<and> keys n ! j = b"
  defines "n' \<equiv> (case fnd of None \<Rightarrow> n | Some i \<Rightarrow> removeAtArr n i)"
  shows "arrInv cap n' \<and> set (eachArr n') = {x \<in> set (eachArr n). fst x \<noteq> b}"
proof (cases fnd)
  case None
  then have "\<forall>x \<in> set (eachArr n). fst x \<noteq> b" using fnd by (auto simp: set_eachArr [OF inv])
  then show ?thesis using None inv by (auto simp: n'_def)
next
  case (Some i)
  then show ?thesis using fnd removeAtArr_spec [OF inv, of i] by (simp add: n'_def)
qed

lemma removeChild4_spec:
  assumes inv: "arrInv 4 n"
  shows "nodeInv (removeChild4 h n b) \<and> header (removeChild4 h n b) = Some h \<and>
    set (forEach (removeChild4 h n b)) = {x \<in> set (eachArr n). fst x \<noteq> b}"
  using removeFound_spec [OF inv findChild4_spec [of n b]]
  by (cases "findChild4 n b") (simp_all add: removeChild4_def)

lemma removeChild16_spec:
  assumes inv: "arrInv 16 n"
  shows "nodeInv (removeChild16 h n b) \<and> header (removeChild16 h n b) = Some h \<and>
    set (forEach (removeChild16 h n b)) = {x \<in> set (eachArr n). fst x \<noteq> b}"
proof -
  define n' where "n' = (case findChild16 n b of None \<Rightarrow> n | Some i \<Rightarrow> removeAtArr n i)"
  have n': "arrInv 16 n'" "set (eachArr n') = {x \<in> set (eachArr n). fst x \<noteq> b}"
    unfolding n'_def using removeFound_spec [OF inv findChild16_spec [OF inv]] by blast+
  show ?thesis
  proof (cases "nChildren n' \<le> 4")
    case True
    let ?m = "NodeArr (nChildren n')
        (goCopy (keys (newArr 4 :: 'a node nodeArr)) 0 (take (nChildren n') (keys n')))
        (goCopy (children (newArr 4)) 0 (take (nChildren n') (children n')))"
    have "arrInv 4 ?m" "eachArr ?m = eachArr n'"
      by (rule arrInv_resize [OF n'(1) refl], use n'(1) True in \<open>simp_all add: arrInv_def goCopy_def newArr_def\<close>)+
    then show ?thesis using True n'(2) unfolding removeChild16_def Let_def n'_def [symmetric] by simp
  next
    case False
    then show ?thesis using n' unfolding removeChild16_def Let_def n'_def [symmetric] by simp
  qed
qed

lemma remove48_spec:
  assumes inv: "inv48 n" and nz: "index48 n ! unat b \<noteq> 0"
  defines "n' \<equiv> Node48 (nChildren48 n - 1) ((index48 n)[unat b := 0]) ((slots48 n)[slotOf n b := None])"
  shows "inv48 n'" "set (each48 n') = {x \<in> set (each48 n). fst x \<noteq> b}"
proof -
  note D = inv48D [OF inv]
  define ix where "ix = (index48 n)[unat b := 0]"
  have ix: "ix ! unat x = (if x = b then 0 else index48 n ! unat x)" for x :: byte
    unfolding ix_def by (rule nth_update_byte [OF D(1)])
  have dom: "ix ! unat x \<noteq> 0 \<longleftrightarrow> x \<noteq> b \<and> index48 n ! unat x \<noteq> 0" for x :: byte by (simp add: ix)
  have other: "(slots48 n)[slotOf n b := None] ! slotOf n x = slots48 n ! slotOf n x"
    if "x \<noteq> b" "index48 n ! unat x \<noteq> 0" for x
  proof -
    have "slotOf n b \<noteq> slotOf n x" using slotOf_inj [OF inv nz that(2)] that(1) by blast
    then show ?thesis by (rule nth_list_update_neq)
  qed
  show inv': "inv48 n'"
    unfolding n'_def ix_def [symmetric]
  proof (rule inv48I)
    show "length ix = 256" "length ((slots48 n)[slotOf n b := None]) = 48" by (simp_all add: ix_def D)
    have "{x :: byte. ix ! unat x \<noteq> 0} = {x. index48 n ! unat x \<noteq> 0} - {b}" unfolding dom by auto
    then show "nChildren48 n - 1 = card {x :: byte. ix ! unat x \<noteq> 0}" using D(3) nz by simp
    fix x y :: byte
    show "ix ! unat x \<noteq> 0 \<Longrightarrow> unat (ix ! unat x) \<le> 48" using D(4) [of x] by (cases "x = b") (simp_all add: ix)
    show "ix ! unat x \<noteq> 0 \<Longrightarrow> (slots48 n)[slotOf n b := None] ! (unat (ix ! unat x) - 1) \<noteq> None"
      using D(5) [of x] other [of x] by (cases "x = b") (simp_all add: ix)
    show "ix ! unat x \<noteq> 0 \<Longrightarrow> ix ! unat x = ix ! unat y \<Longrightarrow> x = y"
      using D(6) [of x y] by (cases "x = b"; cases "y = b") (simp_all add: ix)
    show "\<exists>x :: byte. unat (ix ! unat x) = t + 1"
      if t: "t < 48" "(slots48 n)[slotOf n b := None] ! t \<noteq> None" for t
    proof -
      have "t \<noteq> slotOf n b" using t D(2) by auto
      then obtain x :: byte where x: "unat (index48 n ! unat x) = t + 1" using D(7) [OF t(1)] t(2) by auto
      then have "x \<noteq> b" using \<open>t \<noteq> slotOf n b\<close> by auto
      then show ?thesis using x by (intro exI [of _ x]) (simp add: ix)
    qed
  qed
  have "(\<exists>x. p = (x, slots48 n' ! slotOf n' x) \<and> index48 n' ! unat x \<noteq> 0) \<longleftrightarrow>
      (\<exists>x. p = (x, slots48 n ! slotOf n x) \<and> index48 n ! unat x \<noteq> 0) \<and> fst p \<noteq> b" for p
    unfolding n'_def node48.sel ix_def [symmetric] dom using other by (auto simp: ix)
  then show "set (each48 n') = {x \<in> set (each48 n). fst x \<noteq> b}"
    unfolding set_each48 [OF inv'] set_each48 [OF inv] by simp
qed

lemma removeChild48_spec:
  assumes inv: "inv48 n"
  shows "nodeInv (removeChild48 h n b) \<and> header (removeChild48 h n b) = Some h \<and>
    set (forEach (removeChild48 h n b)) = {x \<in> set (each48 n). fst x \<noteq> b}"
proof (cases "index48 n ! unat b = 0")
  case True
  then have "\<forall>x \<in> set (each48 n). fst x \<noteq> b" by (auto simp: set_each48 [OF inv])
  then show ?thesis using True inv by (auto simp: removeChild48_def)
next
  case False
  define n' where "n' = Node48 (nChildren48 n - 1) ((index48 n)[unat b := 0]) ((slots48 n)[slotOf n b := None])"
  have n': "inv48 n'" "set (each48 n') = {x \<in> set (each48 n). fst x \<noteq> b}"
    using remove48_spec [OF inv False] by (simp_all add: n'_def)
  have r: "removeChild48 h n b =
      (if nChildren48 n' \<le> 16 then N16 h (addAll16 (newArr 16) (each48 n')) else N48 h n')"
    using False by (simp add: removeChild48_def Let_def n'_def)
  show ?thesis
  proof (cases "nChildren48 n' \<le> 16")
    case True
    have "distinct (map fst (each48 n'))" using t48.each_sorted [OF n'(1)] strict_sorted_iff by blast
    moreover have "\<forall>x \<in> set (each48 n'). snd x \<noteq> None" using t48.each_some [OF n'(1)] by (metis prod.collapse)
    ultimately show ?thesis
      using addAll16_spec [of "newArr 16" "each48 n'"] True t48.each_count [OF n'(1)] n'(2) by (simp add: r)
  next
    case False
    then show ?thesis using n' by (simp add: r)
  qed
qed

lemma removeChild256_spec:
  assumes inv: "inv256 n"
  shows "\<exists>n'. removeChild256 h n b = Inr n' \<and> nodeInv n' \<and> header n' = Some h \<and>
    set (forEach n') = {x \<in> set (each256 n). fst x \<noteq> b}"
proof -
  define n' where "n' = (if children256 n ! unat b \<noteq> None
                then Node256 (nChildren256 n - 1) ((children256 n)[unat b := None]) else n)"
  have len: "length (children256 n) = 256" using inv by (simp add: inv256_def)
  have ch: "children256 n' ! unat x = (if x = b then None else children256 n ! unat x)" for x :: byte
    by (simp add: n'_def nth_update_byte [OF len])
  have "{x :: byte. children256 n' ! unat x \<noteq> None} = {x. children256 n ! unat x \<noteq> None} - {b}"
    by (auto simp: ch)
  then have inv': "inv256 n'"
    using inv len by (auto simp: inv256_def n'_def)
  have each': "set (each256 n') = {x \<in> set (each256 n). fst x \<noteq> b}"
    unfolding set_each256 [OF inv'] set_each256 [OF inv] by (simp only: ch graph_del)
  show ?thesis
  proof (cases "nChildren256 n' \<le> 48")
    case True
    have "distinct (map fst (each256 n'))" using t256.each_sorted [OF inv'] strict_sorted_iff by blast
    moreover have "\<forall>x \<in> set (each256 n'). snd x \<noteq> None" using t256.each_some [OF inv'] by (metis prod.collapse)
    ultimately obtain m where "insertAll48 newNode48 (each256 n') = Inr m" "inv48 m" "set (each48 m) = set (each256 n')"
      using insertAll48_spec [of newNode48 "each256 n'"] t256.each_count [OF inv'] True by auto
    then show ?thesis using True each' unfolding removeChild256_def Let_def n'_def [symmetric] by simp
  next
    case False
    then show ?thesis using inv' each' unfolding removeChild256_def Let_def n'_def [symmetric] by simp
  qed
qed

lemma removeChild_spec:
  assumes "nodeInv n" "header n = Some h"
  shows "\<exists>n'. removeChild n b = Inr n' \<and> nodeInv n' \<and> header n' = Some h \<and>
    set (forEach n') = {x \<in> set (forEach n). fst x \<noteq> b}"
  using assms removeChild4_spec removeChild16_spec removeChild48_spec removeChild256_spec
  by (cases n) simp_all

lemma header_slotPut [simp]: "header (slotPut n i c) = header n"
  by (cases n) simp_all

lemma setHeader_simps [simp]:
  "forEach (setHeader h n) = forEach n" "nodeInv (setHeader h n) = nodeInv n"
  "header n \<noteq> None \<Longrightarrow> header (setHeader h n) = Some h" "header (setHeader h n) = None \<longleftrightarrow> header n = None"
  by (cases n; simp)+

text \<open>Children are smaller than their node, so every walk down the tree terminates.\<close>

lemma size_slot: "Some c \<in> set cs \<Longrightarrow> size c < size_list (size_option size) cs"
  by (induction cs) auto

lemma nthSlot_mem: "nthSlot cs i = Some c \<Longrightarrow> Some c \<in> set cs"
  by (auto simp: nthSlot_def split: if_splits) (metis nth_mem)

lemma slotGet_size: "slotGet n i = Some c \<Longrightarrow> size c < size n"
proof (cases n)
  case (N4 h a)
  assume "slotGet n i = Some c"
  then show ?thesis using N4 size_slot [OF nthSlot_mem] by (cases a) (fastforce simp: getArr_def)
next
  case (N16 h a)
  assume "slotGet n i = Some c"
  then show ?thesis using N16 size_slot [OF nthSlot_mem] by (cases a) (fastforce simp: getArr_def)
next
  case (N48 h a)
  assume "slotGet n i = Some c"
  then show ?thesis using N48 size_slot [OF nthSlot_mem] by (cases a) (fastforce simp: get48_def)
next
  case (N256 h a)
  assume "slotGet n i = Some c"
  then show ?thesis using N256 size_slot [OF nthSlot_mem] by (cases a) (fastforce simp: get256_def)
qed simp

lemma mem_nthSlot: "Some c \<in> set cs \<Longrightarrow> \<exists>i. nthSlot cs i = Some c"
  by (auto simp: nthSlot_def in_set_conv_nth)

lemma forEach_slotGet: "(b, Some c) \<in> set (forEach n) \<Longrightarrow> \<exists>i. slotGet n i = Some c"
proof (cases n)
  case (N4 h a)
  assume "(b, Some c) \<in> set (forEach n)"
  then have "Some c \<in> set (children a)" using N4 by (auto simp: eachArr_def dest: in_set_takeD set_zip_rightD)
  then show ?thesis using N4 mem_nthSlot by (simp add: getArr_def)
next
  case (N16 h a)
  assume "(b, Some c) \<in> set (forEach n)"
  then have "Some c \<in> set (children a)" using N16 by (auto simp: eachArr_def dest: in_set_takeD set_zip_rightD)
  then show ?thesis using N16 mem_nthSlot by (simp add: getArr_def)
next
  case (N48 h a)
  assume "(b, Some c) \<in> set (forEach n)"
  then show ?thesis using N48 by (auto simp: each48_def)
next
  case (N256 h a)
  assume "(b, Some c) \<in> set (forEach n)"
  then show ?thesis using N256 by (auto simp: each256_def)
qed simp

lemma forEach_size: "(b, Some c) \<in> set (forEach n) \<Longrightarrow> size c < size n"
  using forEach_slotGet slotGet_size by blast

end
