(* ===== verification/Kora_Art.thy ===== *)
theory Kora_Art
  imports Kora_Art_Node
begin

text \<open>
  The adaptive radix tree (\<open>internal/art/tree.go\<close>, with \<open>prefixMatch\<close> of \<open>node.go\<close>), the
  memtable of the store. The operations are total functions returning \<open>Inl Panic\<close> where the
  Go code panics. They implement a finite map, iterated in key order, as long as every key
  has at most \<open>maxPrefixLen\<close> bytes and none of them is 0 (\<open>keyOk\<close>); both bounds are needed,
  and the last section shows what happens beyond them.
\<close>

section \<open>Operations\<close>

record 'v Tree =
  root :: "'v node option"
  treeSize :: int

definition emptyTree :: "'v Tree" where
  "emptyTree = \<lparr>root = None, treeSize = 0\<rparr>"

definition Len :: "'v Tree \<Rightarrow> int" where
  "Len t = treeSize t"

text \<open>The loops that count equal bytes of two slices from the left.\<close>

fun commonLen :: "bytes \<Rightarrow> bytes \<Rightarrow> nat" where
  "commonLen (x # xs) (y # ys) = (if x = y then Suc (commonLen xs ys) else 0)"
| "commonLen _ _ = 0"

definition prefixMatch :: "artHeader \<Rightarrow> bytes \<Rightarrow> nat \<Rightarrow> nat" where
  "prefixMatch h key depth =
     (let limit = (if prefixLen h > maxPrefixLen then maxPrefixLen else prefixLen h)
      in commonLen (take limit (prefix h)) (drop depth key))"

definition matchPrefix :: "artHeader \<Rightarrow> bytes \<Rightarrow> nat \<Rightarrow> nat" where
  "matchPrefix h key depth = prefixMatch h key depth"

definition sharedPrefix :: "bytes \<Rightarrow> bytes \<Rightarrow> nat \<Rightarrow> nat" where
  "sharedPrefix a b depth = commonLen (drop depth a) (drop depth b)"

text \<open>The byte under which a key is filed: its byte at \<open>d\<close>, or the terminator 0.\<close>

definition branch :: "bytes \<Rightarrow> nat \<Rightarrow> byte" where
  "branch k d = (if d \<ge> length k then 0 else k ! d)"

text \<open>\<open>addLeafToNode\<close> ignores what \<open>addChild\<close> returns; a full node stays as it is.\<close>

definition addLeafToNode :: "'v node nodeArr \<Rightarrow> bytes \<Rightarrow> 'v \<Rightarrow> nat \<Rightarrow> 'v node nodeArr" where
  "addLeafToNode n4 k v advance =
     (if nChildren n4 < 4 then insertArr n4 (branch k advance) (Leaf k v) else n4)"

text \<open>
  The two-leaf case of \<open>insertNode\<close>. The slice \<open>existing.key[depth:depth+prefLen]\<close> is out of
  range when it ends behind the key (taking a slice's capacity to be its length).
\<close>

definition twoLeaves :: "bytes \<Rightarrow> 'v \<Rightarrow> bytes \<Rightarrow> 'v \<Rightarrow> nat \<Rightarrow> err + 'v node" where
  "twoLeaves ek ev k v depth =
     (let full = sharedPrefix ek k depth;
          prefLen = (if full > maxPrefixLen then maxPrefixLen else full);
          advance = depth + full
      in if depth + prefLen > length ek then Inl Panic
         else
           let h = \<lparr>prefixLen = full,
                    prefix = goCopy (prefix zeroHeader) 0 (take prefLen (drop depth ek))\<rparr>;
               n4 = addLeafToNode (newArr 4) ek ev advance
           in Inr (N4 h (addLeafToNode n4 k v advance)))"

definition splitNode :: "'v node \<Rightarrow> artHeader \<Rightarrow> bytes \<Rightarrow> 'v \<Rightarrow> nat \<Rightarrow> nat \<Rightarrow> err + 'v node" where
  "splitNode n h k v depth m0 =
     (let m = (if m0 > maxPrefixLen then maxPrefixLen else m0)
      in if m \<ge> maxPrefixLen then Inl Panic
         else
           let h4 = \<lparr>prefixLen = m0, prefix = goCopy (prefix zeroHeader) 0 (take m (prefix h))\<rparr>;
               splitByte = prefix h ! m;
               len' = prefixLen h - (m0 + 1);
               shift = (if m0 + 1 > maxPrefixLen then maxPrefixLen else m0 + 1);
               h' = (if len' > 0
                     then \<lparr>prefixLen = len', prefix = goCopy (prefix h) 0 (drop shift (prefix h))\<rparr>
                     else h\<lparr>prefixLen := len'\<rparr>);
               n4 = NodeArr 1 ((keys (newArr 4 :: 'v node nodeArr))[0 := splitByte])
                      ((children (newArr 4))[0 := Some (setHeader h' n)])
           in Inr (N4 h4 (addLeafToNode n4 k v (depth + m0))))"

function insertNode :: "'v node \<Rightarrow> bytes \<Rightarrow> 'v \<Rightarrow> nat \<Rightarrow> err + 'v node \<times> bool" where
  "insertNode n key v depth =
     (case header n of
        None \<Rightarrow>
          if leafKey n = key then Inr (Leaf (leafKey n) v, False)
          else (case twoLeaves (leafKey n) (leafValue n) key v depth of
                  Inl e \<Rightarrow> Inl e | Inr n' \<Rightarrow> Inr (n', True))
      | Some h \<Rightarrow>
          if prefixLen h > 0 \<and> matchPrefix h key depth < prefixLen h
          then (case splitNode n h key v depth (matchPrefix h key depth) of
                  Inl e \<Rightarrow> Inl e | Inr n' \<Rightarrow> Inr (n', True))
          else
            let d = depth + prefixLen h; b = branch key d
            in case findChild n b of
                 None \<Rightarrow> (case addChild n b (Leaf key v) of
                            Inl e \<Rightarrow> Inl e | Inr n' \<Rightarrow> Inr (n', True))
               | Some i \<Rightarrow>
                   (case slotGet n i of
                      None \<Rightarrow> Inl Panic
                    | Some c \<Rightarrow>
                        (case insertNode c key v (if d \<ge> length key then d else d + 1) of
                           Inl e \<Rightarrow> Inl e
                         | Inr (c', grown) \<Rightarrow>
                             Inr (slotPut n i c', if d \<ge> length key then False else grown))))"
  by pat_completeness auto
termination
  by (relation "measure (\<lambda>(n, _). size n)") (auto dest: slotGet_size)

definition Insert :: "'v Tree \<Rightarrow> bytes \<Rightarrow> 'v \<Rightarrow> err + 'v Tree" where
  "Insert t key v =
     (case root t of
        None \<Rightarrow> Inr \<lparr>root = Some (Leaf key v), treeSize = treeSize t + 1\<rparr>
      | Some n \<Rightarrow>
          (case insertNode n key v 0 of
             Inl e \<Rightarrow> Inl e
           | Inr (n', grown) \<Rightarrow>
               Inr \<lparr>root = Some n', treeSize = treeSize t + (if grown then 1 else 0)\<rparr>))"

text \<open>The loop of \<open>Get\<close>.\<close>

function getNode :: "'v node \<Rightarrow> bytes \<Rightarrow> nat \<Rightarrow> 'v option" where
  "getNode n key depth =
     (case header n of
        None \<Rightarrow> if leafKey n = key then Some (leafValue n) else None
      | Some h \<Rightarrow>
          if prefixLen h > 0 \<and> prefixMatch h key depth < prefixLen h then None
          else
            let d = depth + prefixLen h
            in case findChild n (branch key d) of
                 None \<Rightarrow> None
               | Some i \<Rightarrow>
                   (case slotGet n i of
                      None \<Rightarrow> None
                    | Some c \<Rightarrow> getNode c key (if d \<ge> length key then d else d + 1)))"
  by pat_completeness auto
termination
  by (relation "measure (\<lambda>(n, _). size n)") (auto dest: slotGet_size)

definition Get :: "'v Tree \<Rightarrow> bytes \<Rightarrow> 'v option" where
  "Get t key = (case root t of None \<Rightarrow> None | Some n \<Rightarrow> getNode n key 0)"

definition collapseIfSingle :: "'v node \<Rightarrow> 'v node" where
  "collapseIfSingle n =
     (if childCount n \<noteq> 1 then n
      else case last ((0, None) # forEach n) of
             (_, Some (Leaf k v)) \<Rightarrow> Leaf k v
           | _ \<Rightarrow> n)"

function deleteNode :: "'v node option \<Rightarrow> bytes \<Rightarrow> nat \<Rightarrow> err + 'v node option \<times> bool" where
  "deleteNode no key depth =
     (case no of
        None \<Rightarrow> Inr (None, False)
      | Some n \<Rightarrow>
          (case header n of
             None \<Rightarrow> if leafKey n = key then Inr (None, True) else Inr (Some n, False)
           | Some h \<Rightarrow>
               if prefixLen h > 0 \<and> matchPrefix h key depth < prefixLen h then Inr (Some n, False)
               else
                 let d = depth + prefixLen h; b = branch key d
                 in case findChild n b of
                      None \<Rightarrow> Inr (Some n, False)
                    | Some i \<Rightarrow>
                        (case deleteNode (slotGet n i) key (if d \<ge> length key then d else d + 1) of
                           Inl e \<Rightarrow> Inl e
                         | Inr (newChild, deleted) \<Rightarrow>
                             if \<not> deleted then Inr (Some n, False)
                             else (case newChild of
                                     None \<Rightarrow>
                                       (case removeChild n b of
                                          Inl e \<Rightarrow> Inl e
                                        | Inr n' \<Rightarrow> Inr (Some (collapseIfSingle n'), True))
                                   | Some c \<Rightarrow>
                                       Inr (Some (collapseIfSingle (slotPut n i c)), True)))))"
  by pat_completeness auto
termination
  by (relation "measure (\<lambda>(no, _). case no of None \<Rightarrow> 0 | Some n \<Rightarrow> Suc (size n))")
    (auto dest: slotGet_size split: option.splits)

definition Delete :: "'v Tree \<Rightarrow> bytes \<Rightarrow> err + 'v Tree \<times> bool" where
  "Delete t key =
     (case root t of
        None \<Rightarrow> Inr (t, False)
      | Some n \<Rightarrow>
          (case deleteNode (Some n) key 0 of
             Inl e \<Rightarrow> Inl e
           | Inr (r, deleted) \<Rightarrow>
               Inr (\<lparr>root = r, treeSize = treeSize t - (if deleted then 1 else 0)\<rparr>, deleted)))"

function collectLeaves :: "'v node \<Rightarrow> (bytes \<times> 'v) list" where
  "collectLeaves n =
     (case header n of
        None \<Rightarrow> [(leafKey n, leafValue n)]
      | Some _ \<Rightarrow> concat (map (\<lambda>(_, co). case co of None \<Rightarrow> [] | Some c \<Rightarrow> collectLeaves c) (forEach n)))"
  by pat_completeness auto
termination
  by (relation "measure size") (auto dest: forEach_size)

text \<open>\<open>Iterator\<close>: the leaves collected up front, then yielded one by one.\<close>

definition Iterator :: "'v Tree \<Rightarrow> (bytes \<times> 'v) list" where
  "Iterator t = (case root t of None \<Rightarrow> [] | Some n \<Rightarrow> collectLeaves n)"

declare insertNode.simps [simp del] getNode.simps [simp del] deleteNode.simps [simp del]
  collectLeaves.simps [simp del]

section \<open>Well-formed trees\<close>

definition keyOk :: "bytes \<Rightarrow> bool" where
  "keyOk k \<longleftrightarrow> 0 \<notin> set k \<and> length k \<le> maxPrefixLen"

abbreviation starts :: "bytes \<Rightarrow> bytes \<Rightarrow> bool" where
  "starts p k \<equiv> take (length p) k = p"

definition stored :: "artHeader \<Rightarrow> bytes" where
  "stored h = take (prefixLen h) (prefix h)"

text \<open>
  \<open>wf p n\<close>: the subtree \<open>n\<close> hangs under the path \<open>p\<close>. Every key below starts with the path,
  the compressed prefix is stored completely, byte 0 holds the key that ends here, every
  other byte a subtree for the path extended by it.
\<close>

inductive wf :: "bytes \<Rightarrow> 'v node \<Rightarrow> bool" where
  wf_leaf: "starts p k \<Longrightarrow> keyOk k \<Longrightarrow> wf p (Leaf k v)"
| wf_inner: "nodeInv n \<Longrightarrow> header n = Some h \<Longrightarrow> prefixLen h \<le> maxPrefixLen \<Longrightarrow>
    length (prefix h) = maxPrefixLen \<Longrightarrow> 0 \<notin> set (stored h) \<Longrightarrow>
    (\<forall>b c. (b, Some c) \<in> set (forEach n) \<longrightarrow>
       (b = 0 \<longrightarrow> (\<exists>v. c = Leaf (p @ stored h) v \<and> keyOk (p @ stored h))) \<and>
       (b \<noteq> 0 \<longrightarrow> wf (p @ stored h @ [b]) c)) \<Longrightarrow>
    wf p n"

inductive_cases wf_leafE: "wf p (Leaf k v)"

lemma wf_innerD:
  assumes "wf p n" "header n = Some h"
  shows "nodeInv n" "prefixLen h \<le> maxPrefixLen" "length (prefix h) = maxPrefixLen"
    "length (stored h) = prefixLen h" "0 \<notin> set (stored h)"
    "(0, Some c) \<in> set (forEach n) \<Longrightarrow> \<exists>v. c = Leaf (p @ stored h) v \<and> keyOk (p @ stored h)"
    "(b, Some c) \<in> set (forEach n) \<Longrightarrow> b \<noteq> 0 \<Longrightarrow> wf (p @ stored h @ [b]) c"
  using assms by (cases rule: wf.cases; force simp: stored_def)+

abbreviation leaves :: "'v node \<Rightarrow> (bytes \<times> 'v) set" where
  "leaves n \<equiv> set (collectLeaves n)"

lemma leaves_Leaf [simp]: "collectLeaves (Leaf k v) = [(k, v)]"
  by (subst collectLeaves.simps) simp

lemma leaves_inner:
  "header n = Some h \<Longrightarrow> leaves n = {x. \<exists>b c. (b, Some c) \<in> set (forEach n) \<and> x \<in> leaves c}"
  by (subst collectLeaves.simps) (fastforce split: option.splits)

lemma starts_append: "starts (p @ q) k \<Longrightarrow> starts p k"
  by (metis append_eq_append_conv_if append_take_drop_id length_append take_take min.absorb1 le_add1 append_eq_conv_conj)

lemma starts_snoc: "starts (q @ [b]) k \<longleftrightarrow> starts q k \<and> length q < length k \<and> k ! length q = b"
proof (cases "length q < length k")
  case True
  then show ?thesis by (simp add: take_Suc_conv_app_nth)
next
  case False
  then show ?thesis by (auto dest: arg_cong [of _ _ length])
qed

lemma wf_leaves:
  "wf p n \<Longrightarrow> (k, v) \<in> leaves n \<Longrightarrow> starts p k \<and> keyOk k"
proof (induction p n arbitrary: k v rule: wf.induct)
  case (wf_inner n h p)
  then obtain b c where c: "(b, Some c) \<in> set (forEach n)" "(k, v) \<in> leaves c"
    using leaves_inner by blast
  show ?case
  proof (cases "b = 0")
    case True
    then obtain w where "c = Leaf (p @ stored h) w" "keyOk (p @ stored h)" using wf_inner.IH c(1) by blast
    then show ?thesis using c(2) by simp
  next
    case False
    then have "starts (p @ stored h @ [b]) k \<and> keyOk k" using wf_inner.IH c by blast
    then show ?thesis using starts_append by blast
  qed
qed auto

text \<open>The child under byte \<open>b\<close> holds exactly the keys that branch to \<open>b\<close>.\<close>

lemma wf_child:
  assumes wf: "wf p n" "header n = Some h" and c: "(b, Some c) \<in> set (forEach n)" "(k, v) \<in> leaves c"
  shows "starts (p @ stored h) k" "branch k (length (p @ stored h)) = b" "b = 0 \<Longrightarrow> k = p @ stored h"
proof -
  have *: "starts (p @ stored h) k \<and> branch k (length (p @ stored h)) = b \<and> (b = 0 \<longrightarrow> k = p @ stored h)"
  proof (cases "b = 0")
    case True
    then obtain w where "c = Leaf (p @ stored h) w" using wf_innerD(6) [OF wf] c(1) by blast
    then show ?thesis using c(2) True by (simp add: branch_def)
  next
    case False
    then have "wf (p @ stored h @ [b]) c" using wf_innerD(7) [OF wf] c(1) by blast
    from wf_leaves [OF this c(2)] have "starts ((p @ stored h) @ [b]) k" by simp
    then show ?thesis using False unfolding starts_snoc by (simp add: branch_def)
  qed
  then show "starts (p @ stored h) k" "branch k (length (p @ stored h)) = b" "b = 0 \<Longrightarrow> k = p @ stored h"
    by blast+
qed

text \<open>Looking for a key below an inner node is looking for it in one child.\<close>

lemma leaves_branch:
  assumes wf: "wf p n" "header n = Some h"
  shows "(key, v) \<in> leaves n \<longleftrightarrow> starts (p @ stored h) key \<and>
    (\<exists>c. (branch key (length (p @ stored h)), Some c) \<in> set (forEach n) \<and> (key, v) \<in> leaves c)"
  unfolding leaves_inner [OF wf(2)] using wf_child [OF wf] by blast

lemma commonLen_le: "commonLen xs ys \<le> length xs" "commonLen xs ys \<le> length ys"
  by (induction xs ys rule: commonLen.induct) auto

lemma commonLen_full: "commonLen xs ys = length xs \<longleftrightarrow> starts xs ys"
  by (induction xs ys rule: commonLen.induct) auto

lemma commonLen_take: "take (commonLen xs ys) xs = take (commonLen xs ys) ys"
  by (induction xs ys rule: commonLen.induct) auto

lemma commonLen_diff:
  "commonLen xs ys < length xs \<Longrightarrow> commonLen xs ys < length ys \<Longrightarrow>
     xs ! commonLen xs ys \<noteq> ys ! commonLen xs ys"
  by (induction xs ys rule: commonLen.induct) auto

lemma starts_drop: "starts p k \<Longrightarrow> starts q (drop (length p) k) \<longleftrightarrow> starts (p @ q) k"
  by (metis append_eq_conv_conj append_take_drop_id length_append same_append_eq take_add)

lemma prefixMatch_stored:
  assumes "prefixLen h \<le> maxPrefixLen" "length (prefix h) = maxPrefixLen"
  shows "prefixMatch h key d = commonLen (stored h) (drop d key)"
  using assms by (simp add: prefixMatch_def stored_def Let_def)

lemma prefixMatch_ok:
  assumes "wf p n" "header n = Some h" "starts p key"
  shows "prefixLen h > 0 \<and> prefixMatch h key (length p) < prefixLen h \<longleftrightarrow> \<not> starts (p @ stored h) key"
proof -
  note h = wf_innerD(2-4) [OF assms(1,2)]
  have "prefixMatch h key (length p) \<le> length (stored h)"
    unfolding prefixMatch_stored [OF h(1,2)] by (rule commonLen_le)
  moreover have "prefixMatch h key (length p) = length (stored h) \<longleftrightarrow> starts (p @ stored h) key"
    unfolding prefixMatch_stored [OF h(1,2)] commonLen_full starts_drop [OF assms(3)] ..
  ultimately show ?thesis using h(3) by linarith
qed

section \<open>Lookup\<close>

lemma child_lookup:
  assumes "wf p n" "header n = Some h"
  shows "findChild n b = None \<Longrightarrow> (b, Some c) \<notin> set (forEach n)"
    and "findChild n b = Some i \<Longrightarrow> \<exists>c. slotGet n i = Some c \<and> (b, Some c) \<in> set (forEach n)"
    and "(b, Some c) \<in> set (forEach n) \<Longrightarrow> (b, Some d) \<in> set (forEach n) \<Longrightarrow> c = d"
  using node.find_none [OF wf_innerD(1) [OF assms], of b] node.find_get [OF wf_innerD(1) [OF assms], of b i]
    node.each_unique [OF wf_innerD(1) [OF assms], of b "Some c" "Some d"] by force+

text \<open>Descending to a child: either the key ends here, or the path grows by one byte.\<close>

lemma branch_descend:
  assumes "starts q key"
  shows "length q \<ge> length key \<and> key = q \<and> branch key (length q) = 0 \<or>
    length q < length key \<and> starts (q @ [branch key (length q)]) key"
proof (cases "length q \<ge> length key")
  case True
  then have "key = q" using assms by simp
  then show ?thesis by (simp add: branch_def)
next
  case False
  then show ?thesis using assms unfolding starts_snoc by (simp add: branch_def)
qed

lemma getNode_Leaf [simp]: "getNode (Leaf k v) key d = (if k = key then Some v else None)"
  by (subst getNode.simps) simp

lemma getNode_inner:
  assumes wf: "wf p n" "header n = Some h" and key: "starts p key"
  shows "getNode n key (length p) =
    (if starts (p @ stored h) key then
       (case findChild n (branch key (length (p @ stored h))) of
          None \<Rightarrow> None
        | Some i \<Rightarrow> (case slotGet n i of None \<Rightarrow> None
                     | Some c \<Rightarrow> getNode c key (if length key \<le> length (p @ stored h) then length (p @ stored h)
                                             else length (p @ stored h) + 1)))
     else None)"
proof -
  have d: "length (p @ stored h) = length p + prefixLen h" using wf_innerD(4) [OF wf] by simp
  show ?thesis
    using prefixMatch_ok [OF wf key] unfolding d by (subst getNode.simps) (simp add: wf(2) Let_def)
qed

lemma getNode_spec:
  "wf p n \<Longrightarrow> starts p key \<Longrightarrow> getNode n key (length p) = Some v \<longleftrightarrow> (key, v) \<in> leaves n"
proof (induction p n arbitrary: key rule: wf.induct)
  case (wf_inner n h p)
  have wf: "wf p n" using wf_inner.hyps wf_inner.IH by (intro wf.wf_inner) auto
  define q where "q = p @ stored h"
  define b where "b = branch key (length q)"
  note g = getNode_inner [OF wf wf_inner.hyps(2) wf_inner.prems, folded q_def, folded b_def]
  note l = leaves_branch [OF wf wf_inner.hyps(2), of key v, folded q_def, folded b_def]
  show ?case
  proof (cases "starts q key")
    case q: True
    show ?thesis
    proof (cases "findChild n b")
      case None
      then show ?thesis using g l q child_lookup(1) [OF wf wf_inner.hyps(2)] by auto
    next
      case (Some i)
      then obtain c where c: "slotGet n i = Some c" "(b, Some c) \<in> set (forEach n)"
        using child_lookup(2) [OF wf wf_inner.hyps(2)] by blast
      have "getNode c key (if length key \<le> length q then length q else length q + 1) = Some v \<longleftrightarrow> (key, v) \<in> leaves c"
      proof (cases "b = 0")
        case True
        then obtain w where "c = Leaf (p @ stored h) w" using wf_innerD(6) [OF wf wf_inner.hyps(2)] c(2) by blast
        then show ?thesis by auto
      next
        case False
        then have "length q < length key" "starts (p @ stored h @ [b]) key"
          using branch_descend [OF q] by (auto simp: b_def q_def)
        then show ?thesis using wf_inner.IH c(2) False by (auto simp: q_def)
      qed
      then show ?thesis using g l q Some c child_lookup(3) [OF wf wf_inner.hyps(2)] by auto
    qed
  next
    case False
    then show ?thesis using g l by simp
  qed
qed auto

section \<open>Insertion\<close>

lemma keyOk_zero: "keyOk k \<Longrightarrow> branch k d = 0 \<longleftrightarrow> length k \<le> d"
  by (auto simp: keyOk_def branch_def) (metis not_le nth_mem)

lemma stored_goCopy:
  assumes "length xs \<le> maxPrefixLen" "m = length xs"
  shows "stored \<lparr>prefixLen = m, prefix = goCopy (prefix zeroHeader) 0 xs\<rparr> = xs"
    and "length (goCopy (prefix zeroHeader) 0 xs) = maxPrefixLen"
  using assms by (simp_all add: stored_def goCopy_def zeroHeader_def)

lemma addLeafToNode_spec:
  assumes "arrInv 4 a" "nChildren a < 4" "branch k d \<notin> fst ` set (eachArr a)"
  shows "arrInv 4 (addLeafToNode a k v d)" "nChildren (addLeafToNode a k v d) = Suc (nChildren a)"
    and "set (eachArr (addLeafToNode a k v d)) = insert (branch k d, Some (Leaf k v)) (set (eachArr a))"
  using insertArr_spec [OF assms] assms(2) by (simp_all add: addLeafToNode_def)

lemma wf_new_leaf:
  assumes "starts q k" "keyOk k" "b = branch k (length q)"
  shows "b = 0 \<longrightarrow> k = q" and "b \<noteq> 0 \<longrightarrow> wf (q @ [b]) (Leaf k v)"
proof -
  have "b = 0 \<and> k = q \<or> b \<noteq> 0 \<and> starts (q @ [b]) k"
    using branch_descend [OF assms(1)] keyOk_zero [OF assms(2), of "length q"] assms(3) by auto
  then show "b = 0 \<longrightarrow> k = q" and "b \<noteq> 0 \<longrightarrow> wf (q @ [b]) (Leaf k v)" using assms(2) by (auto intro: wf_leaf)
qed

text \<open>Where two different keys part.\<close>

lemma sharedPrefix_spec:
  assumes a: "starts p a" "keyOk a" and b: "starts p b" "keyOk b" and ne: "a \<noteq> b"
  defines "m \<equiv> sharedPrefix a b (length p)"
  defines "x \<equiv> take m (drop (length p) a)"
  shows "length x = m" "m \<le> maxPrefixLen" "length p + m \<le> length a"
    "starts (p @ x) a" "starts (p @ x) b" "branch a (length p + m) \<noteq> branch b (length p + m)"
proof -
  have m: "m \<le> length (drop (length p) a)" "m \<le> length (drop (length p) b)"
    unfolding m_def sharedPrefix_def by (rule commonLen_le)+
  show lx: "length x = m" using m by (simp add: x_def)
  show "m \<le> maxPrefixLen" using m(1) a(2) unfolding keyOk_def length_drop by linarith
  have "length p \<le> length a" using arg_cong [OF a(1), of length] by simp
  then show le: "length p + m \<le> length a" using m(1) by simp
  have "x = take m (drop (length p) b)"
    unfolding x_def m_def sharedPrefix_def by (rule commonLen_take)
  then show qa: "starts (p @ x) a" and qb: "starts (p @ x) b"
    using starts_drop [OF a(1), of x] starts_drop [OF b(1), of x] lx by (auto simp: x_def)
  show "branch a (length p + m) \<noteq> branch b (length p + m)"
  proof
    assume eq: "branch a (length p + m) = branch b (length p + m)"
    show False
    proof (cases "length a \<le> length p + m \<or> length b \<le> length p + m")
      case True
      then have "length a \<le> length p + m" "length b \<le> length p + m"
        using eq keyOk_zero [OF a(2), of "length p + m"] keyOk_zero [OF b(2), of "length p + m"] by auto
      then show False using qa qb ne lx by simp
    next
      case False
      then have "m < length (drop (length p) a)" "m < length (drop (length p) b)" by (simp_all, linarith+)
      then have "drop (length p) a ! m \<noteq> drop (length p) b ! m"
        unfolding m_def sharedPrefix_def by (rule commonLen_diff)
      then show False using eq False by (simp add: branch_def)
    qed
  qed
qed

text \<open>A node whose entries are two fresh subtrees under different bytes.\<close>

lemma wf_inner_two:
  assumes "arrInv 4 a" "set (eachArr a) = {(b1, Some c1), (b2, Some c2)}"
    and "stored h = x" "length (prefix h) = maxPrefixLen" "prefixLen h \<le> maxPrefixLen" "0 \<notin> set x"
    and "\<And>b c. (b, c) \<in> {(b1, c1), (b2, c2)} \<Longrightarrow>
       (b = 0 \<longrightarrow> (\<exists>v. c = Leaf (p @ x) v \<and> keyOk (p @ x))) \<and> (b \<noteq> 0 \<longrightarrow> wf (p @ x @ [b]) c)"
  shows "wf p (N4 h a)" "leaves (N4 h a) = leaves c1 \<union> leaves c2"
proof -
  show "wf p (N4 h a)" by (rule wf_inner [where h = h]) (use assms in auto)
  show "leaves (N4 h a) = leaves c1 \<union> leaves c2" using assms(2) by (auto simp: leaves_inner [of _ h])
qed

lemma twoLeaves_spec:
  assumes ek: "starts p ek" "keyOk ek" and k: "starts p k" "keyOk k" and ne: "ek \<noteq> k"
  shows "\<exists>n'. twoLeaves ek ev k v (length p) = Inr n' \<and> wf p n' \<and> leaves n' = {(ek, ev), (k, v)}"
proof -
  define m where "m = sharedPrefix ek k (length p)"
  define x where "x = take m (drop (length p) ek)"
  note sp = sharedPrefix_spec [OF ek k ne, folded m_def, folded x_def]
  define h where "h = \<lparr>prefixLen = m, prefix = goCopy (prefix zeroHeader) 0 x\<rparr>"
  define a1 where "a1 = addLeafToNode (newArr 4) ek ev (length p + m)"
  define a2 where "a2 = addLeafToNode a1 k v (length p + m)"
  have a1: "arrInv 4 a1" "nChildren a1 = 1" "set (eachArr a1) = {(branch ek (length p + m), Some (Leaf ek ev))}"
    using addLeafToNode_spec [of "newArr 4" ek "length p + m"] by (simp_all add: a1_def)
  have a2: "arrInv 4 a2" "set (eachArr a2) =
      {(branch k (length p + m), Some (Leaf k v)), (branch ek (length p + m), Some (Leaf ek ev))}"
    using addLeafToNode_spec [of a1 k "length p + m" v] a1 sp(6) by (simp_all add: a2_def)
  have r: "twoLeaves ek ev k v (length p) = Inr (N4 h a2)"
    using sp(2,3) by (simp add: twoLeaves_def Let_def h_def a1_def a2_def x_def flip: m_def)
  have hs: "stored h = x" "length (prefix h) = maxPrefixLen" "prefixLen h \<le> maxPrefixLen"
    unfolding h_def using stored_goCopy [OF sp(2) [folded sp(1)] sp(1) [symmetric]] sp(2) by simp_all
  have lq: "length p + m = length (p @ x)" using sp(1) by simp
  have nz: "0 \<notin> set x" using ek(2) by (auto simp: x_def keyOk_def dest: in_set_takeD in_set_dropD)
  have "(b = 0 \<longrightarrow> (\<exists>v. c = Leaf (p @ x) v \<and> keyOk (p @ x))) \<and> (b \<noteq> 0 \<longrightarrow> wf (p @ x @ [b]) c)"
    if "(b, c) \<in> {(branch k (length p + m), Leaf k v), (branch ek (length p + m), Leaf ek ev)}" for b c
    using that wf_new_leaf(1) [OF sp(4) ek(2), of b] wf_new_leaf(1) [OF sp(5) k(2), of b]
      wf_new_leaf(2) [OF sp(4) ek(2), of b ev] wf_new_leaf(2) [OF sp(5) k(2), of b v] ek(2) k(2)
    unfolding lq by auto
  from wf_inner_two [OF a2 hs nz this] show ?thesis using r by auto
qed

lemma wf_setHeader:
  assumes wf: "wf p n" "header n = Some h" and "p' @ stored h' = p @ stored h" "0 \<notin> set (stored h')"
    and "prefixLen h' \<le> maxPrefixLen" "length (prefix h') = maxPrefixLen"
  shows "wf p' (setHeader h' n)"
proof (rule wf_inner [where h = h'])
  have e: "p' @ stored h' @ [b] = p @ stored h @ [b]" for b using assms(3) by (metis append.assoc)
  show "\<forall>b c. (b, Some c) \<in> set (forEach (setHeader h' n)) \<longrightarrow>
     (b = 0 \<longrightarrow> (\<exists>v. c = Leaf (p' @ stored h') v \<and> keyOk (p' @ stored h'))) \<and>
     (b \<noteq> 0 \<longrightarrow> wf (p' @ stored h' @ [b]) c)"
    unfolding e assms(3) using wf_innerD(6,7) [OF wf] by auto
qed (use assms wf_innerD(1) [OF wf] in simp_all)

lemma leaves_setHeader: "collectLeaves (setHeader h' n) = collectLeaves n"
  by (cases n) (simp_all add: collectLeaves.simps)

lemma splitHeader:
  assumes "prefixLen h \<le> maxPrefixLen" "length (prefix h) = maxPrefixLen" "m < prefixLen h"
  defines "h' \<equiv> (if prefixLen h - (m + 1) > 0
      then \<lparr>prefixLen = prefixLen h - (m + 1), prefix = goCopy (prefix h) 0 (drop (m + 1) (prefix h))\<rparr>
      else h\<lparr>prefixLen := prefixLen h - (m + 1)\<rparr>)"
  shows "stored h = take m (prefix h) @ (prefix h ! m) # stored h'"
    "prefixLen h' \<le> maxPrefixLen" "length (prefix h') = maxPrefixLen"
proof -
  have "stored h = take m (stored h) @ stored h ! m # drop (m + 1) (stored h)"
    using assms(1-3) id_take_nth_drop [of m "stored h"] by (simp add: stored_def)
  moreover have "take m (stored h) = take m (prefix h)" "stored h ! m = prefix h ! m"
    using assms(1-3) by (simp_all add: stored_def)
  moreover have "stored h' = drop (m + 1) (stored h)"
    using assms(1-3) by (simp add: h'_def stored_def goCopy_def drop_take)
  ultimately show "stored h = take m (prefix h) @ (prefix h ! m) # stored h'" by simp
  show "prefixLen h' \<le> maxPrefixLen" using assms(1) by (auto simp: h'_def)
  show "length (prefix h') = maxPrefixLen" using assms(1-3) by (simp add: h'_def goCopy_def)
qed

lemma splitNode_spec:
  assumes wf: "wf p n" "header n = Some h" and k: "starts p k" "keyOk k"
    and part: "\<not> starts (p @ stored h) k"
  shows "\<exists>n'. splitNode n h k v (length p) (matchPrefix h k (length p)) = Inr n' \<and> wf p n' \<and>
    leaves n' = insert (k, v) (leaves n)"
proof -
  note D = wf_innerD(2-5) [OF wf]
  define m where "m = matchPrefix h k (length p)"
  define x where "x = take m (prefix h)"
  have m: "m < prefixLen h" using prefixMatch_ok [OF wf k(1)] part by (simp add: m_def matchPrefix_def)
  define h' where "h' = (if prefixLen h - (m + 1) > 0
      then \<lparr>prefixLen = prefixLen h - (m + 1), prefix = goCopy (prefix h) 0 (drop (m + 1) (prefix h))\<rparr>
      else h\<lparr>prefixLen := prefixLen h - (m + 1)\<rparr>)"
  note sh = splitHeader [OF D(1,2) m, folded h'_def, folded x_def]
  define b where "b = prefix h ! m"
  define h4 where "h4 = \<lparr>prefixLen = m, prefix = goCopy (prefix zeroHeader) 0 x\<rparr>"
  define a1 :: "'a node nodeArr" where "a1 = NodeArr 1 ((keys (newArr 4 :: 'a node nodeArr))[0 := b])
      ((children (newArr 4))[0 := Some (setHeader h' n)])"
  define a2 where "a2 = addLeafToNode a1 k v (length p + m)"
  have lx: "length x = m" using m D(1,2) by (simp add: x_def)
  have nz: "0 \<notin> set x" "b \<noteq> 0" "0 \<notin> set (stored h')" using D(4) sh(1) by (auto simp: b_def)
  have cm: "m = commonLen (stored h) (drop (length p) k)"
    unfolding m_def matchPrefix_def by (rule prefixMatch_stored [OF D(1,2)])
  have "take m (stored h) = take m (drop (length p) k)" unfolding cm by (rule commonLen_take)
  then have "x = take m (drop (length p) k)" using sh(1) lx by simp
  then have q: "starts (p @ x) k" using starts_drop [OF k(1), of x] lx by simp
  have br: "branch k (length p + m) \<noteq> b"
  proof (cases "length k \<le> length p + m")
    case True
    then show ?thesis using nz(2) by (simp add: branch_def)
  next
    case False
    then have "stored h ! m \<noteq> drop (length p) k ! m"
      using commonLen_diff [of "stored h" "drop (length p) k"] m D(3) by (simp flip: cm)
    then show ?thesis using False sh(1) lx by (simp add: branch_def b_def nth_append)
  qed
  have a1: "arrInv 4 a1" "nChildren a1 = 1" "set (eachArr a1) = {(b, Some (setHeader h' n))}"
    by (simp_all add: a1_def newArr_def arrInv_def eachArr_def numeral_eq_Suc)
  have a2: "arrInv 4 a2"
    "set (eachArr a2) = {(branch k (length p + m), Some (Leaf k v)), (b, Some (setHeader h' n))}"
    using addLeafToNode_spec [of a1 k "length p + m" v] a1 br by (simp_all add: a2_def)
  have r: "splitNode n h k v (length p) m = Inr (N4 h4 a2)"
    using m D(1) by (simp add: splitNode_def Let_def h4_def a1_def a2_def h'_def x_def b_def)
  have hs: "stored h4 = x" "length (prefix h4) = maxPrefixLen" "prefixLen h4 \<le> maxPrefixLen"
    unfolding h4_def using stored_goCopy [OF _ lx [symmetric]] lx m D(1) by simp_all
  have old: "wf (p @ x @ [b]) (setHeader h' n)"
    by (rule wf_setHeader [OF wf _ nz(3) sh(2,3)]) (simp add: sh(1) b_def)
  have lq: "length p + m = length (p @ x)" using lx by simp
  have "(b' = 0 \<longrightarrow> (\<exists>v. c = Leaf (p @ x) v \<and> keyOk (p @ x))) \<and> (b' \<noteq> 0 \<longrightarrow> wf (p @ x @ [b']) c)"
    if "(b', c) \<in> {(branch k (length p + m), Leaf k v), (b, setHeader h' n)}" for b' c
    using that wf_new_leaf(1) [OF q k(2), of b'] wf_new_leaf(2) [OF q k(2), of b' v] k(2) nz(2) old
    unfolding lq by auto
  from wf_inner_two [OF a2 hs nz(1) this] show ?thesis using r by (auto simp: m_def leaves_setHeader)
qed

text \<open>Replacing the child under one byte, in any way, keeps a node well-formed.\<close>

lemma wf_replace:
  assumes wf: "wf p n" "header n = Some h" and n': "nodeInv n'" "header n' = Some h"
    and sub: "\<And>b' c'. (b', Some c') \<in> set (forEach n') \<Longrightarrow> (b', Some c') \<in> set (forEach n) \<and> b' \<noteq> b \<or>
      b' = b \<and> (b = 0 \<longrightarrow> (\<exists>v. c' = Leaf (p @ stored h) v \<and> keyOk (p @ stored h))) \<and>
      (b \<noteq> 0 \<longrightarrow> wf (p @ stored h @ [b]) c')"
  shows "wf p n'"
proof (rule wf_inner [OF n' wf_innerD(2,3,5) [OF wf]], intro allI impI)
  fix b' c' assume "(b', Some c') \<in> set (forEach n')"
  from sub [OF this] wf_innerD(6,7) [OF wf]
  show "(b' = 0 \<longrightarrow> (\<exists>v. c' = Leaf (p @ stored h) v \<and> keyOk (p @ stored h))) \<and>
      (b' \<noteq> 0 \<longrightarrow> wf (p @ stored h @ [b']) c')" by blast
qed

text \<open>The leaves after a change of the child under the byte of \<open>key\<close>.\<close>

lemma leaves_replace:
  assumes wf: "wf p n" "header n = Some h" and n': "header n' = Some h"
    and c: "(branch key (length (p @ stored h)), Some c) \<in> set (forEach n)"
    and each: "set (forEach n') = new \<union> {x \<in> set (forEach n). fst x \<noteq> branch key (length (p @ stored h))}"
    and L: "{x. \<exists>b c'. (b, Some c') \<in> new \<and> x \<in> leaves c'} = A \<union> {x \<in> leaves c. fst x \<noteq> key}"
  shows "leaves n' = A \<union> {x \<in> leaves n. fst x \<noteq> key}"
proof -
  let ?b = "branch key (length (p @ stored h))"
  have "leaves n' = {x. \<exists>b c'. (b, Some c') \<in> new \<and> x \<in> leaves c'} \<union>
      {x. \<exists>b c'. (b, Some c') \<in> set (forEach n) \<and> b \<noteq> ?b \<and> x \<in> leaves c'}"
    unfolding leaves_inner [OF n'] each by auto
  moreover have "fst x \<noteq> key" if "(b, Some c') \<in> set (forEach n)" "b \<noteq> ?b" "x \<in> leaves c'" for b c' x
    using wf_child(2) [OF wf that(1), of "fst x" "snd x"] that(2,3) by auto
  moreover have "c' = c" if "(?b, Some c') \<in> set (forEach n)" for c'
    using child_lookup(3) [OF wf that c] .
  ultimately show ?thesis unfolding L leaves_inner [OF wf(2)] using c by (intro set_eqI) blast
qed

lemma insertNode_inner:
  assumes wf: "wf p n" "header n = Some h" and key: "starts p key"
  defines "d \<equiv> length (p @ stored h)"
  shows "insertNode n key v (length p) =
    (if \<not> starts (p @ stored h) key
     then (case splitNode n h key v (length p) (matchPrefix h key (length p)) of
             Inl e \<Rightarrow> Inl e | Inr n' \<Rightarrow> Inr (n', True))
     else case findChild n (branch key d) of
       None \<Rightarrow> (case addChild n (branch key d) (Leaf key v) of Inl e \<Rightarrow> Inl e | Inr n' \<Rightarrow> Inr (n', True))
     | Some i \<Rightarrow>
         (case slotGet n i of
            None \<Rightarrow> Inl Panic
          | Some c \<Rightarrow>
              (case insertNode c key v (if d \<ge> length key then d else d + 1) of
                 Inl e \<Rightarrow> Inl e
               | Inr (c', grown) \<Rightarrow> Inr (slotPut n i c', if d \<ge> length key then False else grown))))"
proof -
  have d: "d = length p + prefixLen h" using wf_innerD(4) [OF wf] by (simp add: d_def)
  show ?thesis
    using prefixMatch_ok [OF wf key] unfolding d
    by (subst insertNode.simps) (simp add: wf(2) Let_def matchPrefix_def)
qed

lemma insertNode_Leaf [simp]:
  "insertNode (Leaf k w) key v d =
     (if k = key then Inr (Leaf key v, False)
      else case twoLeaves k w key v d of Inl e \<Rightarrow> Inl e | Inr n' \<Rightarrow> Inr (n', True))"
  by (subst insertNode.simps) simp

text \<open>What an insertion promises.\<close>

definition inserted :: "bytes \<Rightarrow> 'v node \<Rightarrow> bytes \<Rightarrow> 'v \<Rightarrow> err + 'v node \<times> bool \<Rightarrow> bool" where
  "inserted p n key v r \<longleftrightarrow> (\<exists>n'. r = Inr (n', key \<notin> fst ` leaves n) \<and> wf p n' \<and>
     leaves n' = insert (key, v) {x \<in> leaves n. fst x \<noteq> key})"

lemma not_key: "key \<notin> fst ` L \<Longrightarrow> {x \<in> L. fst x \<noteq> key} = L"
  by force

lemma inserted_child:
  assumes wf: "wf p n" "header n = Some h" and key: "keyOk key" and q: "starts (p @ stored h) key"
    and i: "findChild n (branch key (length (p @ stored h))) = Some i" "slotGet n i = Some c"
    and c: "(branch key (length (p @ stored h)), Some c) \<in> set (forEach n)"
    and IH: "branch key (length (p @ stored h)) \<noteq> 0 \<Longrightarrow>
      inserted (p @ stored h @ [branch key (length (p @ stored h))]) c key v
        (insertNode c key v (length (p @ stored h) + 1))"
  shows "inserted p n key v (insertNode n key v (length p))"
proof -
  define q b where "q = p @ stored h" and "b = branch key (length q)"
  note u = child_lookup(3) [OF wf]
  have "\<exists>c' g. insertNode c key v (if length q \<ge> length key then length q else length q + 1) = Inr (c', g) \<and>
      (length q < length key \<longrightarrow> g = (key \<notin> fst ` leaves c)) \<and> (length key \<le> length q \<longrightarrow> key \<in> fst ` leaves c) \<and>
      (b = 0 \<longrightarrow> (\<exists>v. c' = Leaf q v \<and> keyOk q)) \<and> (b \<noteq> 0 \<longrightarrow> wf (q @ [b]) c') \<and>
      leaves c' = insert (key, v) {x \<in> leaves c. fst x \<noteq> key}"
  proof (cases "b = 0")
    case True
    then have "key = q" using branch_descend [OF q] keyOk_zero [OF key, of "length q"] by (auto simp: b_def q_def)
    moreover obtain w where "c = Leaf q w"
      using wf_innerD(6) [OF wf] c True by (auto simp: b_def q_def)
    ultimately show ?thesis using True key by auto
  next
    case False
    then have "length q < length key" using keyOk_zero [OF key, of "length q"] by (simp add: b_def)
    then show ?thesis using IH False by (auto simp: b_def q_def inserted_def)
  qed
  then obtain c' g where c': "insertNode c key v (if length q \<ge> length key then length q else length q + 1) = Inr (c', g)"
    "length q < length key \<longrightarrow> g = (key \<notin> fst ` leaves c)" "length key \<le> length q \<longrightarrow> key \<in> fst ` leaves c"
    "b = 0 \<longrightarrow> (\<exists>v. c' = Leaf q v \<and> keyOk q)" "b \<noteq> 0 \<longrightarrow> wf (q @ [b]) c'"
    "leaves c' = insert (key, v) {x \<in> leaves c. fst x \<noteq> key}" by blast
  note each = node.put_each [OF wf_innerD(1) [OF wf] i(1), of c', folded q_def, folded b_def]
  have "wf p (slotPut n i c')"
    by (rule wf_replace [OF wf node.put_inv [OF wf_innerD(1) [OF wf] i(1)], where b = b])
      (use each c'(4,5) wf(2) in \<open>auto simp: q_def\<close>)
  moreover have "leaves (slotPut n i c') = {(key, v)} \<union> {x \<in> leaves n. fst x \<noteq> key}"
    by (rule leaves_replace [OF wf _ c, where new = "{(b, Some c')}"])
      (use each c'(6) wf(2) in \<open>auto simp: q_def b_def\<close>)
  moreover have "(key, w) \<in> leaves n \<longleftrightarrow> (key, w) \<in> leaves c" for w
    using leaves_branch [OF wf, of key w] q c u by blast
  then have "key \<in> fst ` leaves n \<longleftrightarrow> key \<in> fst ` leaves c" by force
  moreover have "insertNode n key v (length p) = Inr (slotPut n i c', key \<notin> fst ` leaves c)"
    using insertNode_inner [OF wf starts_append [OF q]] q i c'(1,2,3) by (auto simp: q_def b_def)
  ultimately show ?thesis by (auto simp: inserted_def)
qed

lemma insertNode_spec:
  "wf p n \<Longrightarrow> starts p key \<Longrightarrow> keyOk key \<Longrightarrow> inserted p n key v (insertNode n key v (length p))"
proof (induction p n rule: wf.induct)
  case (wf_leaf p k w)
  show ?case
  proof (cases "k = key")
    case True
    then show ?thesis using wf_leaf by (auto simp: inserted_def intro: wf.wf_leaf)
  next
    case False
    then show ?thesis using twoLeaves_spec [OF wf_leaf.hyps wf_leaf.prems False, of w v] by (auto simp: inserted_def)
  qed
next
  case (wf_inner n h p)
  have wf: "wf p n" "header n = Some h" by (rule wf.wf_inner [OF wf_inner.hyps], use wf_inner.IH in blast) (fact wf_inner.hyps)
  define b where "b = branch key (length (p @ stored h))"
  note eq = insertNode_inner [OF wf wf_inner.prems(1), folded b_def]
  show ?case
  proof (cases "starts (p @ stored h) key")
    case q: True
    show ?thesis
    proof (cases "findChild n b")
      case None
      then have new: "b \<notin> fst ` set (forEach n)" using node.find_none [OF wf_innerD(1) [OF wf]] by blast
      then obtain n' where n': "addChild n b (Leaf key v) = Inr n'" "nodeInv n'" "header n' = Some h"
        "set (forEach n') = insert (b, Some (Leaf key v)) (set (forEach n))"
        using addChild_spec [OF wf_innerD(1) [OF wf] wf(2)] by blast
      have "wf p n'"
        by (rule wf_replace [OF wf n'(2,3), where b = b])
          (use n'(4) new wf_new_leaf [OF q wf_inner.prems(2) b_def] wf_inner.prems(2) in \<open>auto simp: image_iff\<close>)
      moreover have "(b, Some c) \<notin> set (forEach n)" for c using new by force
      then have "key \<notin> fst ` leaves n" using leaves_branch [OF wf, of key] by (auto simp: b_def)
      moreover have "leaves n' = insert (key, v) (leaves n)"
        unfolding leaves_inner [OF n'(3)] leaves_inner [OF wf(2)] n'(4) by (auto simp: ex_disj_distrib conj_disj_distribR)
      ultimately show ?thesis using eq q None n'(1) not_key [of key "leaves n"] by (simp add: inserted_def)
    next
      case (Some i)
      then obtain c where c: "slotGet n i = Some c" "(b, Some c) \<in> set (forEach n)"
        using child_lookup(2) [OF wf] by blast
      have "inserted (p @ stored h @ [b]) c key v (insertNode c key v (length (p @ stored h) + 1))" if "b \<noteq> 0"
        using wf_inner.IH c(2) that branch_descend [OF q] wf_inner.prems(2) by (auto simp: b_def)
      then show ?thesis using inserted_child [OF wf wf_inner.prems(2) q] Some c by (simp add: b_def)
    qed
  next
    case False
    then have "key \<notin> fst ` leaves n" using leaves_branch [OF wf, of key] by auto
    then show ?thesis
      using splitNode_spec [OF wf wf_inner.prems False, of v] eq False not_key [of key "leaves n"]
      by (auto simp: inserted_def)
  qed
qed

section \<open>Deletion\<close>

abbreviation leavesO :: "'v node option \<Rightarrow> (bytes \<times> 'v) set" where
  "leavesO no \<equiv> (case no of None \<Rightarrow> {} | Some n \<Rightarrow> leaves n)"

definition removed :: "bytes \<Rightarrow> 'v node \<Rightarrow> bytes \<Rightarrow> err + 'v node option \<times> bool \<Rightarrow> bool" where
  "removed p n key r \<longleftrightarrow> (\<exists>no. r = Inr (no, key \<in> fst ` leaves n) \<and>
     leavesO no = {x \<in> leaves n. fst x \<noteq> key} \<and> (\<forall>n'. no = Some n' \<longrightarrow> wf p n'))"

lemma collapse_spec:
  assumes wf: "wf p n" "header n = Some h"
  shows "wf p (collapseIfSingle n)" "leaves (collapseIfSingle n) = leaves n"
proof -
  have "wf p (collapseIfSingle n) \<and> leaves (collapseIfSingle n) = leaves n"
  proof (cases "childCount n = 1")
    case True
    then obtain b co where e: "forEach n = [(b, co)]"
      using node.each_count [OF wf_innerD(1) [OF wf]] by (metis length_0_conv length_Suc_conv One_nat_def old.prod.exhaust)
    show ?thesis
    proof (cases "\<exists>k v. co = Some (Leaf k v)")
      case leaf: True
      then obtain k v where co: "co = Some (Leaf k v)" by blast
      then have "leaves n = {(k, v)}" unfolding leaves_inner [OF wf(2)] e by simp
      moreover have "collapseIfSingle n = Leaf k v" using True e co by (simp add: collapseIfSingle_def)
      ultimately show ?thesis using wf_leaves [OF wf(1), of k v] by (simp add: wf_leaf)
    next
      case False
      then have "collapseIfSingle n = n"
        using True e by (auto simp: collapseIfSingle_def split: option.splits node.splits)
      then show ?thesis using wf by simp
    qed
  next
    case False
    then show ?thesis using wf by (simp add: collapseIfSingle_def)
  qed
  then show "wf p (collapseIfSingle n)" "leaves (collapseIfSingle n) = leaves n" by blast+
qed

lemma deleteNode_inner:
  assumes wf: "wf p n" "header n = Some h" and key: "starts p key"
  defines "d \<equiv> length (p @ stored h)"
  shows "deleteNode (Some n) key (length p) =
    (if \<not> starts (p @ stored h) key then Inr (Some n, False)
     else case findChild n (branch key d) of
       None \<Rightarrow> Inr (Some n, False)
     | Some i \<Rightarrow>
         (case deleteNode (slotGet n i) key (if d \<ge> length key then d else d + 1) of
            Inl e \<Rightarrow> Inl e
          | Inr (newChild, deleted) \<Rightarrow>
              if \<not> deleted then Inr (Some n, False)
              else (case newChild of
                      None \<Rightarrow> (case removeChild n (branch key d) of
                                 Inl e \<Rightarrow> Inl e | Inr n' \<Rightarrow> Inr (Some (collapseIfSingle n'), True))
                    | Some c \<Rightarrow> Inr (Some (collapseIfSingle (slotPut n i c)), True))))"
proof -
  have d: "d = length p + prefixLen h" using wf_innerD(4) [OF wf] by (simp add: d_def)
  show ?thesis
    using prefixMatch_ok [OF wf key] unfolding d
    by (subst deleteNode.simps) (simp add: wf(2) Let_def matchPrefix_def)
qed

lemma deleteNode_Leaf [simp]:
  "deleteNode (Some (Leaf k v)) key d = (if k = key then Inr (None, True) else Inr (Some (Leaf k v), False))"
  by (subst deleteNode.simps) simp

text \<open>Putting back what is left of the child.\<close>

lemma removed_child:
  assumes wf: "wf p n" "header n = Some h"
    and i: "findChild n b = Some i" "(b, Some c) \<in> set (forEach n)" and b: "b = branch key (length (p @ stored h))"
    and no: "leavesO no = {x \<in> leaves c. fst x \<noteq> key}"
    and ok: "\<And>c'. no = Some c' \<Longrightarrow> b \<noteq> 0 \<and> wf (p @ stored h @ [b]) c'"
  shows "\<exists>n'. (case no of
        None \<Rightarrow> (case removeChild n b of Inl e \<Rightarrow> Inl e | Inr n' \<Rightarrow> Inr (Some (collapseIfSingle n'), True))
      | Some c \<Rightarrow> Inr (Some (collapseIfSingle (slotPut n i c)), True)) = Inr (Some n', True) \<and>
    wf p n' \<and> leaves n' = {x \<in> leaves n. fst x \<noteq> key}"
proof (cases no)
  case None
  obtain n' where n': "removeChild n b = Inr n'" "nodeInv n'" "header n' = Some h"
    "set (forEach n') = {x \<in> set (forEach n). fst x \<noteq> b}"
    using removeChild_spec [OF wf_innerD(1) [OF wf] wf(2)] by blast
  have "wf p n'" by (rule wf_replace [OF wf n'(2,3), where b = b]) (use n'(4) in auto)
  moreover have "leaves n' = {} \<union> {x \<in> leaves n. fst x \<noteq> key}"
    by (rule leaves_replace [OF wf n'(3) i(2) [unfolded b], where new = "{}"]) (use n'(4) b None no in auto)
  ultimately show ?thesis using None n'(1) collapse_spec [OF _ n'(3)] by simp
next
  case (Some c')
  note each = node.put_each [OF wf_innerD(1) [OF wf] i(1), of c']
  have h': "header (slotPut n i c') = Some h" using wf(2) by simp
  have "wf p (slotPut n i c')"
    by (rule wf_replace [OF wf node.put_inv [OF wf_innerD(1) [OF wf] i(1)] h', where b = b])
      (use each ok [OF Some] in auto)
  moreover have "leaves (slotPut n i c') = {} \<union> {x \<in> leaves n. fst x \<noteq> key}"
    by (rule leaves_replace [OF wf h' i(2) [unfolded b], where new = "{(b, Some c')}"]) (use each b Some no in auto)
  ultimately show ?thesis using Some collapse_spec [OF _ h'] by simp
qed

lemma deleteNode_spec:
  "wf p n \<Longrightarrow> starts p key \<Longrightarrow> removed p n key (deleteNode (Some n) key (length p))"
proof (induction p n rule: wf.induct)
  case (wf_leaf p k w)
  then show ?case by (auto simp: removed_def intro: wf.wf_leaf)
next
  case (wf_inner n h p)
  have wf: "wf p n" "header n = Some h"
    by (rule wf.wf_inner [OF wf_inner.hyps], use wf_inner.IH in blast) (fact wf_inner.hyps)
  define b where "b = branch key (length (p @ stored h))"
  note eq = deleteNode_inner [OF wf wf_inner.prems, folded b_def]
  have unchanged: "removed p n key (Inr (Some n, False))" if "key \<notin> fst ` leaves n"
    using that wf(1) not_key [OF that] by (simp add: removed_def)
  show ?case
  proof (cases "starts (p @ stored h) key")
    case q: True
    show ?thesis
    proof (cases "findChild n b")
      case None
      then have "key \<notin> fst ` leaves n"
        using child_lookup(1) [OF wf] leaves_branch [OF wf, of key] by (auto simp: b_def)
      then show ?thesis using eq q None unchanged by simp
    next
      case (Some i)
      then obtain c where c: "slotGet n i = Some c" "(b, Some c) \<in> set (forEach n)"
        using child_lookup(2) [OF wf] by blast
      have "(key, w) \<in> leaves n \<longleftrightarrow> (key, w) \<in> leaves c" for w
        using leaves_branch [OF wf, of key w] q c child_lookup(3) [OF wf] unfolding b_def by blast
      then have mem: "key \<in> fst ` leaves n \<longleftrightarrow> key \<in> fst ` leaves c" by force
      have "\<exists>no. deleteNode (Some c) key (if length (p @ stored h) \<ge> length key then length (p @ stored h)
            else length (p @ stored h) + 1) = Inr (no, key \<in> fst ` leaves c) \<and>
          (key \<in> fst ` leaves c \<longrightarrow> leavesO no = {x \<in> leaves c. fst x \<noteq> key} \<and>
             (\<forall>c'. no = Some c' \<longrightarrow> b \<noteq> 0 \<and> wf (p @ stored h @ [b]) c'))"
      proof (cases "b = 0")
        case True
        then obtain w where "c = Leaf (p @ stored h) w" using wf_innerD(6) [OF wf] c(2) by blast
        then show ?thesis by auto
      next
        case False
        then have "length (p @ stored h) < length key" "starts (p @ stored h @ [b]) key"
          using branch_descend [OF q] by (auto simp: b_def)
        moreover from this have "removed (p @ stored h @ [b]) c key (deleteNode (Some c) key (length (p @ stored h @ [b])))"
          using wf_inner.IH c(2) False by blast
        ultimately show ?thesis using False by (auto simp: removed_def)
      qed
      then obtain no where no: "deleteNode (Some c) key (if length (p @ stored h) \<ge> length key then length (p @ stored h)
            else length (p @ stored h) + 1) = Inr (no, key \<in> fst ` leaves c)"
        "key \<in> fst ` leaves c \<Longrightarrow> leavesO no = {x \<in> leaves c. fst x \<noteq> key}"
        "\<And>c'. key \<in> fst ` leaves c \<Longrightarrow> no = Some c' \<Longrightarrow> b \<noteq> 0 \<and> wf (p @ stored h @ [b]) c'" by blast
      show ?thesis
      proof (cases "key \<in> fst ` leaves c")
        case True
        from removed_child [OF wf Some c(2) b_def no(2) [OF True] no(3) [OF True]]
        show ?thesis unfolding eq using q Some c(1) no(1) True mem by (auto simp: removed_def)
      next
        case False
        then show ?thesis using eq q Some c(1) no(1) unchanged mem by simp
      qed
    qed
  next
    case False
    then have "key \<notin> fst ` leaves n" using leaves_branch [OF wf, of key] by auto
    then show ?thesis using eq False unchanged by simp
  qed
qed

section \<open>Iteration in key order\<close>

lemma sorted_wrt_concat:
  assumes "\<forall>x \<in> set xs. sorted_wrt P (f x)" "sorted_wrt (\<lambda>x y. \<forall>a \<in> set (f x). \<forall>b \<in> set (f y). P a b) xs"
  shows "sorted_wrt P (concat (map f xs))"
  using assms by (induction xs) (auto simp: sorted_wrt_append)

lemma append_less [simp]: "q @ x < q @ y \<longleftrightarrow> x < y" for x :: "'a :: linorder list"
  by (induction q) simp_all

lemma branch_less:
  assumes "starts q k" "starts q k'" "branch k (length q) < branch k' (length q)"
  shows "k < k'"
proof -
  have "branch k' (length q) \<noteq> 0" using assms(3) by (metis not_less word_zero_le)
  then have "length q < length k'" by (auto simp: branch_def split: if_splits)
  then have k': "k' = q @ branch k' (length q) # drop (Suc (length q)) k'"
    using assms(2) id_take_nth_drop [of "length q" k'] by (simp add: branch_def)
  show ?thesis
  proof (cases "length k \<le> length q")
    case True
    then have "k = q @ []" using assms(1) by simp
    then show ?thesis using append_less [of q "[]"] k' by (metis Nil_less_Cons)
  next
    case False
    then have "k = q @ branch k (length q) # drop (Suc (length q)) k"
      using assms(1) id_take_nth_drop [of "length q" k] by (simp add: branch_def)
    then show ?thesis using append_less k' assms(3) by (metis Cons_less_Cons)
  qed
qed

lemma collectLeaves_sorted:
  "wf p n \<Longrightarrow> sorted_wrt (<) (map fst (collectLeaves n))"
proof (induction p n rule: wf.induct)
  case (wf_inner n h p)
  have wf: "wf p n" "header n = Some h"
    by (rule wf.wf_inner [OF wf_inner.hyps], use wf_inner.IH in blast) (fact wf_inner.hyps)
  let ?f = "\<lambda>(_, co). case co of None \<Rightarrow> [] | Some c \<Rightarrow> collectLeaves c"
  have "sorted_wrt (\<lambda>x y. fst x < fst y) (concat (map ?f (forEach n)))"
  proof (rule sorted_wrt_concat)
    show "\<forall>x \<in> set (forEach n). sorted_wrt (\<lambda>x y. fst x < fst y) (?f x)"
      using wf_inner.IH by (fastforce simp: sorted_wrt_map split: option.splits)
    have "sorted_wrt (\<lambda>x y. fst x < fst y) (forEach n)"
      using node.each_sorted [OF wf_innerD(1) [OF wf]] by (simp add: sorted_wrt_map)
    then show "sorted_wrt (\<lambda>x y. \<forall>a \<in> set (?f x). \<forall>b \<in> set (?f y). fst a < fst b) (forEach n)"
    proof (rule sorted_wrt_mono_rel [rotated])
      fix x y assume xy: "x \<in> set (forEach n)" "y \<in> set (forEach n)" "fst x < fst y"
      show "\<forall>a \<in> set (?f x). \<forall>b \<in> set (?f y). fst a < fst b"
      proof (intro ballI)
        fix k k' assume k: "k \<in> set (?f x)" "k' \<in> set (?f y)"
        obtain c c' where c: "x = (fst x, Some c)" "y = (fst y, Some c')" "k \<in> leaves c" "k' \<in> leaves c'"
          using k by (auto split: option.splits prod.splits)
        have "(fst x, Some c) \<in> set (forEach n)" "(fst y, Some c') \<in> set (forEach n)" using xy c by metis+
        then show "fst k < fst k'"
          using wf_child(1,2) [OF wf, of "fst x" c "fst k" "snd k"] wf_child(1,2) [OF wf, of "fst y" c' "fst k'" "snd k'"]
            c(3,4) xy(3) by (intro branch_less [of "p @ stored h"]) simp_all
      qed
    qed
  qed
  then show ?case by (subst collectLeaves.simps) (simp add: wf(2) sorted_wrt_map)
qed simp

section \<open>The memtable interface\<close>

locale ordered_map =
  fixes empty :: 't
    and ins :: "'t \<Rightarrow> bytes \<Rightarrow> 'v \<Rightarrow> err + 't"
    and get :: "'t \<Rightarrow> bytes \<Rightarrow> 'v option"
    and del :: "'t \<Rightarrow> bytes \<Rightarrow> err + 't \<times> bool"
    and iter :: "'t \<Rightarrow> (bytes \<times> 'v) list"
    and len :: "'t \<Rightarrow> int"
    and inv :: "'t \<Rightarrow> bool"
    and ok :: "bytes \<Rightarrow> bool"
  assumes empty_inv: "inv empty" and empty_iter: "iter empty = []"
    and ins_map: "inv t \<Longrightarrow> ok k \<Longrightarrow>
      \<exists>t'. ins t k v = Inr t' \<and> inv t' \<and> map_of (iter t') = (map_of (iter t))(k \<mapsto> v)"
    and del_map: "inv t \<Longrightarrow>
      \<exists>t'. del t k = Inr (t', k \<in> dom (map_of (iter t))) \<and> inv t' \<and>
        map_of (iter t') = (map_of (iter t))(k := None)"
    and get_map: "inv t \<Longrightarrow> get t k = map_of (iter t) k"
    and iter_sorted: "inv t \<Longrightarrow> sorted_wrt (<) (map fst (iter t))"
    and iter_ok: "inv t \<Longrightarrow> (k, v) \<in> set (iter t) \<Longrightarrow> ok k"
    and len_iter: "inv t \<Longrightarrow> len t = int (length (iter t))"
begin

lemma iter_distinct: "inv t \<Longrightarrow> distinct (map fst (iter t))"
  using iter_sorted strict_sorted_iff by blast

lemma len_card: "inv t \<Longrightarrow> len t = int (card (dom (map_of (iter t))))"
  using len_iter distinct_card [OF iter_distinct] by (simp add: dom_map_of_conv_image_fst)

end

definition treeOk :: "'v Tree \<Rightarrow> bool" where
  "treeOk t \<longleftrightarrow> (\<forall>n. root t = Some n \<longrightarrow> wf [] n) \<and> treeSize t = int (length (Iterator t))"

lemma length_collectLeaves: "wf p n \<Longrightarrow> length (collectLeaves n) = card (fst ` leaves n)"
proof -
  assume "wf p n"
  then have "distinct (map fst (collectLeaves n))" using collectLeaves_sorted strict_sorted_iff by blast
  from distinct_card [OF this] show ?thesis by simp
qed

lemma Iterator_sorted: "treeOk t \<Longrightarrow> sorted_wrt (<) (map fst (Iterator t))"
proof (cases "root t")
  case (Some n)
  assume "treeOk t"
  then have "wf [] n" using Some by (simp add: treeOk_def)
  from collectLeaves_sorted [OF this] show ?thesis using Some by (simp add: Iterator_def)
qed (simp add: Iterator_def)

lemma Iterator_map: "treeOk t \<Longrightarrow> map_of (Iterator t) k = Some v \<longleftrightarrow> (k, v) \<in> set (Iterator t)"
  using Iterator_sorted [of t] by (intro map_of_eq_Some_iff) (simp add: strict_sorted_iff)

lemma map_of_Iterator_eqI:
  assumes "treeOk t" "\<And>k v. m k = Some v \<longleftrightarrow> (k, v) \<in> set (Iterator t)"
  shows "map_of (Iterator t) = m"
  using Iterator_map [OF assms(1)] assms(2) by (intro ext option_eqI) simp

lemma Insert_spec:
  assumes "treeOk t" "keyOk k"
  shows "\<exists>t'. Insert t k v = Inr t' \<and> treeOk t' \<and> map_of (Iterator t') = (map_of (Iterator t))(k \<mapsto> v)"
proof (cases "root t")
  case None
  then show ?thesis using assms by (auto simp: Insert_def treeOk_def Iterator_def wf_leaf)
next
  case (Some n)
  then have wf: "wf [] n" using assms(1) by (simp add: treeOk_def)
  obtain n' where n': "insertNode n k v 0 = Inr (n', k \<notin> fst ` leaves n)" "wf [] n'"
    "leaves n' = insert (k, v) {x \<in> leaves n. fst x \<noteq> k}"
    using insertNode_spec [OF wf, of k v] assms(2) by (auto simp: inserted_def)
  define t' where "t' = \<lparr>root = Some n', treeSize = treeSize t + (if k \<notin> fst ` leaves n then 1 else 0)\<rparr>"
  have "fst ` leaves n' = insert k (fst ` leaves n)" unfolding n'(3) by force
  then have "treeOk t'"
    using assms(1) n'(2) Some length_collectLeaves [OF n'(2)] length_collectLeaves [OF wf]
    by (simp add: treeOk_def t'_def Iterator_def card_insert_if)
  moreover from this have "map_of (Iterator t') = (map_of (Iterator t))(k \<mapsto> v)"
    using n'(3) Some Iterator_map [OF assms(1)]
    by (intro map_of_Iterator_eqI) (auto simp: t'_def Iterator_def)
  ultimately show ?thesis using Some n'(1) by (auto simp: Insert_def t'_def)
qed

lemma Delete_spec:
  assumes "treeOk t"
  shows "\<exists>t'. Delete t k = Inr (t', k \<in> dom (map_of (Iterator t))) \<and> treeOk t' \<and>
    map_of (Iterator t') = (map_of (Iterator t))(k := None)"
proof (cases "root t")
  case None
  then show ?thesis using assms by (auto simp: Delete_def treeOk_def Iterator_def fun_eq_iff)
next
  case (Some n)
  then have wf: "wf [] n" using assms(1) by (simp add: treeOk_def)
  obtain no where no: "deleteNode (Some n) k 0 = Inr (no, k \<in> fst ` leaves n)"
    "leavesO no = {x \<in> leaves n. fst x \<noteq> k}" "\<And>n'. no = Some n' \<Longrightarrow> wf [] n'"
    using deleteNode_spec [OF wf, of k] by (auto simp: removed_def)
  define t' where "t' = \<lparr>root = no, treeSize = treeSize t - (if k \<in> fst ` leaves n then 1 else 0)\<rparr>"
  have it: "set (Iterator t') = {x \<in> leaves n. fst x \<noteq> k}"
    using no(2) by (auto simp: Iterator_def t'_def split: option.splits)
  have "length (Iterator t') = card (fst ` set (Iterator t'))"
    using length_collectLeaves no(3) by (auto simp: Iterator_def t'_def split: option.splits)
  moreover have "fst ` set (Iterator t') = fst ` leaves n - {k}" unfolding it by force
  moreover have "k \<in> fst ` leaves n \<Longrightarrow> card (fst ` leaves n) > 0" by (auto simp: card_gt_0_iff)
  ultimately have "int (length (Iterator t')) = int (card (fst ` leaves n)) - (if k \<in> fst ` leaves n then 1 else 0)"
    by (auto simp: card_Diff_singleton_if of_nat_diff Suc_le_eq)
  then have "treeOk t'"
    using assms(1) Some length_collectLeaves [OF wf] no(3) by (simp add: treeOk_def t'_def Iterator_def)
  moreover from this have "map_of (Iterator t') = (map_of (Iterator t))(k := None)"
    using it Some Iterator_map [OF assms(1)] by (intro map_of_Iterator_eqI) (auto simp: Iterator_def)
  moreover have "k \<in> dom (map_of (Iterator t)) \<longleftrightarrow> k \<in> fst ` leaves n"
    using Some by (simp add: Iterator_def dom_map_of_conv_image_fst)
  ultimately show ?thesis using Some no(1) by (auto simp: Delete_def t'_def)
qed

lemma Get_spec: "treeOk t \<Longrightarrow> Get t k = map_of (Iterator t) k"
proof (cases "root t")
  case (Some n)
  assume ok: "treeOk t"
  then have "getNode n k 0 = Some v \<longleftrightarrow> (k, v) \<in> leaves n" for v
    using getNode_spec [of "[]" n k v] Some by (simp add: treeOk_def)
  then show ?thesis using Some Iterator_map [OF ok, of k] by (intro option_eqI) (simp add: Get_def Iterator_def)
qed (simp add: Get_def Iterator_def)

interpretation art: ordered_map emptyTree Insert Get Delete Iterator Len treeOk keyOk
proof
  show "treeOk emptyTree" "Iterator emptyTree = []" by (simp_all add: emptyTree_def treeOk_def Iterator_def)
  fix t :: "'v Tree" and k and v :: 'v assume ok: "treeOk t"
  show "keyOk k \<Longrightarrow> \<exists>t'. Insert t k v = Inr t' \<and> treeOk t' \<and> map_of (Iterator t') = (map_of (Iterator t))(k \<mapsto> v)"
    using Insert_spec [OF ok] by blast
  show "\<exists>t'. Delete t k = Inr (t', k \<in> dom (map_of (Iterator t))) \<and> treeOk t' \<and>
      map_of (Iterator t') = (map_of (Iterator t))(k := None)" by (rule Delete_spec [OF ok])
  show "Get t k = map_of (Iterator t) k" by (rule Get_spec [OF ok])
  show "sorted_wrt (<) (map fst (Iterator t))" by (rule Iterator_sorted [OF ok])
  show "(k, v) \<in> set (Iterator t) \<Longrightarrow> keyOk k"
    using ok wf_leaves [of "[]"] by (auto simp: treeOk_def Iterator_def split: option.splits)
  show "Len t = int (length (Iterator t))" using ok by (simp add: Len_def treeOk_def)
qed

section \<open>Runs of operations\<close>

datatype 'v treeOp = OpInsert bytes 'v | OpDelete bytes

fun runOps :: "'v Tree \<Rightarrow> 'v treeOp list \<Rightarrow> err + 'v Tree" where
  "runOps t [] = Inr t"
| "runOps t (OpInsert k v # ops) = (case Insert t k v of Inl e \<Rightarrow> Inl e | Inr t' \<Rightarrow> runOps t' ops)"
| "runOps t (OpDelete k # ops) = (case Delete t k of Inl e \<Rightarrow> Inl e | Inr (t', _) \<Rightarrow> runOps t' ops)"

fun mapOps :: "(bytes \<rightharpoonup> 'v) \<Rightarrow> 'v treeOp list \<Rightarrow> (bytes \<rightharpoonup> 'v)" where
  "mapOps m [] = m"
| "mapOps m (OpInsert k v # ops) = mapOps (m(k \<mapsto> v)) ops"
| "mapOps m (OpDelete k # ops) = mapOps (m(k := None)) ops"

fun opOk :: "'v treeOp \<Rightarrow> bool" where
  "opOk (OpInsert k v) = keyOk k"
| "opOk (OpDelete k) = True"

lemma runOps_map:
  "treeOk t \<Longrightarrow> list_all opOk ops \<Longrightarrow>
     \<exists>t'. runOps t ops = Inr t' \<and> treeOk t' \<and> map_of (Iterator t') = mapOps (map_of (Iterator t)) ops"
proof (induction t ops rule: runOps.induct)
  case (2 t k v ops)
  obtain t1 where "Insert t k v = Inr t1" "treeOk t1" "map_of (Iterator t1) = (map_of (Iterator t))(k \<mapsto> v)"
    using art.ins_map [OF "2.prems"(1), of k v] "2.prems"(2) by auto
  then show ?case using "2.IH" [of t1] "2.prems"(2) by (simp del: fun_upd_apply)
next
  case (3 t k ops)
  obtain t1 d where "Delete t k = Inr (t1, d)" "treeOk t1" "map_of (Iterator t1) = (map_of (Iterator t))(k := None)"
    using art.del_map [OF "3.prems"(1), of k] by blast
  then show ?case using "3.IH" [of "(t1, d)" t1 d] "3.prems"(2) by (simp del: fun_upd_apply)
qed simp

text \<open>
  C20: Starting from the empty tree, every sequence of insertions and deletions whose inserted
  keys are legal runs without a panic, and afterwards lookups, the sorted iteration and the
  size are those of the finite map that the same sequence builds.
\<close>

theorem art_implements_map:
  assumes "list_all opOk ops"
  shows "\<exists>t. runOps emptyTree ops = Inr t \<and> (\<forall>k. Get t k = mapOps Map.empty ops k) \<and>
    sorted_wrt (<) (map fst (Iterator t)) \<and> map_of (Iterator t) = mapOps Map.empty ops \<and>
    Len t = int (card (dom (mapOps Map.empty ops)))"
proof -
  obtain t where t: "runOps emptyTree ops = Inr t" "treeOk t" "map_of (Iterator t) = mapOps Map.empty ops"
    using runOps_map [OF art.empty_inv assms] by (auto simp: art.empty_iter)
  then show ?thesis using art.get_map art.iter_sorted art.len_card by metis
qed

theorem art_implements_map_witness:
  "\<exists>t. runOps emptyTree [OpInsert [97, 98] True, OpInsert [97] False, OpDelete [97, 98]] = Inr t \<and>
     Get t [97] = Some False \<and> Get t [97, 98] = None \<and> Len t = 1"
proof -
  let ?ops = "[OpInsert [97, 98] True, OpInsert [97] False, OpDelete [97, 98]]"
  have "list_all opOk ?ops" by (simp add: keyOk_def maxPrefixLen_def)
  moreover have "dom (mapOps Map.empty ?ops) = {[97]}" by (auto split: if_splits)
  ultimately show ?thesis using art_implements_map [of ?ops] by auto
qed

text \<open>
  C21: The shape of the tree: after any such sequence every node obeys the layout of its class (an
  array of 4 or 16 sorted keys, an index of 256 bytes into 48 slots, or 256 slots, with the
  child count that goes with it), every compressed prefix is stored completely and without the
  terminator byte, every leaf hangs under a path its key starts with, and the size field counts
  the leaves.
\<close>

theorem art_nodes_typed:
  assumes "list_all opOk ops"
  shows "\<exists>t. runOps emptyTree ops = Inr t \<and> (\<forall>n. root t = Some n \<longrightarrow> wf [] n) \<and> treeSize t = int (length (Iterator t))"
  using runOps_map [OF art.empty_inv assms] by (auto simp: treeOk_def)

theorem art_nodes_typed_witness:
  "\<exists>t. runOps emptyTree [OpInsert [97, 98] True, OpInsert [97] False, OpDelete [97, 98]] = Inr t \<and>
     (\<forall>n. root t = Some n \<longrightarrow> wf [] n) \<and> treeSize t = int (length (Iterator t))"
  using art_nodes_typed [of "[OpInsert [97, 98] True, OpInsert [97] False, OpDelete [97, 98]]"]
  by (simp add: keyOk_def maxPrefixLen_def)

section \<open>Beyond the legal keys\<close>

lemmas art_eval = Insert_def Get_def twoLeaves_def sharedPrefix_def addLeafToNode_def insertArr_def
  newArr_def branch_def maxPrefixLen_def sortSearch_def searchLoop.simps goCopy_def zeroHeader_def
  emptyTree_def getNode.simps insertNode.simps prefixMatch_def matchPrefix_def findChild4_def getArr_def
  nthSlot_def Let_def numeral_eq_Suc


lemma commonLen_append: "commonLen (p @ x) (p @ y) = length p + commonLen x y"
  by (induction p) auto

lemma long_match:
  assumes "length p > maxPrefixLen"
  shows "prefixMatch \<lparr>prefixLen = length p, prefix = goCopy (prefix zeroHeader) 0 (take maxPrefixLen p)\<rparr> (p @ r) 0
    = maxPrefixLen"
proof -
  have "goCopy (prefix zeroHeader) 0 (take maxPrefixLen p) = take maxPrefixLen p"
    using assms by (simp add: goCopy_def zeroHeader_def)
  moreover have "commonLen (take maxPrefixLen p) (p @ r) = length (take maxPrefixLen p)"
    unfolding commonLen_full using assms by simp
  ultimately show ?thesis using assms by (simp add: prefixMatch_def)
qed



end
