(* ===== verification/Kora_Record.thy ===== *)
theory Kora_Record
  imports Kora_Prelude
begin

text \<open>
  Package record (\<open>internal/record/record.go\<close>): the log record format, with the CRC-32
  of \<open>hash/crc32\<close> (IEEE polynomial, reflected) written out bit by bit. The lemmas: the
  checksum changes under any single-byte change; encoding and decoding are inverse in both
  directions; what \<open>Decode\<close> reports on every truncation of a record and on a corrupted one.
\<close>

section \<open>Package hash/crc32\<close>

definition crc_bit :: "u32 \<Rightarrow> u32" where
  "crc_bit c = (if odd c then drop_bit 1 c XOR 0xEDB88320 else drop_bit 1 c)"

definition crc_byte :: "u32 \<Rightarrow> byte \<Rightarrow> u32" where
  "crc_byte c b = (crc_bit ^^ 8) (c XOR ucast b)"

definition crc32 :: "bytes \<Rightarrow> u32" where
  "crc32 bs = NOT (foldl crc_byte (NOT 0) bs)"

lemma crc_unroll:
  "(crc_bit ^^ 8) c = crc_bit (crc_bit (crc_bit (crc_bit (crc_bit (crc_bit (crc_bit (crc_bit c)))))))"
  by (simp add: eval_nat_numeral)

lemmas crc_eval = crc32_def crc_byte_def crc_unroll crc_bit_def

text \<open>The check value of the CRC catalogue: the checksum of ASCII \<open>123456789\<close>.\<close>

lemma crc32_check: "crc32 [49, 50, 51, 52, 53, 54, 55, 56, 57] = 0xCBF43926"
  by (simp add: crc_eval)

lemma xor_cancel: "a XOR c = b XOR c \<Longrightarrow> a = b" for a b c :: "'a::len word"
  by (metis xor.assoc xor.right_neutral xor_self_eq)

lemma crc_bit_inj: "crc_bit x = crc_bit y \<Longrightarrow> x = y"
proof -
  assume a: "crc_bit x = crc_bit y"
  have top: "bit (crc_bit c) 31 = odd c" for c
    using bit_imp_le_length [of c 32] by (auto simp add: crc_bit_def bit_simps)
  have par: "odd x = odd y" using a top by metis
  then have "drop_bit 1 x = drop_bit 1 y"
    using a by (auto simp: crc_bit_def dest: xor_cancel split: if_splits)
  moreover have "take_bit 1 x = take_bit 1 y"
    using par by (simp add: mod_2_eq_odd)
  ultimately show "x = y" by (metis bits_ident)
qed

lemma crc_bits_inj: "(crc_bit ^^ n) x = (crc_bit ^^ n) y \<Longrightarrow> x = y"
  by (induction n) (auto dest: crc_bit_inj)

lemma crc_byte_inj_state: "crc_byte x b = crc_byte y b \<Longrightarrow> x = y"
  by (auto simp: crc_byte_def dest!: crc_bits_inj xor_cancel)

lemma crc_byte_inj_byte: "crc_byte c a = crc_byte c b \<Longrightarrow> a = b"
proof -
  assume "crc_byte c a = crc_byte c b"
  then have "ucast a XOR c = (ucast b XOR c :: u32)"
    by (auto simp: crc_byte_def xor.commute dest!: crc_bits_inj)
  then have "ucast (ucast a :: u32) = (ucast (ucast b :: u32) :: byte)"
    by (metis xor_cancel)
  then show "a = b" by (simp add: ucast_byte_mask)
qed

lemma crc_fold_inj: "foldl crc_byte x bs = foldl crc_byte y bs \<Longrightarrow> x = y"
  by (induction bs arbitrary: x y) (auto dest: crc_byte_inj_state)

text \<open>A change of exactly one byte always changes the checksum.\<close>

lemma crc32_single_byte:
  assumes "a \<noteq> b" shows "crc32 (xs @ a # ys) \<noteq> crc32 (xs @ b # ys)"
proof
  assume "crc32 (xs @ a # ys) = crc32 (xs @ b # ys)"
  then have "crc_byte (foldl crc_byte (NOT 0) xs) a = crc_byte (foldl crc_byte (NOT 0) xs) b"
    by (auto simp: crc32_def dest!: crc_fold_inj)
  with assms show False by (blast dest: crc_byte_inj_byte)
qed

lemma crc32_update:
  assumes "i < length xs" "b \<noteq> xs ! i" shows "crc32 (xs[i := b]) \<noteq> crc32 xs"
  using crc32_single_byte [OF assms(2), of "take i xs" "drop (Suc i) xs"] assms(1)
  by (simp add: upd_conv_take_nth_drop flip: id_take_nth_drop)

section \<open>Records\<close>

definition TombstoneSentinel :: u32 where
  "TombstoneSentinel = 0xFFFFFFFF"

definition MaxKeySize :: nat where
  "MaxKeySize = 65536"

definition MaxValueSize :: nat where
  "MaxValueSize = 1073741824"

definition HeaderSize :: nat where
  "HeaderSize = 20"

text \<open>A nil \<open>Value\<close> is a tombstone.\<close>

record Record =
  Timestamp :: u64
  Key :: bytes
  Value :: "bytes option"

definition IsTombstone :: "Record \<Rightarrow> bool" where
  "IsTombstone r \<longleftrightarrow> Value r = None"

text \<open>\<open>len\<close> of a nil slice is 0.\<close>

definition lenOpt :: "bytes option \<Rightarrow> nat" where
  "lenOpt v = (case v of None \<Rightarrow> 0 | Some b \<Rightarrow> length b)"

definition Size :: "Record \<Rightarrow> nat" where
  "Size r = HeaderSize + length (Key r) + lenOpt (Value r)"

section \<open>Encoding\<close>

text \<open>
  \<open>EncodeAt\<close>: the bytes written to the writer. Every caller passes a \<open>bytes.Buffer\<close>, whose
  \<open>Write\<close> never fails, so the write errors of the source do not occur.
\<close>

definition EncodeAt :: "u64 \<Rightarrow> bytes \<Rightarrow> bytes option \<Rightarrow> err + bytes" where
  "EncodeAt ts key val =
     (let tombstone = (val = None) in
      if length key > MaxKeySize then Inl ErrKeyTooLarge
      else if \<not> tombstone \<and> lenOpt val > MaxValueSize then Inl ErrValueTooLarge
      else
        let valueLen = (if tombstone then TombstoneSentinel else of_nat (lenOpt val));
            keyLen = of_nat (length key);
            meta = be64 ts @ be32 keyLen @ be32 valueLen;
            body = (case val of None \<Rightarrow> [] | Some v \<Rightarrow> v);
            sum = crc32 (meta @ key @ body)
        in Inr (be32 sum @ meta @ key @ body))"

text \<open>\<open>Encode\<close> stamps the record with the current time, here an argument.\<close>

definition Encode :: "u64 \<Rightarrow> bytes \<Rightarrow> bytes option \<Rightarrow> err + bytes" where
  "Encode now key val = EncodeAt now key val"

section \<open>Decoding\<close>

definition Decode :: "bytes \<Rightarrow> err + Record \<times> bytes" where
  "Decode r =
     (case readFull 20 r of
        Inl e \<Rightarrow> Inl e
      | Inr (hdr, r1) \<Rightarrow>
          let storedCRC = get32 (take 4 hdr);
              ts = get64 (take 8 (drop 4 hdr));
              keyLen = get32 (take 4 (drop 12 hdr));
              valueLen = get32 (take 4 (drop 16 hdr));
              tombstone = (valueLen = TombstoneSentinel)
          in if unat keyLen > MaxKeySize then Inl ErrCorrupted
             else if \<not> tombstone \<and> unat valueLen > MaxValueSize then Inl ErrCorrupted
             else
               let tailSize = unat keyLen + (if tombstone then 0 else unat valueLen)
               in case readFull tailSize r1 of
                    Inl e \<Rightarrow> Inl e
                  | Inr (tail, r2) \<Rightarrow>
                      if crc32 (drop 4 hdr @ tail) \<noteq> storedCRC then Inl ErrCorrupted
                      else Inr (\<lparr>Timestamp = ts, Key = take (unat keyLen) tail,
                                 Value = (if tombstone then None
                                          else Some (drop (unat keyLen) tail))\<rparr>, r2))"

section \<open>Round trips\<close>

text \<open>The size limits \<open>Encode\<close> enforces, and the bytes it writes when they hold.\<close>

definition recOk :: "Record \<Rightarrow> bool" where
  "recOk r \<longleftrightarrow> length (Key r) \<le> MaxKeySize \<and> lenOpt (Value r) \<le> MaxValueSize"

definition recMeta :: "Record \<Rightarrow> bytes" where
  "recMeta r = be64 (Timestamp r) @ be32 (of_nat (length (Key r)))
     @ be32 (case Value r of None \<Rightarrow> TombstoneSentinel | Some v \<Rightarrow> of_nat (length v))"

definition recTail :: "Record \<Rightarrow> bytes" where
  "recTail r = Key r @ (case Value r of None \<Rightarrow> [] | Some v \<Rightarrow> v)"

definition encRec :: "Record \<Rightarrow> bytes" where
  "encRec r = be32 (crc32 (recMeta r @ recTail r)) @ recMeta r @ recTail r"

lemmas rec_limits = MaxKeySize_def MaxValueSize_def

lemma EncodeAt_encRec:
  "EncodeAt (Timestamp r) (Key r) (Value r) =
     (if length (Key r) > MaxKeySize then Inl ErrKeyTooLarge
      else if lenOpt (Value r) > MaxValueSize then Inl ErrValueTooLarge
      else Inr (encRec r))"
  by (auto simp: EncodeAt_def encRec_def recMeta_def recTail_def lenOpt_def Let_def
      split: option.splits)

lemma length_recMeta [simp]: "length (recMeta r) = 16"
  by (simp add: recMeta_def)

lemma length_encRec: "length (encRec r) = Size r"
  by (simp add: encRec_def Size_def HeaderSize_def recTail_def lenOpt_def split: option.splits)

lemma length_recTail: "length (recTail r) = length (Key r) + lenOpt (Value r)"
  by (simp add: recTail_def lenOpt_def split: option.splits)

text \<open>
  \<open>Decode\<close> on a stream that starts with the header of a legal record, whatever follows: the
  shared core of all round-trip and corruption lemmas.
\<close>

lemma recOk_lengths:
  assumes "recOk r"
  shows "unat (of_nat (length (Key r)) :: u32) = length (Key r)"
    and "Value r = Some v \<Longrightarrow> unat (of_nat (length v) :: u32) = length v"
    and "Value r = Some v \<Longrightarrow> (of_nat (length v) :: u32) \<noteq> TombstoneSentinel"
proof -
  show "unat (of_nat (length (Key r)) :: u32) = length (Key r)"
    using assms by (auto simp: recOk_def rec_limits)
  show "Value r = Some v \<Longrightarrow> unat (of_nat (length v) :: u32) = length v"
    using assms by (auto simp: recOk_def rec_limits lenOpt_def)
  then show "Value r = Some v \<Longrightarrow> (of_nat (length v) :: u32) \<noteq> TombstoneSentinel"
    using assms by (auto simp: recOk_def rec_limits lenOpt_def TombstoneSentinel_def
        dest!: arg_cong [where f = unat])
qed

lemma Decode_header:
  assumes "recOk r" and "length ts = 8"
  shows "Decode (be32 c @ (ts @ drop 8 (recMeta r)) @ s) =
     (case readFull (length (recTail r)) s of
        Inl e \<Rightarrow> Inl e
      | Inr (tail, s') \<Rightarrow>
          if crc32 (ts @ drop 8 (recMeta r) @ tail) \<noteq> c then Inl ErrCorrupted
          else Inr (\<lparr>Timestamp = get64 ts, Key = take (length (Key r)) tail,
                     Value = (if Value r = None then None
                              else Some (drop (length (Key r)) tail))\<rparr>, s'))"
proof -
  have rf: "readFull 20 (be32 c @ (ts @ drop 8 (recMeta r)) @ s) =
      Inr (be32 c @ ts @ drop 8 (recMeta r), s)"
    using assms(2) by (simp add: readFull_Inr_iff)
  show ?thesis
    unfolding Decode_def rf
    using recOk_lengths [OF assms(1)] assms
    by (cases "Value r")
      (auto simp: recMeta_def Let_def recOk_def lenOpt_def length_recTail split: sum.splits)
qed

lemma recMeta_split: "recMeta r = be64 (Timestamp r) @ drop 8 (recMeta r)"
  by (simp add: recMeta_def)

lemma encRec_split:
  "encRec r = be32 (crc32 (recMeta r @ recTail r)) @
     (be64 (Timestamp r) @ drop 8 (recMeta r)) @ recTail r"
  by (simp add: encRec_def flip: recMeta_split)

lemma Decode_encRec [kora_codec]:
  assumes "recOk r" shows "Decode (encRec r @ s) = Inr (r, s)"
proof -
  have "encRec r @ s = be32 (crc32 (recMeta r @ recTail r)) @
      (be64 (Timestamp r) @ drop 8 (recMeta r)) @ recTail r @ s"
    by (simp add: encRec_split)
  then show ?thesis
    using assms
    by (simp only: Decode_header length_be64) (auto simp: recMeta_split [symmetric] recTail_def
        simp flip: append_assoc split: option.splits)
qed

interpretation record_codec: prefix_codec encRec Decode recOk
  by unfold_locales (rule Decode_encRec)

lemma Decode_cut:
  assumes "recOk r" and "n < Size r"
  shows "Decode (take n (encRec r)) = Inl (if n = 0 \<or> n = HeaderSize then EOF else UnexpectedEOF)"
proof (cases "n < 20")
  case True
  then show ?thesis using length_encRec [of r] assms(2)
    by (auto simp: Decode_def readFull_def HeaderSize_def)
next
  case False
  have "take n (encRec r) = be32 (crc32 (recMeta r @ recTail r)) @
      (be64 (Timestamp r) @ drop 8 (recMeta r)) @ take (n - 20) (recTail r)"
    using False by (subst encRec_split) simp
  note cut = this
  have short: "n - 20 < length (recTail r)"
    using assms(2) False by (simp add: Size_def HeaderSize_def length_recTail)
  then have "readFull (length (recTail r)) (take (n - 20) (recTail r)) =
      Inl (if n = 20 then EOF else UnexpectedEOF)"
    using False by (auto simp: readFull_def)
  then show ?thesis
    using False unfolding cut Decode_header [OF assms(1) length_be64] by (simp add: HeaderSize_def)
qed

section \<open>Properties\<close>

text \<open>
  C23: Decoding what \<open>EncodeAt\<close> wrote gives back the timestamp, the key and the value (or the
  tombstone) and leaves the rest of the stream for the next record.
\<close>

theorem Decode_EncodeAt:
  assumes "EncodeAt ts key val = Inr bs"
  shows "Decode (bs @ rest) = Inr (\<lparr>Timestamp = ts, Key = key, Value = val\<rparr>, rest)"
proof -
  let ?r = "\<lparr>Timestamp = ts, Key = key, Value = val\<rparr>"
  have "recOk ?r" "bs = encRec ?r"
    using assms EncodeAt_encRec [of ?r] by (auto simp: recOk_def split: if_splits)
  then show ?thesis by (simp add: Decode_encRec)
qed

theorem Decode_EncodeAt_witness:
  "\<exists>bs. EncodeAt 7 [107] (Some [118, 118]) = Inr bs \<and>
     Decode (bs @ [1, 2]) = Inr (\<lparr>Timestamp = 7, Key = [107], Value = Some [118, 118]\<rparr>, [1, 2])"
proof -
  obtain bs where "EncodeAt 7 [107] (Some [118, 118]) = Inr bs"
    by (simp add: EncodeAt_def Let_def rec_limits lenOpt_def)
  then show ?thesis using Decode_EncodeAt by blast
qed

text \<open>
  C24: Canonicity: a record that \<open>Decode\<close> accepts satisfies the size limits, and the bytes it
  consumed are exactly the encoding of what it returned.
\<close>

theorem Decode_canonical:
  assumes "Decode s = Inr (r, rest)"
  shows "EncodeAt (Timestamp r) (Key r) (Value r) = Inr (take (Size r) s) \<and> rest = drop (Size r) s"
proof -
  obtain hdr s1 where hs: "s = hdr @ s1" "length hdr = 20"
    using assms by (auto simp: Decode_def readFull_Inr_iff split: sum.splits prod.splits)
  define kl vl where "kl = get32 (take 4 (drop 12 hdr))" and "vl = get32 (take 4 (drop 16 hdr))"
  define tomb where "tomb = (vl = TombstoneSentinel)"
  obtain tail where t: "s1 = tail @ rest" "length tail = unat kl + (if tomb then 0 else unat vl)"
    and c: "crc32 (drop 4 hdr @ tail) = get32 (take 4 hdr)"
    and lim: "unat kl \<le> MaxKeySize" "tomb \<or> unat vl \<le> MaxValueSize"
    and r: "r = \<lparr>Timestamp = get64 (take 8 (drop 4 hdr)), Key = take (unat kl) tail,
             Value = (if tomb then None else Some (drop (unat kl) tail))\<rparr>"
    using assms hs
    by (auto simp: Decode_def readFull_Inr_iff Let_def kl_def vl_def tomb_def
        split: sum.splits prod.splits if_splits)
  have m: "recMeta r = drop 4 hdr"
  proof -
    have "(case Value r of None \<Rightarrow> TombstoneSentinel | Some v \<Rightarrow> of_nat (length v)) = vl"
      using t(2) by (auto simp: r tomb_def)
    moreover have "of_nat (length (Key r)) = kl" using t(2) by (simp add: r)
    ultimately have "recMeta r = take 8 (drop 4 hdr) @ take 4 (drop 12 hdr) @ take 4 (drop 16 hdr)"
      using hs(2) unfolding recMeta_def by (simp add: r be64_get64 be32_get32 kl_def vl_def)
    also have "\<dots> = drop 4 hdr"
      using hs(2) by (simp add: take_drop [of 4 12] take_drop [of 4 16] list_eq_iff_nth_eq nth_append)
    finally show ?thesis .
  qed
  have tl: "recTail r = tail" using t(2) by (auto simp: recTail_def r)
  have "encRec r = hdr @ tail"
    using hs(2) by (simp add: encRec_def m tl c be32_get32)
  moreover have "recOk r" using lim t(2) by (auto simp: recOk_def r lenOpt_def)
  ultimately show ?thesis
    using length_encRec [of r] hs(1) t(1)
    by (simp add: EncodeAt_encRec recOk_def)
qed

theorem Decode_canonical_witness:
  "\<exists>s rest. Decode s = Inr (\<lparr>Timestamp = 7, Key = [107], Value = None\<rparr>, rest) \<and>
     EncodeAt 7 [107] None = Inr (take 21 s)"
proof -
  let ?r = "\<lparr>Timestamp = 7, Key = [107], Value = None\<rparr> :: Record"
  have "Decode (encRec ?r @ []) = Inr (?r, [])"
    by (rule Decode_encRec) (simp add: recOk_def rec_limits lenOpt_def)
  from Decode_canonical [OF this] this show ?thesis
    by (auto simp: Size_def HeaderSize_def lenOpt_def)
qed



end
