(* ===== verification/Kora_Disk.thy ===== *)
theory Kora_Disk
  imports Kora_Decimal
begin

text \<open>
  The file system below the store's directory and the system calls of package os the store
  makes. A world holds the files of the directory and of its subdirectory \<open>sst\<close>, and a fault
  script: each system call consumes one outcome. A call may succeed, fail (a write then
  leaves a prefix of its bytes behind), or be the one at which the process is killed: from
  then on no call has any effect, so the world at the end of an operation run with a crash
  in its script is the disk a restart finds. A script that has run out means success.
  The crash model is that of a killed process: what was written stays written, so \<open>fsync\<close>
  has no effect of its own beyond its chance to fail.
\<close>

section \<open>Worlds and faults\<close>

datatype outcome = Succeed | Fail nat | Crash nat

text \<open>\<open>Top n\<close> is \<open>dir/n\<close> and \<open>Sst n\<close> is \<open>dir/sst/n\<close>.\<close>

datatype path = Top bytes | Sst bytes

record world =
  topdir :: "(bytes \<times> bytes) list"
  sstdir :: "(bytes \<times> bytes) list option"
  script :: "outcome list"
  dead :: bool

definition nextOutcome :: "world \<Rightarrow> outcome \<times> world" where
  "nextOutcome w =
     (if dead w then (Fail 0, w)
      else case script w of
             [] \<Rightarrow> (Succeed, w)
           | x # xs \<Rightarrow> (x, w\<lparr>script := xs, dead := (case x of Crash _ \<Rightarrow> True | _ \<Rightarrow> False)\<rparr>))"

text \<open>A world in which nothing goes wrong any more.\<close>

definition calm :: "world \<Rightarrow> bool" where
  "calm w \<longleftrightarrow> \<not> dead w \<and> script w = []"

section \<open>Files\<close>

fun lookupFile :: "path \<Rightarrow> world \<Rightarrow> bytes option" where
  "lookupFile (Top n) w = map_of (topdir w) n"
| "lookupFile (Sst n) w = (case sstdir w of None \<Rightarrow> None | Some d \<Rightarrow> map_of d n)"

fun putFile :: "path \<Rightarrow> bytes \<Rightarrow> world \<Rightarrow> world" where
  "putFile (Top n) c w = w\<lparr>topdir := AList.update n c (topdir w)\<rparr>"
| "putFile (Sst n) c w = w\<lparr>sstdir := map_option (AList.update n c) (sstdir w)\<rparr>"

fun delFile :: "path \<Rightarrow> world \<Rightarrow> world" where
  "delFile (Top n) w = w\<lparr>topdir := AList.delete n (topdir w)\<rparr>"
| "delFile (Sst n) w = w\<lparr>sstdir := map_option (AList.delete n) (sstdir w)\<rparr>"

fun dirExists :: "path \<Rightarrow> world \<Rightarrow> bool" where
  "dirExists (Top _) w = True"
| "dirExists (Sst _) w = (sstdir w \<noteq> None)"

section \<open>System calls\<close>

definition syscall :: "(world \<Rightarrow> (err + 'a) \<times> world) \<Rightarrow> world \<Rightarrow> (err + 'a) \<times> world" where
  "syscall act w =
     (case nextOutcome w of
        (Succeed, w') \<Rightarrow> act w'
      | (Fail _, w') \<Rightarrow> (Inl ErrIO, w')
      | (Crash _, w') \<Rightarrow> (Inl ErrIO, w'))"

text \<open>\<open>os.OpenFile\<close> with \<open>O_CREATE|O_TRUNC\<close>, and with \<open>O_CREATE|O_APPEND\<close>.\<close>

definition openTrunc :: "path \<Rightarrow> world \<Rightarrow> (err + unit) \<times> world" where
  "openTrunc p = syscall (\<lambda>w. if dirExists p w then (Inr (), putFile p [] w) else (Inl ErrNotExist, w))"

definition openAppend :: "path \<Rightarrow> world \<Rightarrow> (err + unit) \<times> world" where
  "openAppend p = syscall (\<lambda>w.
     if \<not> dirExists p w then (Inl ErrNotExist, w)
     else case lookupFile p w of None \<Rightarrow> (Inr (), putFile p [] w) | Some _ \<Rightarrow> (Inr (), w))"

text \<open>
  \<open>os.Open\<close>. The returned handle is represented by the contents it reads: the files that
  are read through a handle kept open (SSTables) are never written again.
\<close>

definition openRead :: "path \<Rightarrow> world \<Rightarrow> (err + bytes) \<times> world" where
  "openRead p = syscall (\<lambda>w. case lookupFile p w of None \<Rightarrow> (Inl ErrNotExist, w) | Some c \<Rightarrow> (Inr c, w))"

definition fstat :: "path \<Rightarrow> world \<Rightarrow> (err + nat) \<times> world" where
  "fstat p = syscall (\<lambda>w. case lookupFile p w of None \<Rightarrow> (Inl ErrNotExist, w) | Some c \<Rightarrow> (Inr (length c), w))"

definition appendFile :: "path \<Rightarrow> bytes \<Rightarrow> world \<Rightarrow> world" where
  "appendFile p b w = (case lookupFile p w of None \<Rightarrow> w | Some c \<Rightarrow> putFile p (c @ b) w)"

text \<open>
  \<open>f.Write(b)\<close> at the end of the file: the number of bytes written and the error. A failing
  or interrupted write leaves a strict prefix of \<open>b\<close> behind.
\<close>

definition fwrite :: "path \<Rightarrow> bytes \<Rightarrow> world \<Rightarrow> (nat \<times> err option) \<times> world" where
  "fwrite p b w =
     (case nextOutcome w of
        (Succeed, w') \<Rightarrow> ((length b, None), appendFile p b w')
      | (Fail n, w') \<Rightarrow>
          let m = min n (length b - 1) in ((m, Some ErrIO), appendFile p (take m b) w')
      | (Crash n, w') \<Rightarrow>
          let m = min n (length b - 1) in ((m, Some ErrIO), appendFile p (take m b) w'))"

definition fsync :: "path \<Rightarrow> world \<Rightarrow> (err + unit) \<times> world" where
  "fsync p = syscall (\<lambda>w. (Inr (), w))"

definition fclose :: "path \<Rightarrow> world \<Rightarrow> (err + unit) \<times> world" where
  "fclose p = syscall (\<lambda>w. (Inr (), w))"

definition fseek :: "path \<Rightarrow> world \<Rightarrow> (err + unit) \<times> world" where
  "fseek p = syscall (\<lambda>w. (Inr (), w))"

definition ftruncate :: "path \<Rightarrow> nat \<Rightarrow> world \<Rightarrow> (err + unit) \<times> world" where
  "ftruncate p n = syscall (\<lambda>w. case lookupFile p w of
     None \<Rightarrow> (Inl ErrNotExist, w)
   | Some c \<Rightarrow> (Inr (), putFile p (take n c @ replicate (n - length c) 0) w))"

definition osRemove :: "path \<Rightarrow> world \<Rightarrow> (err + unit) \<times> world" where
  "osRemove p = syscall (\<lambda>w. case lookupFile p w of
     None \<Rightarrow> (Inl ErrNotExist, w) | Some _ \<Rightarrow> (Inr (), delFile p w))"

definition osRename :: "path \<Rightarrow> path \<Rightarrow> world \<Rightarrow> (err + unit) \<times> world" where
  "osRename p q = syscall (\<lambda>w. case lookupFile p w of
     None \<Rightarrow> (Inl ErrNotExist, w) | Some c \<Rightarrow> (Inr (), putFile q c (delFile p w)))"

definition mkdirSst :: "world \<Rightarrow> (err + unit) \<times> world" where
  "mkdirSst = syscall (\<lambda>w.
     (Inr (), case sstdir w of None \<Rightarrow> w\<lparr>sstdir := Some []\<rparr> | Some _ \<Rightarrow> w))"

text \<open>\<open>os.ReadDir\<close>, regular files only (the callers skip directories).\<close>

definition readDirTop :: "world \<Rightarrow> (err + bytes list) \<times> world" where
  "readDirTop = syscall (\<lambda>w. (Inr (map fst (topdir w)), w))"

definition readDirSst :: "world \<Rightarrow> (err + bytes list) \<times> world" where
  "readDirSst = syscall (\<lambda>w. case sstdir w of
     None \<Rightarrow> (Inl ErrNotExist, w) | Some d \<Rightarrow> (Inr (map fst d), w))"

text \<open>A best-effort call whose error is ignored.\<close>

definition quietly :: "(world \<Rightarrow> (err + 'a) \<times> world) \<Rightarrow> world \<Rightarrow> world" where
  "quietly f w = snd (f w)"

section \<open>Laws\<close>

lemma lookup_put [simp]:
  "lookupFile p (putFile q c w) = (if p = q then (if dirExists p w then Some c else None) else lookupFile p w)"
  by (cases p; cases q; cases "sstdir w") (auto simp: update_conv')

lemma lookup_del [simp]:
  "lookupFile p (delFile q w) = (if p = q then None else lookupFile p w)"
  by (cases p; cases q; cases "sstdir w") (auto simp: delete_conv')

lemma dirExists_put [simp]: "dirExists p (putFile q c w) = dirExists p w"
  by (cases p; cases q) auto

lemma dirExists_del [simp]: "dirExists p (delFile q w) = dirExists p w"
  by (cases p; cases q) auto

lemma lookup_dirExists: "lookupFile p w = Some c \<Longrightarrow> dirExists p w"
  by (cases p) (auto split: option.splits)

lemma calm_put [simp]: "calm (putFile p c w) = calm w"
  by (cases p) (auto simp: calm_def)

lemma calm_del [simp]: "calm (delFile p w) = calm w"
  by (cases p) (auto simp: calm_def)

lemma calm_append [simp]: "calm (appendFile p b w) = calm w"
  by (auto simp: appendFile_def split: option.splits)

lemma dirExists_append [simp]: "dirExists q (appendFile p b w) = dirExists q w"
  by (auto simp: appendFile_def split: option.splits)

lemma lookup_append [simp]:
  "lookupFile q (appendFile p b w) =
     (if p = q then map_option (\<lambda>c. c @ b) (lookupFile p w) else lookupFile q w)"
  by (auto simp: appendFile_def lookup_dirExists split: option.splits)

lemma dir_put [simp]:
  "sstdir (putFile (Top n) c w) = sstdir w" "topdir (putFile (Sst n) c w) = topdir w"
  "sstdir (delFile (Top n) w) = sstdir w" "topdir (delFile (Sst n) w) = topdir w"
  by simp_all

lemma names_top: "n \<in> set (map fst (topdir w)) \<longleftrightarrow> lookupFile (Top n) w \<noteq> None"
  by (simp add: map_of_eq_None_iff)

lemma putFile_twice [simp]: "putFile p c (putFile p d w) = putFile p c w"
  by (cases p) (simp_all add: update_last option.map_comp comp_def)

lemma appendFile_put [simp]:
  "dirExists p w \<Longrightarrow> appendFile p b (putFile p c w) = putFile p (c @ b) w"
  by (simp add: appendFile_def)

declare lookupFile.simps [simp del] putFile.simps [simp del] delFile.simps [simp del]

lemma nextOutcome_calm [simp]: "calm w \<Longrightarrow> nextOutcome w = (Succeed, w)"
  by (simp add: calm_def nextOutcome_def)

lemma syscall_calm [simp]: "calm w \<Longrightarrow> syscall act w = act w"
  by (simp add: syscall_def)

lemmas syscall_defs = openTrunc_def openAppend_def openRead_def fstat_def fsync_def fseek_def fclose_def
  ftruncate_def osRemove_def osRename_def mkdirSst_def readDirTop_def readDirSst_def

lemma fwrite_calm [simp]: "calm w \<Longrightarrow> fwrite p b w = ((length b, None), appendFile p b w)"
  by (simp add: fwrite_def)

lemma fsync_calm [simp]: "calm w \<Longrightarrow> fsync p w = (Inr (), w)"
  by (simp add: fsync_def)

lemma fclose_calm [simp]: "calm w \<Longrightarrow> fclose p w = (Inr (), w)"
  by (simp add: fclose_def)

lemma fseek_calm [simp]: "calm w \<Longrightarrow> fseek p w = (Inr (), w)"
  by (simp add: fseek_def)

lemma openTrunc_calm [simp]:
  "calm w \<Longrightarrow> dirExists p w \<Longrightarrow> openTrunc p w = (Inr (), putFile p [] w)"
  by (simp add: openTrunc_def)

lemma openRead_calm [simp]:
  "calm w \<Longrightarrow> lookupFile p w = Some c \<Longrightarrow> openRead p w = (Inr c, w)"
  by (simp add: openRead_def)

lemma osRename_calm [simp]:
  "calm w \<Longrightarrow> lookupFile p w = Some c \<Longrightarrow> osRename p q w = (Inr (), putFile q c (delFile p w))"
  by (simp add: osRename_def)

lemma osRemove_calm [simp]:
  "calm w \<Longrightarrow> quietly (osRemove p) w = (if lookupFile p w = None then w else delFile p w)"
  by (auto simp: quietly_def osRemove_def split: option.splits)

section \<open>Frames: what a call under any fault script leaves alone\<close>

lemma lookup_cong: "topdir w = topdir v \<Longrightarrow> sstdir w = sstdir v \<Longrightarrow> lookupFile p w = lookupFile p v"
  by (cases p) (simp_all add: lookupFile.simps)

lemma dirExists_cong: "sstdir w = sstdir v \<Longrightarrow> dirExists p w = dirExists p v"
  by (cases p) simp_all

lemma nextOutcome_frame:
  assumes "nextOutcome w = (x, w')"
  shows "lookupFile q w' = lookupFile q w" and "dirExists q w' = dirExists q w"
    and "sstdir w' = sstdir w"
proof -
  have "topdir w' = topdir w" "sstdir w' = sstdir w"
    using assms by (auto simp: nextOutcome_def split: if_splits list.splits)
  then show "lookupFile q w' = lookupFile q w" "dirExists q w' = dirExists q w" "sstdir w' = sstdir w"
    using lookup_cong dirExists_cong by blast+
qed

lemma syscall_cases:
  assumes "syscall act w = (r, w')"
  obtains v where "nextOutcome w = (Succeed, v)" "act v = (r, w')"
  | x where "nextOutcome w = (x, w')" "r = Inl ErrIO"
  using assms by (auto simp: syscall_def split: prod.splits outcome.splits)

lemma call_frame:
  "openTrunc p w = (r, w') \<Longrightarrow> q \<noteq> p \<Longrightarrow> lookupFile q w' = lookupFile q w"
  "openAppend p w = (r, w') \<Longrightarrow> q \<noteq> p \<Longrightarrow> lookupFile q w' = lookupFile q w"
  "osRemove p w = (r, w') \<Longrightarrow> q \<noteq> p \<Longrightarrow> lookupFile q w' = lookupFile q w"
  "fsync p w = (r, w') \<Longrightarrow> lookupFile q w' = lookupFile q w"
  "fclose p w = (r, w') \<Longrightarrow> lookupFile q w' = lookupFile q w"
  "fseek p w = (r, w') \<Longrightarrow> lookupFile q w' = lookupFile q w"
  "openRead p w = (rb, w') \<Longrightarrow> lookupFile q w' = lookupFile q w"
  by (auto simp: syscall_defs nextOutcome_frame elim!: syscall_cases split: option.splits if_splits)

lemma rename_frame:
  assumes "osRename p p' w = (r, w')" "q \<noteq> p" "q \<noteq> p'"
  shows "lookupFile q w' = lookupFile q w"
  using assms by (auto simp: syscall_defs nextOutcome_frame elim!: syscall_cases split: option.splits)

lemma rename_result:
  assumes "osRename p p' w = (r, w')" "p \<noteq> p'" "lookupFile p w = Some c" "dirExists p' w"
  shows "lookupFile p' w' = (if r = Inr () then Some c else lookupFile p' w)"
  using assms by (auto simp: syscall_defs nextOutcome_frame elim!: syscall_cases split: option.splits)

lemma fwrite_frame:
  assumes "fwrite p b w = (r, w')" "q \<noteq> p"
  shows "lookupFile q w' = lookupFile q w"
  using assms by (auto simp: fwrite_def nextOutcome_frame Let_def split: prod.splits outcome.splits)

lemma fwrite_ok:
  assumes "fwrite p b w = ((n, None), w')" "lookupFile p w = Some c"
  shows "lookupFile p w' = Some (c @ b)"
  using assms by (auto simp: fwrite_def nextOutcome_frame Let_def split: prod.splits outcome.splits)

lemma openTrunc_ok:
  "openTrunc p w = (Inr u, w') \<Longrightarrow> lookupFile p w' = Some []"
  by (auto simp: syscall_defs nextOutcome_frame elim!: syscall_cases split: if_splits)

lemma quietly_frame:
  "q \<noteq> p \<Longrightarrow> lookupFile q (quietly (osRemove p) w) = lookupFile q w"
  "lookupFile q (quietly (fclose p) w) = lookupFile q w"
  using call_frame(3) [of p w _ _ q] call_frame(5) [of p w _ _ q]
  by (auto simp: quietly_def) (metis prod.collapse)+

lemmas disk_frameD = call_frame rename_frame fwrite_frame
lemmas disk_frame = disk_frameD quietly_frame

end
