(* ===== verification/Kora_Manifest.thy ===== *)
theory Kora_Manifest
  imports Kora_Record Kora_Disk
begin

text \<open>
  The manifest (\<open>internal/store/manifest.go\<close>): encoding, atomic replacement through a
  temporary file, and decoding of both on-disk versions with their validation. The lemmas:
  the round trip, that every single-byte change is detected, and that whatever fault or
  crash happens during \<open>writeManifest\<close> the directory holds the old or the new manifest, whole.
\<close>

section \<open>Encoding\<close>

definition manifestName :: bytes where
  "manifestName = str ''MANIFEST''"

definition manifestTmpName :: bytes where
  "manifestTmpName = str ''MANIFEST.tmp''"

record manifest =
  mNextID :: u32
  mOrder :: "u32 list"
  mNextSSTID :: u32
  mSstIDs :: "u32 list"

definition manifestPayload :: "manifest \<Rightarrow> bytes" where
  "manifestPayload m =
     be32 2 @ be32 (mNextID m) @ be32 (of_nat (length (mOrder m))) @ concat (map be32 (mOrder m))
     @ be32 (mNextSSTID m) @ be32 (of_nat (length (mSstIDs m))) @ concat (map be32 (mSstIDs m))"

definition manifestBytes :: "manifest \<Rightarrow> bytes" where
  "manifestBytes m = be32 (crc32 (manifestPayload m)) @ manifestPayload m"

text \<open>
  \<open>writeManifest\<close>: write the temporary file, sync and close it, rename it over the manifest.
  Every failure before the rename removes the temporary file.
\<close>

definition writeManifest :: "manifest \<Rightarrow> world \<Rightarrow> err option \<times> world" where
  "writeManifest m w =
     (let out = manifestBytes m; tmp = Top manifestTmpName in
      case openTrunc tmp w of
        (Inl e, w1) \<Rightarrow> (Some e, w1)
      | (Inr _, w1) \<Rightarrow>
      (case fwrite tmp out w1 of
        ((_, Some e), w2) \<Rightarrow> (Some e, quietly (osRemove tmp) (quietly (fclose tmp) w2))
      | ((_, None), w2) \<Rightarrow>
      (case fsync tmp w2 of
        (Inl e, w3) \<Rightarrow> (Some e, quietly (osRemove tmp) (quietly (fclose tmp) w3))
      | (Inr _, w3) \<Rightarrow>
      (case fclose tmp w3 of
        (Inl e, w4) \<Rightarrow> (Some e, quietly (osRemove tmp) w4)
      | (Inr _, w4) \<Rightarrow>
      (case osRename tmp (Top manifestName) w4 of
        (Inl e, w5) \<Rightarrow> (Some e, w5)
      | (Inr _, w5) \<Rightarrow> (None, w5))))))"

section \<open>Validation and decoding\<close>

text \<open>The loop shared by the two validators: reject a repeated id, track the maximum.\<close>

fun validateLoop :: "u32 list \<Rightarrow> u32 \<Rightarrow> u32 list \<Rightarrow> err + u32" where
  "validateLoop seen maxID [] = Inr maxID"
| "validateLoop seen maxID (i # ids) =
     (if i \<in> set seen then Inl ErrManifestCorrupt
      else validateLoop (i # seen) (if i > maxID then i else maxID) ids)"

definition validateSegments :: "u32 \<Rightarrow> u32 list \<Rightarrow> err + unit" where
  "validateSegments nextID order =
     (case validateLoop [] 0 order of
        Inl e \<Rightarrow> Inl e
      | Inr maxID \<Rightarrow>
          if length order > 0 \<and> nextID \<le> maxID then Inl ErrManifestCorrupt else Inr ())"

definition validateSSTs :: "u32 \<Rightarrow> u32 list \<Rightarrow> err + unit" where
  "validateSSTs nextSSTID sstIDs =
     (case validateLoop [] 0 sstIDs of
        Inl e \<Rightarrow> Inl e
      | Inr maxID \<Rightarrow>
          if length sstIDs > 0 \<and> nextSSTID \<le> maxID then Inl ErrManifestCorrupt else Inr ())"

text \<open>The loop \<open>ids[i] = Uint32(payload[off:]); off += 4\<close>.\<close>

definition readIDs :: "bytes \<Rightarrow> nat \<Rightarrow> nat \<Rightarrow> u32 list" where
  "readIDs payload off count = map (\<lambda>i. get32 (drop (off + 4 * i) payload)) [0..<count]"

definition readManifestV1 :: "bytes \<Rightarrow> err + manifest" where
  "readManifestV1 payload =
     (if length payload < 12 then Inl ErrManifestCorrupt
      else
        let nextID = get32 (take 4 (drop 4 payload));
            count = unat (get32 (take 4 (drop 8 payload)))
        in if length payload \<noteq> 12 + 4 * count then Inl ErrManifestCorrupt
           else
             let order = readIDs payload 12 count
             in case validateSegments nextID order of
                  Inl e \<Rightarrow> Inl e
                | Inr _ \<Rightarrow> Inr \<lparr>mNextID = nextID, mOrder = order, mNextSSTID = 1, mSstIDs = []\<rparr>)"

definition readManifestV2 :: "bytes \<Rightarrow> err + manifest" where
  "readManifestV2 payload =
     (if length payload < 20 then Inl ErrManifestCorrupt
      else
        let nextSegID = get32 (drop 4 payload);
            segCount = unat (get32 (drop 8 payload))
        in if length payload < 12 + 4 * segCount + 8 then Inl ErrManifestCorrupt
           else
             let order = readIDs payload 12 segCount;
                 off = 12 + 4 * segCount;
                 nextSSTID = get32 (drop off payload);
                 sstCount = unat (get32 (drop (off + 4) payload))
             in if length payload \<noteq> off + 8 + 4 * sstCount then Inl ErrManifestCorrupt
                else
                  let sstIDs = readIDs payload (off + 8) sstCount
                  in case validateSegments nextSegID order of
                       Inl e \<Rightarrow> Inl e
                     | Inr _ \<Rightarrow>
                         (case validateSSTs nextSSTID sstIDs of
                            Inl e \<Rightarrow> Inl e
                          | Inr _ \<Rightarrow> Inr \<lparr>mNextID = nextSegID, mOrder = order,
                                         mNextSSTID = nextSSTID, mSstIDs = sstIDs\<rparr>))"

text \<open>\<open>readManifest\<close> after the file has been read.\<close>

definition decodeManifest :: "bytes \<Rightarrow> err + manifest" where
  "decodeManifest b =
     (if length b < 16 then Inl ErrManifestCorrupt
      else
        let storedCRC = get32 (take 4 b); payload = drop 4 b
        in if crc32 payload \<noteq> storedCRC then Inl ErrManifestCorrupt
           else
             let version = get32 (take 4 payload)
             in if version = 1 then readManifestV1 payload
                else if version = 2 then readManifestV2 payload
                else Inl ErrManifestCorrupt)"

definition readManifest :: "world \<Rightarrow> (err + manifest) \<times> world" where
  "readManifest w =
     (case openRead (Top manifestName) w of
        (Inl e, w') \<Rightarrow> (Inl (if e = ErrNotExist then ErrNoManifest else e), w')
      | (Inr b, w') \<Rightarrow> (decodeManifest b, w'))"

section \<open>Validity\<close>

text \<open>What the validators accept: distinct ids below the allocation counter.\<close>

definition idsValid :: "u32 \<Rightarrow> u32 list \<Rightarrow> bool" where
  "idsValid next ids \<longleftrightarrow> distinct ids \<and> (\<forall>i \<in> set ids. i < next)"

definition manifestValid :: "manifest \<Rightarrow> bool" where
  "manifestValid m \<longleftrightarrow> idsValid (mNextID m) (mOrder m) \<and> idsValid (mNextSSTID m) (mSstIDs m)"

lemma validateLoop_spec:
  "validateLoop seen mx ids =
     (if distinct ids \<and> set ids \<inter> set seen = {} then Inr (Max (insert mx (set ids)))
      else Inl ErrManifestCorrupt)"
proof (induction seen mx ids rule: validateLoop.induct)
  case (2 seen mx i ids)
  have "Max (insert (if i > mx then i else mx) (set ids)) = Max (insert mx (insert i (set ids)))"
    by (cases "ids = []") (auto simp: max_def insert_commute)
  with 2 show ?case by auto
qed simp

lemma validate_spec:
  "(case validateLoop [] 0 ids of
      Inl e \<Rightarrow> Inl e
    | Inr mx \<Rightarrow> if length ids > 0 \<and> next \<le> mx then Inl ErrManifestCorrupt else Inr ()) =
   (if idsValid next ids then Inr () else Inl ErrManifestCorrupt)"
proof -
  have "next \<le> Max (insert 0 (set ids)) \<longleftrightarrow> \<not> (\<forall>i \<in> set ids. i < next)" if "ids \<noteq> []"
  proof -
    have "Max (insert 0 (set ids)) = Max (set ids)"
      using that by (cases ids) (auto simp: Max_insert2 max_def)
    then show ?thesis using that by (simp add: Max_ge_iff not_less Bex_def)
  qed
  then show ?thesis by (cases "ids = []") (simp_all add: validateLoop_spec idsValid_def)
qed

lemmas validateSegments_spec = validateSegments_def [unfolded validate_spec]
lemmas validateSSTs_spec = validateSSTs_def [unfolded validate_spec]

section \<open>Round trip\<close>

lemma length_concat_be32 [simp]: "length (concat (map be32 ids)) = 4 * length ids"
  by (induction ids) auto

lemma get32_drop_ids:
  "i < length ids \<Longrightarrow> get32 (drop (4 * i) (concat (map be32 ids)) @ r) = ids ! i"
proof (induction ids arbitrary: i)
  case (Cons x ids)
  then show ?case by (cases i) auto
qed simp

lemma readIDs_append:
  assumes "length pre = off"
  shows "readIDs (pre @ concat (map be32 ids) @ r) off (length ids) = ids"
  using assms by (intro nth_equalityI) (simp_all add: readIDs_def get32_drop_ids)

lemma length_manifestPayload:
  "length (manifestPayload m) = 20 + 4 * length (mOrder m) + 4 * length (mSstIDs m)"
  by (simp add: manifestPayload_def)

lemma readManifestV2_payload:
  assumes "length (mOrder m) < 2 ^ 32" "length (mSstIDs m) < 2 ^ 32"
  shows "readManifestV2 (manifestPayload m) = (if manifestValid m then Inr m else Inl ErrManifestCorrupt)"
proof -
  let ?p = "manifestPayload m" and ?n = "length (mOrder m)" and ?k = "length (mSstIDs m)"
  have hdr: "get32 (drop 4 ?p) = mNextID m" "get32 (drop 8 ?p) = of_nat ?n"
    "get32 (drop (12 + 4 * ?n) ?p) = mNextSSTID m" "get32 (drop (12 + 4 * ?n + 4) ?p) = of_nat ?k"
    by (simp_all add: manifestPayload_def)
  have u: "unat (of_nat ?n :: u32) = ?n" "unat (of_nat ?k :: u32) = ?k" using assms by simp_all
  have ids: "readIDs ?p 12 ?n = mOrder m"
    using readIDs_append [of "be32 2 @ be32 (mNextID m) @ be32 (of_nat ?n)" 12 "mOrder m"]
    by (simp add: manifestPayload_def)
  have ssts: "readIDs ?p (12 + 4 * ?n + 8) ?k = mSstIDs m"
    using readIDs_append [of "be32 2 @ be32 (mNextID m) @ be32 (of_nat ?n) @ concat (map be32 (mOrder m))
        @ be32 (mNextSSTID m) @ be32 (of_nat ?k)" "12 + 4 * ?n + 8" "mSstIDs m" "[]"]
    by (simp add: manifestPayload_def)
  show ?thesis
    unfolding readManifestV2_def Let_def hdr u ids ssts
    by (simp add: length_manifestPayload validateSegments_spec validateSSTs_spec manifestValid_def)
qed

lemma decodeManifest_bytes:
  assumes "length (mOrder m) < 2 ^ 32" "length (mSstIDs m) < 2 ^ 32"
  shows "decodeManifest (manifestBytes m) = (if manifestValid m then Inr m else Inl ErrManifestCorrupt)"
proof -
  have v: "get32 (take 4 (manifestPayload m)) = 2" by (simp add: manifestPayload_def)
  show ?thesis
    unfolding readManifestV2_payload [OF assms, symmetric]
    by (simp add: decodeManifest_def manifestBytes_def length_manifestPayload v)
qed

section \<open>Writing in a calm world\<close>

lemma manifest_names [simp]: "manifestName \<noteq> manifestTmpName" "manifestTmpName \<noteq> manifestName"
  by (simp_all add: manifestName_def manifestTmpName_def)

lemma writeManifest_calm:
  assumes "calm w"
  shows "\<exists>w'. writeManifest m w = (None, w') \<and> calm w' \<and>
    lookupFile (Top manifestName) w' = Some (manifestBytes m) \<and>
    (\<forall>p. p \<noteq> Top manifestName \<and> p \<noteq> Top manifestTmpName \<longrightarrow> lookupFile p w' = lookupFile p w) \<and>
    sstdir w' = sstdir w"
  using assms by (simp add: writeManifest_def Let_def)

section \<open>Writing under faults and crashes\<close>

lemma writeManifest_frame:
  assumes "writeManifest m w = (eo, w')"
    and "p \<noteq> Top manifestName" "p \<noteq> Top manifestTmpName"
  shows "lookupFile p w' = lookupFile p w"
  using assms
  by (auto simp: writeManifest_def Let_def disk_frame
      split: prod.splits sum.splits option.splits dest!: call_frame [where q = p] rename_frame [where q = p] fwrite_frame [where q = p])

text \<open>The successful prefix of the protocol, up to and including the rename.\<close>

lemma replace_by_rename:
  assumes "openTrunc t w = (Inr u, w1)" "fwrite t b w1 = ((n, None), w2)"
    and "fsync t w2 = (r3, w3)" "fclose t w3 = (r4, w4)" "osRename t q w4 = (r, w')"
    and "t \<noteq> q" "dirExists q w4"
  shows "lookupFile q w' = (if r = Inr () then Some b else lookupFile q w)"
proof -
  have "lookupFile t w2 = Some b" using fwrite_ok [OF assms(2) openTrunc_ok [OF assms(1)]] by simp
  then have "lookupFile t w4 = Some b" using call_frame(4,5) assms(3,4) by metis
  moreover have "lookupFile q w4 = lookupFile q w"
    using call_frame(1,4,5) fwrite_frame assms(1-4,6) by metis
  ultimately show ?thesis using rename_result [OF assms(5,6) _ assms(7)] by simp
qed

lemma writeManifest_result:
  assumes "writeManifest m w = (eo, w')"
  shows "lookupFile (Top manifestName) w' =
    (if eo = None then Some (manifestBytes m) else lookupFile (Top manifestName) w)"
  using assms
  by (auto simp: writeManifest_def Let_def disk_frame split: prod.splits sum.splits option.splits
      dest: disk_frameD(1,4,5) [where q = "Top manifestName"] fwrite_frame [where q = "Top manifestName"]
        replace_by_rename)

section \<open>Properties\<close>

text \<open>
  C36: Round trip: the file image of a manifest with at most \<open>2^32 - 1\<close> ids of each kind decodes to
  the manifest itself exactly when its ids are distinct and below the allocation counters,
  and is rejected as corrupt otherwise.
\<close>

theorem manifest_roundtrip:
  assumes "length (mOrder m) < 2 ^ 32" "length (mSstIDs m) < 2 ^ 32"
  shows "decodeManifest (manifestBytes m) = (if manifestValid m then Inr m else Inl ErrManifestCorrupt)"
  using assms by (rule decodeManifest_bytes)

theorem manifest_roundtrip_witness:
  "decodeManifest (manifestBytes \<lparr>mNextID = 5, mOrder = [4, 2], mNextSSTID = 2, mSstIDs = [1]\<rparr>)
     = Inr \<lparr>mNextID = 5, mOrder = [4, 2], mNextSSTID = 2, mSstIDs = [1]\<rparr> \<and>
   decodeManifest (manifestBytes \<lparr>mNextID = 4, mOrder = [4, 2], mNextSSTID = 2, mSstIDs = []\<rparr>)
     = Inl ErrManifestCorrupt"
  using manifest_roundtrip [of "\<lparr>mNextID = 5, mOrder = [4, 2], mNextSSTID = 2, mSstIDs = [1]\<rparr>"]
    manifest_roundtrip [of "\<lparr>mNextID = 4, mOrder = [4, 2], mNextSSTID = 2, mSstIDs = []\<rparr>"]
  by (simp add: manifestValid_def idsValid_def)

text \<open>C37: Corruption: changing any single byte of a manifest file makes the store refuse it.\<close>

theorem manifest_detects_corruption:
  assumes "i < length (manifestBytes m)" and "b \<noteq> manifestBytes m ! i"
  shows "decodeManifest ((manifestBytes m)[i := b]) = Inl ErrManifestCorrupt"
proof -
  let ?p = "manifestPayload m" and ?c = "be32 (crc32 (manifestPayload m))"
  have bad: "decodeManifest (c @ p) = Inl ErrManifestCorrupt"
    if "length c = 4" "length p = length ?p" "crc32 p \<noteq> get32 c" for c p
    using that by (simp add: decodeManifest_def length_manifestPayload)
  show ?thesis
  proof (cases "i < 4")
    case True
    have "be32 (get32 (?c[i := b])) \<noteq> ?c"
      using True assms(2) by (metis be32_get32 length_be32 length_list_update manifestBytes_def
          nth_append nth_list_update_eq)
    then have "get32 (?c[i := b]) \<noteq> crc32 ?p" by metis
    with True bad [of "?c[i := b]" ?p] show ?thesis
      by (simp add: manifestBytes_def list_update_append)
  next
    case False
    then have "crc32 (?p[i - 4 := b]) \<noteq> crc32 ?p"
      using assms by (intro crc32_update) (auto simp: manifestBytes_def nth_append)
    with False bad [of ?c "?p[i - 4 := b]"] show ?thesis
      by (simp add: manifestBytes_def list_update_append)
  qed
qed

theorem manifest_detects_corruption_witness:
  "\<exists>b. decodeManifest ((manifestBytes \<lparr>mNextID = 2, mOrder = [1], mNextSSTID = 1, mSstIDs = []\<rparr>)[9 := b])
     = Inl ErrManifestCorrupt"
proof -
  let ?m = "\<lparr>mNextID = 2, mOrder = [1], mNextSSTID = 1, mSstIDs = []\<rparr>"
  have "9 < length (manifestBytes ?m)" by (simp add: manifestBytes_def length_manifestPayload)
  from manifest_detects_corruption [OF this, of "manifestBytes ?m ! 9 + 1"] show ?thesis by auto
qed

text \<open>
  C22: Atomic commit: run \<open>writeManifest\<close> against any disk and any script of failures, partial
  writes and crashes. If it returns no error the manifest file is the new one, byte for
  byte; otherwise it is what it was before. No other file than the temporary one changes.
\<close>

theorem writeManifest_atomic:
  "let (eo, w') = writeManifest m w
   in lookupFile (Top manifestName) w' =
        (if eo = None then Some (manifestBytes m) else lookupFile (Top manifestName) w) \<and>
      (\<forall>p. p = Top manifestName \<or> p = Top manifestTmpName \<or> lookupFile p w' = lookupFile p w)"
  using writeManifest_result [of m w] writeManifest_frame [of m w]
  by (cases "writeManifest m w") auto

text \<open>
  Version 1 manifests still load: their segment order is kept, the SSTable list is empty and
  the next SSTable id is 1.
\<close>

theorem manifest_v1_compatible:
  assumes "length order < 2 ^ 32" and "idsValid next order"
    and "payload = be32 1 @ be32 next @ be32 (of_nat (length order)) @ concat (map be32 order)"
  shows "decodeManifest (be32 (crc32 payload) @ payload) =
    Inr \<lparr>mNextID = next, mOrder = order, mNextSSTID = 1, mSstIDs = []\<rparr>"
proof -
  have ids: "readIDs payload 12 (length order) = order"
    using readIDs_append [of "be32 1 @ be32 next @ be32 (of_nat (length order))" 12 order "[]"]
    by (simp add: assms(3))
  have u: "unat (of_nat (length order) :: u32) = length order" using assms(1) by simp
  show ?thesis
    using ids assms(2)
    by (simp add: decodeManifest_def readManifestV1_def validateSegments_spec u)
      (simp add: assms(3) readManifestV1_def validateSegments_spec u)
qed

theorem manifest_v1_compatible_witness:
  "\<exists>payload. decodeManifest (be32 (crc32 payload) @ payload) =
     Inr \<lparr>mNextID = 4, mOrder = [3, 1], mNextSSTID = 1, mSstIDs = []\<rparr>"
  using manifest_v1_compatible [of "[3, 1]" 4] by (auto simp: idsValid_def)

end
