(* ===== verification/Kora_Heap.thy ===== *)
theory Kora_Heap
  imports Kora_Prelude "HOL-Library.Multiset"
begin

text \<open>
  The part of Go's \<open>container/heap\<close> that the merges of \<open>internal/store/scan.go\<close> and
  \<open>internal/store/sst_compact.go\<close> use: \<open>Push\<close> and \<open>Pop\<close> on a slice, with the sift loops
  \<open>up\<close> and \<open>down\<close>. The contract of a priority queue is the locale \<open>prio_queue\<close>; the slice
  heap satisfies it for every strict weak order.
\<close>

section \<open>Operations\<close>

definition swapAt :: "'e list \<Rightarrow> nat \<Rightarrow> nat \<Rightarrow> 'e list" where
  "swapAt xs i j = xs[i := xs ! j, j := xs ! i]"

text \<open>\<open>i := (j - 1) / 2\<close>; Go's division truncates, so index 0 is its own parent.\<close>

definition par :: "nat \<Rightarrow> nat" where
  "par j = (j - 1) div 2"

lemma par_less: "0 < i \<Longrightarrow> par i < i"
  by (auto simp: par_def)

lemma par_le: "par i \<le> i" and par_0 [simp]: "par 0 = 0"
  by (simp_all add: par_def)

lemma par_children [simp]: "par (Suc (2 * i)) = i" "par (Suc (Suc (2 * i))) = i"
  by (simp_all add: par_def)

lemma par_child: "0 < i \<Longrightarrow> par i = k \<longleftrightarrow> i = 2 * k + 1 \<or> i = 2 * k + 2"
  by (auto simp: par_def)

function heapUp :: "('e \<Rightarrow> 'e \<Rightarrow> bool) \<Rightarrow> 'e list \<Rightarrow> nat \<Rightarrow> 'e list" where
  "heapUp lt xs j =
     (let i = par j
      in if i = j \<or> \<not> lt (xs ! j) (xs ! i) then xs
         else heapUp lt (swapAt xs i j) i)"
  by pat_completeness auto
termination
  by (relation "measure (\<lambda>(_, _, j). j)") (auto simp: par_def)

function heapDown :: "('e \<Rightarrow> 'e \<Rightarrow> bool) \<Rightarrow> 'e list \<Rightarrow> nat \<Rightarrow> nat \<Rightarrow> 'e list" where
  "heapDown lt xs i n =
     (let j1 = 2 * i + 1
      in if j1 \<ge> n then xs
         else
           let j2 = j1 + 1;
               j = (if j2 < n \<and> lt (xs ! j2) (xs ! j1) then j2 else j1)
           in if \<not> lt (xs ! j) (xs ! i) then xs
              else heapDown lt (swapAt xs i j) j n)"
  by pat_completeness auto
termination
  by (relation "measure (\<lambda>(_, _, i, n). n - i)") (auto simp: Let_def)

declare heapUp.simps [simp del] heapDown.simps [simp del]

definition heapPush :: "('e \<Rightarrow> 'e \<Rightarrow> bool) \<Rightarrow> 'e list \<Rightarrow> 'e \<Rightarrow> 'e list" where
  "heapPush lt xs x = heapUp lt (xs @ [x]) (length xs)"

text \<open>\<open>Pop\<close> on a non-empty heap.\<close>

definition heapPop :: "('e \<Rightarrow> 'e \<Rightarrow> bool) \<Rightarrow> 'e list \<Rightarrow> 'e \<times> 'e list" where
  "heapPop lt xs =
     (let n = length xs - 1;
          ys = heapDown lt (swapAt xs 0 n) 0 n
      in (ys ! n, take n ys))"

section \<open>The contract of a priority queue\<close>

locale prio_queue =
  fixes push :: "'q \<Rightarrow> 'e \<Rightarrow> 'q"
    and pop :: "'q \<Rightarrow> 'e \<times> 'q"
    and content :: "'q \<Rightarrow> 'e multiset"
    and inv :: "'q \<Rightarrow> bool"
    and lt :: "'e \<Rightarrow> 'e \<Rightarrow> bool"
  assumes push_inv: "inv q \<Longrightarrow> inv (push q x)"
    and push_content: "content (push q x) = add_mset x (content q)"
    and pop_inv: "inv q \<Longrightarrow> content q \<noteq> {#} \<Longrightarrow> inv (snd (pop q))"
    and pop_content: "content q \<noteq> {#} \<Longrightarrow> content q = add_mset (fst (pop q)) (content (snd (pop q)))"
    and pop_min: "inv q \<Longrightarrow> y \<in># content q \<Longrightarrow> \<not> lt y (fst (pop q))"
begin

lemma pop_size: "content q \<noteq> {#} \<Longrightarrow> size (content q) = Suc (size (content (snd (pop q))))"
  by (metis pop_content size_add_mset)

end

section \<open>Heap order\<close>

locale weak_order =
  fixes lt :: "'e \<Rightarrow> 'e \<Rightarrow> bool"
  assumes asym: "lt x y \<Longrightarrow> \<not> lt y x"
    and le_trans: "\<not> lt y x \<Longrightarrow> \<not> lt z y \<Longrightarrow> \<not> lt z x"

definition isHeap :: "('e \<Rightarrow> 'e \<Rightarrow> bool) \<Rightarrow> 'e list \<Rightarrow> bool" where
  "isHeap lt xs \<longleftrightarrow> (\<forall>i < length xs. 0 < i \<longrightarrow> \<not> lt (xs ! i) (xs ! par i))"

lemma length_swapAt [simp]: "length (swapAt xs i j) = length xs"
  by (simp add: swapAt_def)

lemma mset_swapAt [simp]: "i < length xs \<Longrightarrow> j < length xs \<Longrightarrow> mset (swapAt xs i j) = mset xs"
  by (simp add: swapAt_def mset_swap)

lemma nth_swapAt:
  "i < length xs \<Longrightarrow> j < length xs \<Longrightarrow>
     swapAt xs i j ! k = (if k = j then xs ! i else if k = i then xs ! j else xs ! k)"
  by (auto simp: swapAt_def nth_list_update)

lemma heapUp_mset: "j < length xs \<Longrightarrow> mset (heapUp lt xs j) = mset xs"
proof (induction lt xs j rule: heapUp.induct)
  case (1 lt xs j)
  show ?case
  proof (cases "par j = j \<or> \<not> lt (xs ! j) (xs ! par j)")
    case True
    then show ?thesis by (subst heapUp.simps) (simp add: Let_def)
  next
    case False
    then show ?thesis using 1 par_le [of j] by (subst heapUp.simps) (simp add: Let_def)
  qed
qed

lemma heapDown_mset: "n \<le> length xs \<Longrightarrow> i < length xs \<Longrightarrow> mset (heapDown lt xs i n) = mset xs"
  and heapDown_above: "n \<le> length xs \<Longrightarrow> i < length xs \<Longrightarrow> i < n \<or> n = 0 \<Longrightarrow> n \<le> k \<Longrightarrow> heapDown lt xs i n ! k = xs ! k"
proof (induction lt xs i n rule: heapDown.induct)
  case (1 lt xs i n)
  define j where "j = (if 2 * i + 2 < n \<and> lt (xs ! (2 * i + 2)) (xs ! (2 * i + 1)) then 2 * i + 2 else 2 * i + 1)"
  have step: "heapDown lt xs i n =
      (if 2 * i + 1 \<ge> n \<or> \<not> lt (xs ! j) (xs ! i) then xs else heapDown lt (swapAt xs i j) j n)"
    by (subst heapDown.simps) (simp add: Let_def j_def)
  {
    case 1
    then show ?case using "1.IH"(1) [OF refl _ refl refl] by (auto simp: step j_def)
  next
    case 2
    then show ?case using "1.IH"(2) [OF refl _ refl refl] by (auto simp: step j_def nth_swapAt)
  }
qed

text \<open>A heap but for the element at \<open>j\<close>, which may be too small (up) or too large (down).\<close>

definition upInv :: "('e \<Rightarrow> 'e \<Rightarrow> bool) \<Rightarrow> 'e list \<Rightarrow> nat \<Rightarrow> bool" where
  "upInv lt xs j \<longleftrightarrow> j < length xs \<and>
     (\<forall>i < length xs. 0 < i \<longrightarrow> i \<noteq> j \<longrightarrow> \<not> lt (xs ! i) (xs ! par i)) \<and>
     (\<forall>i < length xs. 0 < i \<longrightarrow> par i = j \<longrightarrow> 0 < j \<longrightarrow> \<not> lt (xs ! i) (xs ! par j))"

definition downInv :: "('e \<Rightarrow> 'e \<Rightarrow> bool) \<Rightarrow> 'e list \<Rightarrow> nat \<Rightarrow> nat \<Rightarrow> bool" where
  "downInv lt xs j n \<longleftrightarrow> n \<le> length xs \<and>
     (\<forall>i < n. 0 < i \<longrightarrow> par i \<noteq> j \<longrightarrow> \<not> lt (xs ! i) (xs ! par i)) \<and>
     (\<forall>i < n. 0 < i \<longrightarrow> par i = j \<longrightarrow> 0 < j \<longrightarrow> \<not> lt (xs ! i) (xs ! par j))"

context weak_order
begin

lemma refl_le: "\<not> lt x x"
  using asym by blast

lemma upInv_step:
  assumes inv: "upInv lt xs j" and j: "0 < j" "lt (xs ! j) (xs ! par j)"
  shows "upInv lt (swapAt xs (par j) j) (par j)"
proof -
  have jl: "j < length xs" "par j < length xs" using inv par_less [OF j(1)] by (auto simp: upInv_def)
  let ?ys = "swapAt xs (par j) j"
  have nth: "?ys ! k = (if k = j then xs ! par j else if k = par j then xs ! j else xs ! k)" for k
    using nth_swapAt [OF jl(2,1)] .
  have A: "\<not> lt (xs ! i) (xs ! par i)" if "i < length xs" "0 < i" "i \<noteq> j" for i
    using inv that by (simp add: upInv_def)
  have B: "\<not> lt (xs ! i) (xs ! par j)" if "i < length xs" "0 < i" "par i = j" for i
    using inv that j(1) by (simp add: upInv_def)
  have "\<not> lt (?ys ! i) (?ys ! par i)" if i: "i < length xs" "0 < i" "i \<noteq> par j" for i
  proof -
    consider "i = j" | "i \<noteq> j" "par i = j" | "i \<noteq> j" "par i = par j" | "i \<noteq> j" "par i \<noteq> j" "par i \<noteq> par j"
      by blast
    then show ?thesis
    proof cases
      case 1
      then show ?thesis using asym [OF j(2)] par_less [OF j(1)] by (simp add: nth)
    next
      case 2
      then show ?thesis using B [OF i(1,2)] i(3) by (simp add: nth)
    next
      case 3
      have "\<not> lt (xs ! par j) (xs ! j)" using asym [OF j(2)] .
      moreover have "\<not> lt (xs ! i) (xs ! par j)" using A [OF i(1,2) 3(1)] 3(2) by simp
      ultimately have "\<not> lt (xs ! i) (xs ! j)" by (rule le_trans)
      then show ?thesis using 3 i(3) par_less [OF j(1)] by (simp add: nth)
    next
      case 4
      then show ?thesis using A [OF i(1,2) 4(1)] i(3) by (simp add: nth)
    qed
  qed
  moreover have "\<not> lt (?ys ! i) (?ys ! par (par j))"
    if i: "i < length xs" "0 < i" "par i = par j" "0 < par j" for i
  proof -
    have pp: "par (par j) \<noteq> j" "par (par j) \<noteq> par j" using par_less [OF j(1)] par_less [OF i(4)] by linarith+
    have up: "\<not> lt (xs ! par j) (xs ! par (par j))" using A [of "par j"] jl(2) i(4) par_less [OF j(1)] by simp
    show ?thesis
    proof (cases "i = j")
      case True
      then show ?thesis using up pp by (simp add: nth)
    next
      case False
      have "\<not> lt (xs ! i) (xs ! par j)" using A [OF i(1,2) False] i(3) by simp
      from le_trans [OF up this] show ?thesis using False pp par_less [OF i(2)] i(3) by (simp add: nth)
    qed
  qed
  ultimately show ?thesis using jl by (simp add: upInv_def)
qed

lemma heapUp_isHeap: "upInv lt xs j \<Longrightarrow> isHeap lt (heapUp lt xs j)"
proof (induction j arbitrary: xs rule: less_induct)
  case (less j)
  show ?case
  proof (cases "0 < j \<and> lt (xs ! j) (xs ! par j)")
    case True
    then have "isHeap lt (heapUp lt (swapAt xs (par j) j) (par j))"
      using less.prems by (intro less.IH upInv_step par_less) auto
    then show ?thesis using True par_less [of j] by (subst heapUp.simps) (simp add: Let_def)
  next
    case False
    then have "heapUp lt xs j = xs" using refl_le by (subst heapUp.simps) (auto simp: Let_def)
    then show ?thesis using less.prems False by (auto simp: upInv_def isHeap_def)
  qed
qed

lemma downInv_step:
  assumes inv: "downInv lt xs i n" and j: "par j = i" "0 < j" "j < n" and lt: "lt (xs ! j) (xs ! i)"
    and least: "\<And>k. par k = i \<Longrightarrow> 0 < k \<Longrightarrow> k < n \<Longrightarrow> \<not> lt (xs ! k) (xs ! j)"
  shows "downInv lt (swapAt xs i j) j n"
proof -
  have ij: "i < j" "i < length xs" "j < length xs" using par_less [OF j(2)] j inv by (auto simp: downInv_def)
  let ?ys = "swapAt xs i j"
  have nth: "?ys ! k = (if k = j then xs ! i else if k = i then xs ! j else xs ! k)" for k
    using nth_swapAt [OF ij(2,3)] .
  have A: "\<not> lt (xs ! k) (xs ! par k)" if "k < n" "0 < k" "par k \<noteq> i" for k
    using inv that by (simp add: downInv_def)
  have B: "\<not> lt (xs ! k) (xs ! par i)" if "k < n" "0 < k" "par k = i" "0 < i" for k
    using inv that by (simp add: downInv_def)
  have "\<not> lt (?ys ! k) (?ys ! par k)" if k: "k < n" "0 < k" "par k \<noteq> j" for k
  proof -
    consider "par k = i" "k = j" | "par k = i" "k \<noteq> j" | "par k \<noteq> i" "k = i" | "par k \<noteq> i" "k \<noteq> i" "k \<noteq> j"
      using j(1) by blast
    then show ?thesis
    proof cases
      case 1
      then show ?thesis using asym [OF lt] ij(1) by (simp add: nth)
    next
      case 2
      then show ?thesis using least [OF 2(1) k(2,1)] par_less [OF k(2)] ij(1) by (simp add: nth)
    next
      case 3
      then show ?thesis using B [OF j(3,2,1)] k(2,3) ij(1) by (simp add: nth)
    next
      case 4
      then show ?thesis using A [OF k(1,2) 4(1)] k(3) by (simp add: nth)
    qed
  qed
  moreover have "\<not> lt (?ys ! k) (?ys ! par j)" if k: "k < n" "0 < k" "par k = j" for k
  proof -
    have "k \<noteq> j" "k \<noteq> i" using par_less [OF k(2)] k(3) ij(1) by linarith+
    moreover have "\<not> lt (xs ! k) (xs ! j)" using A [OF k(1,2)] k(3) ij(1) by simp
    ultimately show ?thesis using j(1) ij(1) by (simp add: nth)
  qed
  ultimately show ?thesis using inv by (simp add: downInv_def)
qed

lemma heapDown_isHeap: "downInv lt xs i n \<Longrightarrow> isHeap lt (take n (heapDown lt xs i n))"
proof (induction "n - i" arbitrary: xs i rule: less_induct)
  case less
  define j where "j = (if 2 * i + 2 < n \<and> lt (xs ! (2 * i + 2)) (xs ! (2 * i + 1)) then 2 * i + 2 else 2 * i + 1)"
  have step: "heapDown lt xs i n =
      (if 2 * i + 1 \<ge> n \<or> \<not> lt (xs ! j) (xs ! i) then xs else heapDown lt (swapAt xs i j) j n)"
    by (subst heapDown.simps) (simp add: Let_def j_def)
  have kids: "\<not> lt (xs ! k) (xs ! j)" if "par k = i" "0 < k" "k < n" for k
    using that asym refl_le unfolding par_child [OF that(2)] by (auto simp: j_def)
  show ?case
  proof (cases "2 * i + 1 < n \<and> lt (xs ! j) (xs ! i)")
    case True
    then have j: "par j = i" "0 < j" "j < n" by (auto simp: j_def)
    have "downInv lt (swapAt xs i j) j n" using downInv_step [OF less.prems j] True kids by blast
    then have "isHeap lt (take n (heapDown lt (swapAt xs i j) j n))"
      using j True by (intro less.hyps) (auto simp: j_def)
    then show ?thesis using True step by simp
  next
    case False
    have "\<not> lt (xs ! k) (xs ! i)" if k: "par k = i" "0 < k" "k < n" for k
    proof -
      have "2 * i + 1 < n" using k par_child by auto
      then have "\<not> lt (xs ! j) (xs ! i)" using False by blast
      from le_trans [OF this kids [OF k]] show ?thesis .
    qed
    then have "\<not> lt (xs ! k) (xs ! par k)" if "k < n" "0 < k" for k
      using that less.prems by (cases "par k = i") (auto simp: downInv_def)
    moreover have "heapDown lt xs i n = xs" using False step by auto
    moreover have "take n xs ! par k = xs ! par k" if "k < n" "0 < k" for k
      using that par_less [OF that(2)] by simp
    ultimately show ?thesis using less.prems by (simp add: isHeap_def downInv_def)
  qed
qed

lemma isHeap_min: "isHeap lt xs \<Longrightarrow> i < length xs \<Longrightarrow> \<not> lt (xs ! i) (xs ! 0)"
proof (induction i rule: less_induct)
  case (less i)
  show ?case
  proof (cases "i = 0")
    case True
    then show ?thesis by (simp add: refl_le)
  next
    case False
    then have "par i < i" by (simp add: par_less)
    then have "\<not> lt (xs ! par i) (xs ! 0)" using less by auto
    moreover have "\<not> lt (xs ! i) (xs ! par i)" using less.prems False by (simp add: isHeap_def)
    ultimately show ?thesis by (rule le_trans)
  qed
qed

lemma heapPush_isHeap: "isHeap lt xs \<Longrightarrow> isHeap lt (heapPush lt xs x)"
  unfolding heapPush_def
proof (rule heapUp_isHeap)
  assume h: "isHeap lt xs"
  have "\<not> lt ((xs @ [x]) ! i) ((xs @ [x]) ! par i)" if "i < length xs" "0 < i" for i
    using h that par_less [OF that(2)] by (simp add: isHeap_def nth_append)
  moreover have "\<not> (i < Suc (length xs) \<and> 0 < i \<and> par i = length xs)" for i using par_less [of i] by auto
  ultimately show "upInv lt (xs @ [x]) (length xs)" by (auto simp: upInv_def less_Suc_eq)
qed

lemma heapPop_spec:
  assumes "xs \<noteq> []"
  shows "mset xs = add_mset (fst (heapPop lt xs)) (mset (snd (heapPop lt xs)))"
    and "fst (heapPop lt xs) = xs ! 0"
    and "isHeap lt xs \<Longrightarrow> isHeap lt (snd (heapPop lt xs))"
proof -
  define n where "n = length xs - 1"
  have n: "Suc n = length xs" "n < length xs" using assms by (auto simp: n_def)
  define ys where "ys = heapDown lt (swapAt xs 0 n) 0 n"
  have ms: "mset ys = mset xs" using heapDown_mset [of n "swapAt xs 0 n" 0 lt] n assms by (simp add: ys_def)
  have len: "length ys = Suc n" using ms n(1) by (metis size_mset)
  have last: "ys ! n = xs ! 0"
    using heapDown_above [of n "swapAt xs 0 n" 0 n lt] n assms nth_swapAt [of 0 xs n n] by (auto simp: ys_def)
  have pop: "heapPop lt xs = (ys ! n, take n ys)" by (simp add: heapPop_def ys_def n_def Let_def)
  have "ys = take n ys @ [ys ! n]" using len by (metis lessI take_Suc_conv_app_nth take_all order_refl)
  then have "mset ys = add_mset (ys ! n) (mset (take n ys))" by (metis union_code add_mset_add_single mset.simps mset_append)
  then show "mset xs = add_mset (fst (heapPop lt xs)) (mset (snd (heapPop lt xs)))" using ms pop by simp
  show "fst (heapPop lt xs) = xs ! 0" using pop last by simp
  assume h: "isHeap lt xs"
  have "swapAt xs 0 n ! k = xs ! k" if "k < n" "0 < k" for k
    using that n assms nth_swapAt [of 0 xs n k] by simp
  moreover have "par k < n" if "k < n" for k using that par_le [of k] by simp
  ultimately have "downInv lt (swapAt xs 0 n) 0 n"
    using h n by (simp add: downInv_def isHeap_def)
  then show "isHeap lt (snd (heapPop lt xs))" using heapDown_isHeap pop by (simp add: ys_def)
qed

lemma heap_prio_queue: "prio_queue (heapPush lt) (heapPop lt) mset (isHeap lt) lt"
proof
  fix q :: "'e list" and x y
  show "isHeap lt q \<Longrightarrow> isHeap lt (heapPush lt q x)" by (rule heapPush_isHeap)
  show "mset (heapPush lt q x) = add_mset x (mset q)" by (simp add: heapPush_def heapUp_mset)
  show "isHeap lt q \<Longrightarrow> mset q \<noteq> {#} \<Longrightarrow> isHeap lt (snd (heapPop lt q))" by (simp add: heapPop_spec(3))
  show "mset q \<noteq> {#} \<Longrightarrow> mset q = add_mset (fst (heapPop lt q)) (mset (snd (heapPop lt q)))"
    by (rule heapPop_spec(1)) simp
  show "\<not> lt y (fst (heapPop lt q))" if h: "isHeap lt q" and y: "y \<in># mset q"
  proof -
    obtain i where "i < length q" "y = q ! i" using y by (auto simp: in_set_conv_nth)
    then show ?thesis using isHeap_min [OF h] heapPop_spec(2) [of q] by (cases q) auto
  qed
qed

end

end
