(* ===== verification/Kora_Bloom.thy ===== *)
theory Kora_Bloom
  imports Kora_Prelude
begin

text \<open>
  Package bloom (\<open>internal/bloom/bloom.go\<close>) with the FNV-1a hash of \<open>hash/fnv\<close>. Division by
  zero and out-of-range indices are the value \<open>Panic\<close>. The lemmas: a well-formed filter never
  panics, never forgets a key, and survives serialisation through \<open>Bytes\<close>, \<open>K\<close> and \<open>Load\<close>.
  What a client may rely on is stated as the locale \<open>approx_set\<close>.
\<close>

section \<open>Package hash/fnv\<close>

definition fnvByte :: "u64 \<Rightarrow> byte \<Rightarrow> u64" where
  "fnvByte h b = (h XOR ucast b) * 1099511628211"

definition fnv1a64 :: "bytes \<Rightarrow> u64" where
  "fnv1a64 key = foldl fnvByte 14695981039346656037 key"

section \<open>The filter\<close>

definition defaultK :: u32 where
  "defaultK = 7"

record Filter =
  fbits :: bytes
  fm :: u32
  fk :: u32

definition New :: "int \<Rightarrow> Filter" where
  "New n0 =
     (let n = (if n0 \<le> 0 then 1 else n0);
          byteCount = (n * 10 + 7) div 8
      in \<lparr>fbits = replicate (nat byteCount) 0, fm = of_int (byteCount * 8), fk = defaultK\<rparr>)"

definition hashes :: "bytes \<Rightarrow> u32 \<times> u32" where
  "hashes key = (let sum = fnv1a64 key in (ucast sum, ucast (drop_bit 32 sum)))"

text \<open>The probe position of step \<open>i\<close>; all arithmetic is on \<open>uint32\<close> and wraps.\<close>

definition probe :: "Filter \<Rightarrow> bytes \<Rightarrow> nat \<Rightarrow> u32" where
  "probe f key i = (let (h1, h2) = hashes key in (h1 + of_nat i * h2) mod fm f)"

definition setProbe :: "u32 \<Rightarrow> bytes \<Rightarrow> err + bytes" where
  "setProbe b bs =
     (let j = unat (drop_bit 3 b)
      in if j < length bs then Inr (bs[j := bs ! j OR push_bit (unat (b AND 7)) 1])
         else Inl Panic)"

definition testProbe :: "u32 \<Rightarrow> bytes \<Rightarrow> err + bool" where
  "testProbe b bs =
     (let j = unat (drop_bit 3 b)
      in if j < length bs then Inr (bs ! j AND push_bit (unat (b AND 7)) 1 \<noteq> 0)
         else Inl Panic)"

fun addLoop :: "u32 list \<Rightarrow> bytes \<Rightarrow> err + bytes" where
  "addLoop [] bs = Inr bs"
| "addLoop (b # ps) bs =
     (case setProbe b bs of Inl e \<Rightarrow> Inl e | Inr bs' \<Rightarrow> addLoop ps bs')"

fun hasLoop :: "u32 list \<Rightarrow> bytes \<Rightarrow> err + bool" where
  "hasLoop [] bs = Inr True"
| "hasLoop (b # ps) bs =
     (case testProbe b bs of
        Inl e \<Rightarrow> Inl e
      | Inr t \<Rightarrow> if t then hasLoop ps bs else Inr False)"

definition probes :: "Filter \<Rightarrow> bytes \<Rightarrow> u32 list" where
  "probes f key = map (probe f key) [0..<unat (fk f)]"

definition Add :: "Filter \<Rightarrow> bytes \<Rightarrow> err + Filter" where
  "Add f key =
     (if fm f = 0 \<and> fk f \<noteq> 0 then Inl Panic
      else case addLoop (probes f key) (fbits f) of
             Inl e \<Rightarrow> Inl e | Inr bs \<Rightarrow> Inr (f\<lparr>fbits := bs\<rparr>))"

definition Has :: "Filter \<Rightarrow> bytes \<Rightarrow> err + bool" where
  "Has f key =
     (if fm f = 0 \<and> fk f \<noteq> 0 then Inl Panic else hasLoop (probes f key) (fbits f))"

definition Bytes :: "Filter \<Rightarrow> bytes" where
  "Bytes f = fbits f"

definition K :: "Filter \<Rightarrow> u32" where
  "K f = fk f"

definition Load :: "bytes \<Rightarrow> u32 \<Rightarrow> Filter" where
  "Load bits k = \<lparr>fbits = bits, fm = of_nat (length bits) * 8, fk = k\<rparr>"

section \<open>What clients rely on\<close>

text \<open>Adding a sequence of keys, stopping at the first failure.\<close>

fun addAll :: "('f \<Rightarrow> bytes \<Rightarrow> err + 'f) \<Rightarrow> 'f \<Rightarrow> bytes list \<Rightarrow> err + 'f" where
  "addAll add f [] = Inr f"
| "addAll add f (k # ks) = (case add f k of Inl e \<Rightarrow> Inl e | Inr f' \<Rightarrow> addAll add f' ks)"

locale approx_set =
  fixes add :: "'f \<Rightarrow> bytes \<Rightarrow> err + 'f"
    and has :: "'f \<Rightarrow> bytes \<Rightarrow> err + bool"
    and inv :: "'f \<Rightarrow> bool"
  assumes add_total: "inv f \<Longrightarrow> \<exists>f'. add f k = Inr f' \<and> inv f'"
    and add_has: "inv f \<Longrightarrow> add f k = Inr f' \<Longrightarrow> has f' k = Inr True"
    and add_keeps: "inv f \<Longrightarrow> add f k = Inr f' \<Longrightarrow> has f k' = Inr True \<Longrightarrow> has f' k' = Inr True"
    and has_total: "inv f \<Longrightarrow> \<exists>b. has f k = Inr b"
begin

lemma addAll_total: "inv f \<Longrightarrow> \<exists>f'. addAll add f ks = Inr f' \<and> inv f'"
proof (induction ks arbitrary: f)
  case (Cons k ks)
  then obtain f1 where "add f k = Inr f1" "inv f1" using add_total by blast
  with Cons.IH show ?case by simp
qed simp

lemma addAll_keeps:
  "inv f \<Longrightarrow> addAll add f ks = Inr f' \<Longrightarrow> has f k = Inr True \<Longrightarrow> has f' k = Inr True"
proof (induction ks arbitrary: f)
  case (Cons x ks)
  then obtain f1 where "add f x = Inr f1" "inv f1" using add_total by blast
  with Cons show ?case by (auto intro: add_keeps)
qed simp

lemma addAll_has:
  "inv f \<Longrightarrow> addAll add f ks = Inr f' \<Longrightarrow> k \<in> set ks \<Longrightarrow> has f' k = Inr True"
proof (induction ks arbitrary: f)
  case (Cons x ks)
  then obtain f1 where f1: "add f x = Inr f1" "inv f1" using add_total by blast
  with Cons.prems have rest: "addAll add f1 ks = Inr f'" by simp
  show ?case
  proof (cases "k = x")
    case True
    with f1 Cons.prems rest show ?thesis using add_has addAll_keeps by blast
  next
    case False
    with Cons.IH [OF f1(2) rest] Cons.prems show ?thesis by simp
  qed
qed simp

end

section \<open>Well-formed filters\<close>

definition filterOk :: "Filter \<Rightarrow> bool" where
  "filterOk f \<longleftrightarrow> fm f \<noteq> 0 \<and> unat (fm f) = 8 * length (fbits f)"

lemma unat_drop_bit_3: "unat (drop_bit 3 (b :: u32)) = unat b div 8"
  by (simp add: unat_drop_bit_eq drop_bit_eq_div unat_div)

lemma probe_in_range: "filterOk f \<Longrightarrow> unat (drop_bit 3 (probe f key i)) < length (fbits f)"
proof -
  assume ok: "filterOk f"
  then have "unat (x mod fm f) < 8 * length (fbits f)" for x
    by (metis filterOk_def unat_0 unat_eq_zero unat_mod mod_less_divisor neq0_conv)
  then show ?thesis
    by (simp add: unat_drop_bit_3 probe_def case_prod_beta Let_def less_mult_imp_div_less mult.commute)
qed

lemma probes_in_range:
  "filterOk f \<Longrightarrow> b \<in> set (probes f key) \<Longrightarrow> unat (drop_bit 3 b) < length (fbits f)"
  by (auto simp: probes_def probe_in_range)

text \<open>The state of one bit of the array.\<close>

definition bitSet :: "bytes \<Rightarrow> u32 \<Rightarrow> bool" where
  "bitSet bs b \<longleftrightarrow> bit (bs ! unat (drop_bit 3 b)) (unat (b AND 7))"

lemma low3_lt: "unat (b AND 7 :: u32) < 8"
proof -
  have "unat (b AND 7) \<le> unat (7 :: u32)"
    by (rule word_and_le1 [THEN word_le_nat_alt [THEN iffD1]])
  then show ?thesis by simp
qed

lemma testProbe_bitSet:
  "unat (drop_bit 3 b) < length bs \<Longrightarrow> testProbe b bs = Inr (bitSet bs b)"
  by (simp add: testProbe_def bitSet_def bit_iff_and_push_bit_not_eq_0 del: push_bit_of_1)

lemma hasLoop_bitSet:
  "\<forall>b\<in>set ps. unat (drop_bit 3 b) < length bs \<Longrightarrow> hasLoop ps bs = Inr (\<forall>b\<in>set ps. bitSet bs b)"
  by (induction ps) (auto simp: testProbe_bitSet)

lemma setProbe_bitSet:
  assumes "unat (drop_bit 3 b) < length bs"
  shows "\<exists>bs'. setProbe b bs = Inr bs' \<and> length bs' = length bs \<and> bitSet bs' b \<and>
    (\<forall>c. unat (drop_bit 3 c) < length bs \<longrightarrow> bitSet bs c \<longrightarrow> bitSet bs' c)"
  using assms low3_lt [of b]
  by (auto simp: setProbe_def bitSet_def nth_list_update bit_simps Let_def)

lemma addLoop_bitSet:
  "\<forall>b\<in>set ps. unat (drop_bit 3 b) < length bs \<Longrightarrow>
   \<exists>bs'. addLoop ps bs = Inr bs' \<and> length bs' = length bs \<and> (\<forall>b\<in>set ps. bitSet bs' b) \<and>
     (\<forall>c. unat (drop_bit 3 c) < length bs \<longrightarrow> bitSet bs c \<longrightarrow> bitSet bs' c)"
proof (induction ps arbitrary: bs)
  case (Cons b ps)
  then obtain bs1 where 1: "setProbe b bs = Inr bs1" "length bs1 = length bs" "bitSet bs1 b"
    "\<forall>c. unat (drop_bit 3 c) < length bs \<longrightarrow> bitSet bs c \<longrightarrow> bitSet bs1 c"
    using setProbe_bitSet [of b bs] by auto
  moreover obtain bs2 where "addLoop ps bs1 = Inr bs2" "length bs2 = length bs1"
    "\<forall>b\<in>set ps. bitSet bs2 b"
    "\<forall>c. unat (drop_bit 3 c) < length bs1 \<longrightarrow> bitSet bs1 c \<longrightarrow> bitSet bs2 c"
    using Cons.IH [of bs1] Cons.prems 1(2) by auto
  ultimately show ?case using Cons.prems by auto
qed simp

lemma probes_cong: "fm f = fm g \<Longrightarrow> fk f = fk g \<Longrightarrow> probes f = probes g"
  by (simp add: probes_def probe_def fun_eq_iff)

lemma Has_bitSet: "filterOk f \<Longrightarrow> Has f key = Inr (\<forall>b\<in>set (probes f key). bitSet (fbits f) b)"
  using probes_in_range [of f] by (auto simp: Has_def filterOk_def hasLoop_bitSet)

lemma Add_spec:
  assumes "filterOk f"
  shows "\<exists>f'. Add f key = Inr f' \<and> filterOk f' \<and> fk f' = fk f \<and> Has f' key = Inr True \<and>
    (\<forall>k. Has f k = Inr True \<longrightarrow> Has f' k = Inr True)"
proof -
  obtain bs where bs: "addLoop (probes f key) (fbits f) = Inr bs" "length bs = length (fbits f)"
    "\<forall>b\<in>set (probes f key). bitSet bs b"
    "\<forall>c. unat (drop_bit 3 c) < length (fbits f) \<longrightarrow> bitSet (fbits f) c \<longrightarrow> bitSet bs c"
    using addLoop_bitSet [of "probes f key" "fbits f"] probes_in_range [OF assms] by auto
  let ?f = "f\<lparr>fbits := bs\<rparr>"
  have ok: "filterOk ?f" using assms bs(2) by (simp add: filterOk_def)
  have p: "probes ?f = probes f" by (rule probes_cong) simp_all
  have "Add f key = Inr ?f" using bs(1) assms by (simp add: Add_def filterOk_def)
  moreover have "Has ?f key = Inr True" "\<forall>k. Has f k = Inr True \<longrightarrow> Has ?f k = Inr True"
    using bs(3,4) probes_in_range [OF assms] by (auto simp: Has_bitSet ok assms p)
  ultimately show ?thesis using ok by auto
qed

interpretation bloom: approx_set Add Has filterOk
proof unfold_locales
  show "filterOk f \<Longrightarrow> \<exists>f'. Add f k = Inr f' \<and> filterOk f'" for f k
    using Add_spec by blast
  show "filterOk f \<Longrightarrow> Add f k = Inr f' \<Longrightarrow> Has f' k = Inr True" for f k f'
    using Add_spec [of f k] by auto
  show "filterOk f \<Longrightarrow> Add f k = Inr f' \<Longrightarrow> Has f k' = Inr True \<Longrightarrow> Has f' k' = Inr True" for f k f' k'
    using Add_spec [of f k] by auto
  show "filterOk f \<Longrightarrow> \<exists>b. Has f k = Inr b" for f k
    by (simp add: Has_bitSet)
qed

lemma addAll_k: "filterOk f \<Longrightarrow> addAll Add f ks = Inr f' \<Longrightarrow> fk f' = fk f"
proof (induction ks arbitrary: f)
  case (Cons k ks)
  then show ?case using Add_spec [of f k] by auto
qed simp

text \<open>A filter sized for \<open>n\<close> keys is well formed as long as its bit count fits a \<open>uint32\<close>.\<close>

lemma New_ok: "n \<le> 429496728 \<Longrightarrow> filterOk (New n)"
proof -
  assume n: "n \<le> 429496728"
  define c where "c = nat (((if n \<le> 0 then 1 else n) * 10 + 7) div 8)"
  have c: "1 \<le> c" "8 * c < 2 ^ 32"
    and i: "((if n \<le> 0 then 1 else n) * 10 + 7) div 8 * 8 = int (8 * c)"
    using n by (auto simp: c_def)
  have u: "unat (of_nat (8 * c) :: u32) = 8 * c"
    using c(2) by (rule unat_of_nat_u32)
  moreover have "(of_nat (8 * c) :: u32) \<noteq> 0"
    using u c(1) by (metis mult_eq_0_iff not_one_le_zero unat_0 zero_neq_numeral)
  ultimately show ?thesis
    unfolding filterOk_def New_def Let_def i of_int_of_nat_eq by (simp add: c_def)
qed

lemma New_K: "fk (New n) = 7"
  by (simp add: New_def Let_def defaultK_def)

lemma Load_Bytes:
  assumes "filterOk f" shows "Load (Bytes f) (K f) = f"
proof -
  have "fm f = of_nat (unat (fm f))" by simp
  also have "\<dots> = of_nat (length (fbits f)) * 8"
    using assms by (simp add: filterOk_def mult.commute)
  finally show ?thesis by (simp add: Load_def Bytes_def K_def)
qed

section \<open>Properties\<close>

text \<open>
  C26: No false negatives, through the disk: build a filter with \<open>New\<close> for the number of keys, add
  them all, store its bits and \<open>k\<close>, load it back: every added key is reported present, and no
  step panics.
\<close>

theorem bloom_no_false_negatives:
  assumes "n \<le> 429496728"
  shows "\<exists>f. addAll Add (New n) keys = Inr f \<and>
     (\<forall>key \<in> set keys. Has (Load (Bytes f) (K f)) key = Inr True)"
proof -
  obtain f where f: "addAll Add (New n) keys = Inr f" "filterOk f"
    using bloom.addAll_total [OF New_ok [OF assms]] by blast
  then have "\<forall>key \<in> set keys. Has f key = Inr True"
    using bloom.addAll_has [OF New_ok [OF assms]] by blast
  with f show ?thesis by (simp add: Load_Bytes)
qed

theorem bloom_no_false_negatives_witness:
  "(2 :: int) \<le> 429496728 \<and> (\<exists>f. addAll Add (New 2) [[1], [2, 3]] = Inr f \<and>
     (\<forall>key \<in> set [[1], [2, 3]]. Has (Load (Bytes f) (K f)) key = Inr True))"
  using bloom_no_false_negatives [of 2 "[[1], [2, 3]]"] by simp

end
