(* ===== verification/Kora_SSTable.thy ===== *)
theory Kora_SSTable
  imports Kora_Disk Kora_Bloom
begin

text \<open>
  Package sstable (\<open>internal/sstable/sstable.go\<close>, \<open>writer.go\<close>, \<open>reader.go\<close>). A writer is
  the state of a file under construction in a world; a reader is the parsed footer, index
  and filter together with the contents behind its file handle, which nobody writes again.
  A record's value is \<open>None\<close> for a tombstone, which is how \<open>readRecord\<close> pairs a nil value
  with the tombstone flag. An iterator is the list of what it yields until exhausted.
\<close>

section \<open>Format\<close>

definition indexStride :: nat where
  "indexStride = 16"

definition tombstoneSentinel :: u32 where
  "tombstoneSentinel = 0xFFFFFFFF"

definition magic :: u32 where
  "magic = 0x4B4F5241"

definition footerSize :: nat where
  "footerSize = 28"

definition encodeRecordHeader :: "u32 \<Rightarrow> u32 \<Rightarrow> bytes" where
  "encodeRecordHeader keyLen valLen = be32 keyLen @ be32 valLen"

definition decodeRecordHeader :: "bytes \<Rightarrow> u32 \<times> u32" where
  "decodeRecordHeader src = (get32 (take 4 src), get32 (take 4 (drop 4 src)))"

definition recordSize :: "u32 \<Rightarrow> u32 \<Rightarrow> int" where
  "recordSize keyLen valLen =
     8 + int (unat keyLen) + (if valLen \<noteq> tombstoneSentinel then int (unat valLen) else 0)"

section \<open>Buffered reading\<close>

text \<open>The unread part of the file and the logical position.\<close>

record bufReader =
  brest :: bytes
  bpos :: nat

definition brRead :: "nat \<Rightarrow> bufReader \<Rightarrow> (err + bytes) \<times> bufReader" where
  "brRead n b =
     (case readFull n (brest b) of
        Inl e \<Rightarrow> (Inl e, b\<lparr>brest := [], bpos := bpos b + n\<rparr>)
      | Inr (p, r) \<Rightarrow> (Inr p, b\<lparr>brest := r, bpos := bpos b + n\<rparr>))"

definition readRecord :: "bufReader \<Rightarrow> (err + bytes \<times> bytes option) \<times> bufReader" where
  "readRecord b =
     (case brRead 8 b of
        (Inl e, b1) \<Rightarrow> (Inl (if e = EOF \<or> e = UnexpectedEOF then EOF else e), b1)
      | (Inr hdr, b1) \<Rightarrow>
          let (keyLen, valLen) = decodeRecordHeader hdr
          in case brRead (unat keyLen) b1 of
               (Inl _, b2) \<Rightarrow> (Inl ErrCorrupt, b2)
             | (Inr key, b2) \<Rightarrow>
                 if valLen = tombstoneSentinel then (Inr (key, None), b2)
                 else case brRead (unat valLen) b2 of
                        (Inl _, b3) \<Rightarrow> (Inl ErrCorrupt, b3)
                      | (Inr val, b3) \<Rightarrow> (Inr (key, Some val), b3))"

definition readIndexEntry :: "bytes \<Rightarrow> err + (bytes \<times> int) \<times> bytes" where
  "readIndexEntry s =
     (case readFull 4 s of
        Inl e \<Rightarrow> Inl e
      | Inr (lenBuf, s1) \<Rightarrow>
          (case readFull (unat (get32 lenBuf)) s1 of
             Inl e \<Rightarrow> Inl e
           | Inr (key, s2) \<Rightarrow>
               (case readFull 8 s2 of
                  Inl e \<Rightarrow> Inl e
                | Inr (offBuf, s3) \<Rightarrow> Inr ((key, sint (get64 offBuf)), s3))))"

text \<open>\<open>f.Seek(off, io.SeekStart)\<close> followed by \<open>newBufReader(f)\<close>.\<close>

definition seekTo :: "int \<Rightarrow> bytes \<Rightarrow> err + bufReader" where
  "seekTo off file =
     (if off < 0 then Inl ErrIO else Inr \<lparr>brest = drop (nat off) file, bpos = nat off\<rparr>)"

lemma brRead_shorter: "brRead n b = (Inr p, b') \<Longrightarrow> length (brest b') + n = length (brest b)"
  by (auto simp: brRead_def readFull_Inr_iff split: sum.splits prod.splits)

lemma readRecord_shorter: "readRecord b = (Inr kv, b') \<Longrightarrow> length (brest b') < length (brest b)"
  by (auto simp: readRecord_def Let_def split: sum.splits prod.splits if_splits
      dest!: brRead_shorter)

section \<open>Writer\<close>

record Writer =
  wpath :: path
  woffset :: nat
  nRecords :: u32
  lastKey :: "bytes option"
  indexBuf :: bytes
  indexCount :: u32

definition NewWriter :: "path \<Rightarrow> world \<Rightarrow> (err + Writer) \<times> world" where
  "NewWriter p w =
     (case openTrunc p w of
        (Inl e, w') \<Rightarrow> (Inl e, w')
      | (Inr _, w') \<Rightarrow>
          (Inr \<lparr>wpath = p, woffset = 0, nRecords = 0, lastKey = None, indexBuf = [], indexCount = 0\<rparr>, w'))"

definition appendIndex :: "Writer \<Rightarrow> bytes \<Rightarrow> nat \<Rightarrow> Writer" where
  "appendIndex wr key off =
     wr\<lparr>indexBuf := indexBuf wr @ be32 (of_nat (length key)) @ key @ be64 (of_nat off),
        indexCount := indexCount wr + 1\<rparr>"

definition checkOrder :: "Writer \<Rightarrow> bytes \<Rightarrow> err + Writer" where
  "checkOrder wr key =
     (if (case lastKey wr of None \<Rightarrow> False | Some l \<Rightarrow> compareBytes key l \<le> 0) then Inl ErrOutOfOrder
      else Inr (wr\<lparr>lastKey := Some key\<rparr>))"

text \<open>One \<open>w.f.Write\<close> with the offset bookkeeping of \<open>writeRecord\<close>.\<close>

definition wput :: "Writer \<Rightarrow> bytes \<Rightarrow> world \<Rightarrow> (err option \<times> Writer) \<times> world" where
  "wput wr b w =
     (case fwrite (wpath wr) b w of
        ((n, eo), w') \<Rightarrow> ((eo, wr\<lparr>woffset := woffset wr + n\<rparr>), w'))"

definition writeRecord ::
  "Writer \<Rightarrow> bytes \<Rightarrow> bytes option \<Rightarrow> world \<Rightarrow> (err option \<times> Writer) \<times> world" where
  "writeRecord wr0 key val w =
     (let wr = (if unat (nRecords wr0) mod indexStride = 0
                then appendIndex wr0 key (woffset wr0) else wr0);
          keyLen = of_nat (length key);
          valLen = (case val of None \<Rightarrow> tombstoneSentinel | Some v \<Rightarrow> of_nat (length v))
      in case wput wr (encodeRecordHeader keyLen valLen) w of
           ((Some e, wr1), w1) \<Rightarrow> ((Some e, wr1), w1)
         | ((None, wr1), w1) \<Rightarrow>
             (case wput wr1 key w1 of
                ((Some e, wr2), w2) \<Rightarrow> ((Some e, wr2), w2)
              | ((None, wr2), w2) \<Rightarrow>
                  (case val of
                     None \<Rightarrow> ((None, wr2\<lparr>nRecords := nRecords wr2 + 1\<rparr>), w2)
                   | Some v \<Rightarrow>
                       (case wput wr2 v w2 of
                          ((Some e, wr3), w3) \<Rightarrow> ((Some e, wr3), w3)
                        | ((None, wr3), w3) \<Rightarrow> ((None, wr3\<lparr>nRecords := nRecords wr3 + 1\<rparr>), w3)))))"

definition writerSet :: "Writer \<Rightarrow> bytes \<Rightarrow> bytes \<Rightarrow> world \<Rightarrow> (err option \<times> Writer) \<times> world" where
  "writerSet wr key val w =
     (case checkOrder wr key of
        Inl e \<Rightarrow> ((Some e, wr), w)
      | Inr wr' \<Rightarrow> writeRecord wr' key (Some val) w)"

definition writerDelete :: "Writer \<Rightarrow> bytes \<Rightarrow> world \<Rightarrow> (err option \<times> Writer) \<times> world" where
  "writerDelete wr key w =
     (case checkOrder wr key of
        Inl e \<Rightarrow> ((Some e, wr), w)
      | Inr wr' \<Rightarrow> writeRecord wr' key None w)"

text \<open>The rescan of the data section that feeds the filter.\<close>

function bloomLoop :: "nat \<Rightarrow> bufReader \<Rightarrow> Filter \<Rightarrow> err + Filter" where
  "bloomLoop dataEnd br f =
     (if bpos br < dataEnd then
        (case readRecord br of
           (Inl e, _) \<Rightarrow> if e = EOF then Inr f else Inl e
         | (Inr (k, _), br') \<Rightarrow>
             (case Add f k of Inl e \<Rightarrow> Inl e | Inr f' \<Rightarrow> bloomLoop dataEnd br' f'))
      else Inr f)"
  by pat_completeness auto
termination
  by (relation "measure (\<lambda>(_, br, _). length (brest br))") (auto dest!: readRecord_shorter [OF sym])

declare bloomLoop.simps [simp del]

definition buildBloom :: "Writer \<Rightarrow> nat \<Rightarrow> world \<Rightarrow> (err + Filter) \<times> world" where
  "buildBloom wr dataEnd w =
     (let f = New (int (unat (nRecords wr)))
      in if nRecords wr = 0 then (Inr f, w)
         else case fseek (wpath wr) w of
                (Inl e, w1) \<Rightarrow> (Inl e, w1)
              | (Inr _, w1) \<Rightarrow>
                  (case lookupFile (wpath wr) w1 of
                     None \<Rightarrow> (Inl ErrIO, w1)
                   | Some c \<Rightarrow> (bloomLoop dataEnd \<lparr>brest = c, bpos = 0\<rparr> f, w1)))"

text \<open>An error exit of \<open>Close\<close>: close the file, return the error.\<close>

definition closeWith :: "path \<Rightarrow> err \<Rightarrow> world \<Rightarrow> err option \<times> world" where
  "closeWith p e w = (Some e, quietly (fclose p) w)"

definition encFooter :: "u64 \<Rightarrow> u32 \<Rightarrow> u32 \<Rightarrow> u32 \<Rightarrow> u32 \<Rightarrow> bytes" where
  "encFooter indexOffset icount dcount bsize bk =
     be64 indexOffset @ be32 icount @ be32 dcount @ be32 bsize @ be32 bk @ be32 magic"

definition writerClose :: "Writer \<Rightarrow> world \<Rightarrow> err option \<times> world" where
  "writerClose wr w =
     (let p = wpath wr; dataEnd = woffset wr in
      case buildBloom wr dataEnd w of
        (Inl e, w1) \<Rightarrow> if e = Panic then (Some Panic, w1) else closeWith p e w1
      | (Inr flt, w1) \<Rightarrow>
      let bloomBytes = Bytes flt in
      case fseek p w1 of
        (Inl e, w2) \<Rightarrow> closeWith p e w2
      | (Inr _, w2) \<Rightarrow>
      case fwrite p bloomBytes w2 of
        ((_, Some e), w3) \<Rightarrow> closeWith p e w3
      | ((_, None), w3) \<Rightarrow>
      let indexOffset = dataEnd + length bloomBytes in
      case fwrite p (indexBuf wr) w3 of
        ((_, Some e), w4) \<Rightarrow> closeWith p e w4
      | ((_, None), w4) \<Rightarrow>
      case fwrite p (encFooter (of_nat indexOffset) (indexCount wr) (nRecords wr)
                       (of_nat (length bloomBytes)) (K flt)) w4 of
        ((_, Some e), w5) \<Rightarrow> closeWith p e w5
      | ((_, None), w5) \<Rightarrow>
      case fsync p w5 of
        (Inl e, w6) \<Rightarrow> closeWith p e w6
      | (Inr _, w6) \<Rightarrow>
      case fclose p w6 of
        (Inl e, w7) \<Rightarrow> (Some e, w7)
      | (Inr _, w7) \<Rightarrow> (None, w7))"

section \<open>Reader\<close>

record Reader =
  rpath :: path
  rid :: u32
  rfile :: bytes
  rindex :: "(bytes \<times> int) list"
  rfilter :: "Filter option"
  dataEnd :: int
  indexOff :: int
  dataCount :: u32

definition loadFooterAndIndex :: "Reader \<Rightarrow> err + Reader" where
  "loadFooterAndIndex r =
     (let f = rfile r in
      if length f < footerSize then Inl ErrCorrupt
      else
        let fb = drop (length f - footerSize) f;
            indexOffset = get64 (take 8 fb);
            icount = get32 (take 4 (drop 8 fb));
            dcount = get32 (take 4 (drop 12 fb));
            bloomSize = get32 (take 4 (drop 16 fb));
            bloomK = get32 (take 4 (drop 20 fb));
            mg = get32 (take 4 (drop 24 fb))
        in if mg \<noteq> magic then Inl ErrCorrupt
           else
             let r1 = r\<lparr>indexOff := sint indexOffset,
                        dataEnd := sint (indexOffset - ucast bloomSize),
                        dataCount := dcount\<rparr>;
                 loaded =
                   (if bloomSize > 0 then
                      (case seekTo (dataEnd r1) f of
                         Inl e \<Rightarrow> Inl ErrCorrupt
                       | Inr br \<Rightarrow>
                           (case readFull (unat bloomSize) (brest br) of
                              Inl e \<Rightarrow> Inl ErrCorrupt
                            | Inr (bits, _) \<Rightarrow> Inr (Some (Load bits bloomK))))
                    else Inr (rfilter r1))
             in case loaded of
                  Inl e \<Rightarrow> Inl e
                | Inr flt \<Rightarrow>
                    (case seekTo (indexOff r1) f of
                       Inl e \<Rightarrow> Inl ErrCorrupt
                     | Inr br \<Rightarrow>
                         (case readN readIndexEntry (unat icount) (brest br) of
                            Inl e \<Rightarrow> Inl ErrCorrupt
                          | Inr (es, _) \<Rightarrow> Inr (r1\<lparr>rfilter := flt, rindex := es\<rparr>))))"

text \<open>The id \<open>fmt.Sscanf(filepath.Base(path), "%d.sst", &id)\<close> leaves behind, its error ignored.\<close>

fun idOfName :: "path \<Rightarrow> u32" where
  "idOfName (Top n) = (case ParseUint 32 (takeWhile isDigit n) of Inl _ \<Rightarrow> 0 | Inr i \<Rightarrow> of_nat i)"
| "idOfName (Sst n) = (case ParseUint 32 (takeWhile isDigit n) of Inl _ \<Rightarrow> 0 | Inr i \<Rightarrow> of_nat i)"

definition sstOpen :: "path \<Rightarrow> world \<Rightarrow> (err + Reader) \<times> world" where
  "sstOpen p w =
     (case openRead p w of
        (Inl e, w1) \<Rightarrow> (Inl e, w1)
      | (Inr c, w1) \<Rightarrow>
          (case loadFooterAndIndex \<lparr>rpath = p, rid = idOfName p, rfile = c, rindex = [],
                  rfilter = None, dataEnd = 0, indexOff = 0, dataCount = 0\<rparr> of
             Inl e \<Rightarrow> (Inl e, quietly (fclose p) w1)
           | Inr r \<Rightarrow> (Inr r, w1)))"

definition ID :: "Reader \<Rightarrow> u32" where
  "ID r = rid r"

definition Path :: "Reader \<Rightarrow> path" where
  "Path r = rpath r"

text \<open>Binary search for the last index entry whose key is at most the target.\<close>

function seekSearch :: "(bytes \<times> int) list \<Rightarrow> bytes \<Rightarrow> int \<Rightarrow> int \<Rightarrow> int \<Rightarrow> int" where
  "seekSearch idx key lo hi result =
     (if lo \<le> hi then
        let mid = (lo + hi) div 2
        in if compareBytes (fst (idx ! nat mid)) key \<le> 0
           then seekSearch idx key (mid + 1) hi mid
           else seekSearch idx key lo (mid - 1) result
      else result)"
  by pat_completeness auto
termination
  by (relation "measure (\<lambda>(_, _, lo, hi, _). nat (hi - lo + 1))") auto

declare seekSearch.simps [simp del]

definition seekOffset :: "Reader \<Rightarrow> bytes \<Rightarrow> int" where
  "seekOffset r key =
     (if length (rindex r) = 0 then 0
      else snd (rindex r ! nat (seekSearch (rindex r) key 0 (int (length (rindex r)) - 1) 0)))"

text \<open>
  The three results of \<open>RawGet\<close>: \<open>(nil, false, false)\<close>, \<open>(nil, false, true)\<close> and
  \<open>(v, true, false)\<close>.
\<close>

datatype rawResult = Absent | Deleted | Found bytes

function rawLoop :: "int \<Rightarrow> bytes \<Rightarrow> bufReader \<Rightarrow> err + rawResult" where
  "rawLoop de key br =
     (case readRecord br of
        (Inl e, _) \<Rightarrow> if e = EOF then Inr Absent else Inl e
      | (Inr (k, v), br') \<Rightarrow>
          let cmp = compareBytes k key
          in if cmp = 0 then (case v of None \<Rightarrow> Inr Deleted | Some x \<Rightarrow> Inr (Found x))
             else if cmp > 0 then Inr Absent
             else if int (bpos br') \<ge> de then Inr Absent
             else rawLoop de key br')"
  by pat_completeness auto
termination
  by (relation "measure (\<lambda>(_, _, br). length (brest br))") (auto dest!: readRecord_shorter [OF sym])

declare rawLoop.simps [simp del]

definition RawGet :: "Reader \<Rightarrow> bytes \<Rightarrow> err + rawResult" where
  "RawGet r key =
     (case (case rfilter r of None \<Rightarrow> Inr True | Some f \<Rightarrow> Has f key) of
        Inl e \<Rightarrow> Inl e
      | Inr False \<Rightarrow> Inr Absent
      | Inr True \<Rightarrow>
          (case seekTo (seekOffset r key) (rfile r) of
             Inl e \<Rightarrow> Inl e
           | Inr br \<Rightarrow> rawLoop (dataEnd r) key br))"

definition sstGet :: "Reader \<Rightarrow> bytes \<Rightarrow> err + bytes option" where
  "sstGet r key =
     (case RawGet r key of
        Inl e \<Rightarrow> Inl e
      | Inr Absent \<Rightarrow> Inr None | Inr Deleted \<Rightarrow> Inr None | Inr (Found v) \<Rightarrow> Inr (Some v))"

function iterLoop :: "int \<Rightarrow> bufReader \<Rightarrow> (bytes \<times> bytes option) list" where
  "iterLoop de br =
     (if int (bpos br) \<ge> de then []
      else case readRecord br of
             (Inl _, _) \<Rightarrow> []
           | (Inr kv, br') \<Rightarrow> kv # iterLoop de br')"
  by pat_completeness auto
termination
  by (relation "measure (\<lambda>(_, br). length (brest br))") (auto dest!: readRecord_shorter [OF sym])

declare iterLoop.simps [simp del]

text \<open>\<open>Iterator\<close> and \<open>CompactionIterator\<close> walk the whole data section.\<close>

definition sstIterator :: "Reader \<Rightarrow> (bytes \<times> bytes option) list" where
  "sstIterator r = iterLoop (dataEnd r) \<lparr>brest = rfile r, bpos = 0\<rparr>"

definition CompactionIterator :: "Reader \<Rightarrow> (bytes \<times> bytes option) list" where
  "CompactionIterator r = iterLoop (dataEnd r) \<lparr>brest = rfile r, bpos = 0\<rparr>"

function scanIterLoop ::
  "int \<Rightarrow> bytes option \<Rightarrow> bytes option \<Rightarrow> bufReader \<Rightarrow> (bytes \<times> bytes option) list" where
  "scanIterLoop de start end br =
     (if int (bpos br) \<ge> de then []
      else case readRecord br of
             (Inl _, _) \<Rightarrow> []
           | (Inr (k, v), br') \<Rightarrow>
               if (case start of None \<Rightarrow> False | Some s \<Rightarrow> compareBytes k s < 0)
               then scanIterLoop de start end br'
               else if (case end of None \<Rightarrow> False | Some e \<Rightarrow> compareBytes k e > 0) then []
               else (k, v) # scanIterLoop de start end br')"
  by pat_completeness auto
termination
  by (relation "measure (\<lambda>(_, _, _, br). length (brest br))") (auto dest!: readRecord_shorter [OF sym])

declare scanIterLoop.simps [simp del]

definition ScanIterator :: "Reader \<Rightarrow> bytes option \<Rightarrow> bytes option \<Rightarrow> (bytes \<times> bytes option) list" where
  "ScanIterator r start end =
     (let off = (case start of None \<Rightarrow> 0 | Some s \<Rightarrow> seekOffset r s)
      in case seekTo off (rfile r) of
           Inl _ \<Rightarrow> []
         | Inr br \<Rightarrow> scanIterLoop (dataEnd r) start end br)"

end
