(* ===== verification/Kora_SSTable_Correct.thy ===== *)
theory Kora_SSTable_Correct
  imports Kora_SSTable
begin

text \<open>
  Correctness of the SSTable format: what the writer leaves on disk for a strictly ascending
  list of entries, that opening that file gives a reader for exactly those entries, and that
  point lookups, iterators and range scans through the Bloom filter, the sparse index and the
  record stream agree with the list. The specification a client uses is the locale
  \<open>sorted_source\<close>.
\<close>

section \<open>Entries and their encodings\<close>

type_synonym entry = "bytes \<times> bytes option"

definition encEntry :: "entry \<Rightarrow> bytes" where
  "encEntry e =
     encodeRecordHeader (of_nat (length (fst e)))
       (case snd e of None \<Rightarrow> tombstoneSentinel | Some v \<Rightarrow> of_nat (length v))
     @ fst e @ (case snd e of None \<Rightarrow> [] | Some v \<Rightarrow> v)"

definition entryOk :: "entry \<Rightarrow> bool" where
  "entryOk e \<longleftrightarrow> length (fst e) < 2 ^ 32 \<and>
     (case snd e of None \<Rightarrow> True | Some v \<Rightarrow> length v < 2 ^ 32 - 1)"

abbreviation dataOf :: "entry list \<Rightarrow> bytes" where
  "dataOf es \<equiv> concat (map encEntry es)"

lemma encEntry_length_pos: "8 \<le> length (encEntry e)"
  by (simp add: encEntry_def encodeRecordHeader_def)

lemma encEntry_neq_Nil [simp]: "encEntry e \<noteq> []"
  using encEntry_length_pos [of e] by auto

lemma decodeRecordHeader_enc [simp]:
  "decodeRecordHeader (encodeRecordHeader a b) = (a, b)"
  by (simp add: decodeRecordHeader_def encodeRecordHeader_def)

lemma length_encodeRecordHeader [simp]: "length (encodeRecordHeader a b) = 8"
  by (simp add: encodeRecordHeader_def)

lemma brRead_append [simp]:
  "length xs = n \<Longrightarrow> brRead n \<lparr>brest = xs @ s, bpos = p\<rparr> = (Inr xs, \<lparr>brest = s, bpos = p + n\<rparr>)"
  by (simp add: brRead_def)

lemma valLen_not_sentinel:
  "length v < 2 ^ 32 - 1 \<Longrightarrow> (of_nat (length v) :: u32) \<noteq> tombstoneSentinel"
  by (auto simp: tombstoneSentinel_def dest!: arg_cong [where f = unat])

lemma readRecord_enc:
  assumes "entryOk e"
  shows "readRecord \<lparr>brest = encEntry e @ s, bpos = p\<rparr> =
    (Inr e, \<lparr>brest = s, bpos = p + length (encEntry e)\<rparr>)"
proof (cases e)
  case (Pair k v)
  with assms have k: "length k < 2 ^ 32" by (simp add: entryOk_def)
  show ?thesis
  proof (cases v)
    case None
    with k Pair show ?thesis by (simp add: readRecord_def encEntry_def)
  next
    case (Some x)
    with assms Pair have x: "length x < 2 ^ 32 - 1" by (simp add: entryOk_def)
    then have "length x < 2 ^ 32" by simp
    with k x Pair Some valLen_not_sentinel [OF x] show ?thesis
      by (simp add: readRecord_def encEntry_def)
  qed
qed

definition encIdx :: "bytes \<times> int \<Rightarrow> bytes" where
  "encIdx e = be32 (of_nat (length (fst e))) @ fst e @ be64 (of_int (snd e))"

definition idxOk :: "bytes \<times> int \<Rightarrow> bool" where
  "idxOk e \<longleftrightarrow> length (fst e) < 2 ^ 32 \<and> 0 \<le> snd e \<and> snd e < 2 ^ 63"

lemma sint_of_int_u64: "0 \<le> i \<Longrightarrow> i < 2 ^ 63 \<Longrightarrow> sint (of_int i :: u64) = i"
  by (simp add: sint_sbintrunc' signed_take_bit_int_eq_self)

interpretation index_codec: prefix_codec encIdx readIndexEntry idxOk
proof unfold_locales
  fix x :: "bytes \<times> int" and rest
  assume "idxOk x"
  then show "readIndexEntry (encIdx x @ rest) = Inr (x, rest)"
    by (cases x) (simp add: readIndexEntry_def encIdx_def idxOk_def sint_of_int_u64)
qed

section \<open>Walking the data section\<close>

lemma bloomLoop_data:
  assumes "list_all entryOk es"
  shows "bloomLoop (p + length (dataOf es)) \<lparr>brest = dataOf es @ s, bpos = p\<rparr> f = addAll Add f (map fst es)"
  using assms
proof (induction es arbitrary: p f)
  case Nil
  then show ?case by (subst bloomLoop.simps) simp
next
  case (Cons e es)
  obtain k v where e: "e = (k, v)" by force
  have "bloomLoop (p + (length (encEntry e) + length (dataOf es)))
      \<lparr>brest = dataOf es @ s, bpos = p + length (encEntry e)\<rparr> g = addAll Add g (map fst es)" for g
    using Cons.IH [of "p + length (encEntry e)" g] Cons.prems by (simp add: add.assoc)
  with Cons.prems show ?case
    by (subst bloomLoop.simps) (simp add: readRecord_enc e split: sum.splits)
qed

lemma iterLoop_data:
  assumes "list_all entryOk es"
  shows "iterLoop (int (p + length (dataOf es))) \<lparr>brest = dataOf es @ s, bpos = p\<rparr> = es"
  using assms
proof (induction es arbitrary: p)
  case Nil
  then show ?case by (subst iterLoop.simps) simp
next
  case (Cons e es)
  from Cons.IH [of "p + length (encEntry e)"] Cons.prems encEntry_length_pos [of e] show ?case
    by (subst iterLoop.simps) (auto simp: readRecord_enc add.assoc)
qed

text \<open>The closed range of a scan; a missing bound is open.\<close>

definition inRange :: "bytes option \<Rightarrow> bytes option \<Rightarrow> bytes \<Rightarrow> bool" where
  "inRange start end k \<longleftrightarrow>
     (case start of None \<Rightarrow> True | Some s \<Rightarrow> s \<le> k) \<and> (case end of None \<Rightarrow> True | Some e \<Rightarrow> k \<le> e)"

lemma filter_beyond_end:
  assumes "sorted_wrt (<) (k # map fst es)" and "end = Some e" and "e < k"
  shows "filter (\<lambda>x. inRange start end (fst x)) es = []"
  using assms by (auto simp: inRange_def filter_empty_conv)

lemma scanIterLoop_data:
  assumes "list_all entryOk es" and "sorted_wrt (<) (map fst es)"
  shows "scanIterLoop (int (p + length (dataOf es))) start end \<lparr>brest = dataOf es @ s, bpos = p\<rparr>
     = filter (\<lambda>x. inRange start end (fst x)) es"
  using assms
proof (induction es arbitrary: p)
  case Nil
  then show ?case by (subst scanIterLoop.simps) simp
next
  case (Cons e es)
  obtain k v where e: "e = (k, v)" by force
  have IH: "scanIterLoop (int (p + length (encEntry e) + length (dataOf es))) start end
      \<lparr>brest = dataOf es @ s, bpos = p + length (encEntry e)\<rparr> =
      filter (\<lambda>x. inRange start end (fst x)) es"
    using Cons.IH [of "p + length (encEntry e)"] Cons.prems by simp
  have pos: "\<not> int (length (encEntry (k, v))) + int (length (dataOf es)) \<le> 0"
    using encEntry_length_pos [of "(k, v)"] by linarith
  have step: "scanIterLoop (int (p + length (dataOf (e # es)))) start end
      \<lparr>brest = dataOf (e # es) @ s, bpos = p\<rparr> =
      (if (case start of None \<Rightarrow> False | Some s \<Rightarrow> k < s) then filter (\<lambda>x. inRange start end (fst x)) es
       else if (case end of None \<Rightarrow> False | Some e \<Rightarrow> e < k) then []
       else (k, v) # filter (\<lambda>x. inRange start end (fst x)) es)"
    using Cons.prems IH pos
    by (subst scanIterLoop.simps) (cases start; cases "end"; simp add: readRecord_enc e add.assoc)
  have "filter (\<lambda>x. inRange start end (fst x)) es = []" if "end = Some b" "b < k" for b
    using filter_beyond_end [of k es "end" b start] Cons.prems that by (simp add: e)
  then show ?case
    unfolding step by (auto simp: e inRange_def split: option.splits)
qed

text \<open>The value a record list gives a key, in the shape of \<open>RawGet\<close>.\<close>

fun toRaw :: "bytes option option \<Rightarrow> rawResult" where
  "toRaw None = Absent"
| "toRaw (Some None) = Deleted"
| "toRaw (Some (Some v)) = Found v"

lemma rawLoop_data:
  assumes "list_all entryOk es" and "sorted_wrt (<) (map fst es)" and "es \<noteq> []"
  shows "rawLoop (int (p + length (dataOf es))) key \<lparr>brest = dataOf es @ s, bpos = p\<rparr>
     = Inr (toRaw (map_of es key))"
  using assms
proof (induction es arbitrary: p)
  case (Cons e es)
  obtain k v where e: "e = (k, v)" by force
  have gt: "map_of es key = None" if "key < k"
    using Cons.prems(2) that by (fastforce simp: e map_of_eq_None_iff)
  have rr: "readRecord \<lparr>brest = encEntry (k, v) @ dataOf es @ s, bpos = p\<rparr> =
      (Inr (k, v), \<lparr>brest = dataOf es @ s, bpos = p + length (encEntry (k, v))\<rparr>)"
    using Cons.prems by (simp add: readRecord_enc e)
  show ?case
  proof (cases "k = key")
    case True
    then show ?thesis using rr by (subst rawLoop.simps) (cases v; simp add: e)
  next
    case False
    show ?thesis
    proof (cases "key < k")
      case True
      with False gt show ?thesis by (subst rawLoop.simps) (simp add: rr e)
    next
      case ge: False
      show ?thesis
      proof (cases "es = []")
        case True
        with False ge rr show ?thesis by (subst rawLoop.simps) (simp add: e)
      next
        case ne: False
        have pos: "0 < length (dataOf es)" using ne by (cases es) auto
        have "rawLoop (int (p + length (encEntry e) + length (dataOf es))) key
            \<lparr>brest = dataOf es @ s, bpos = p + length (encEntry e)\<rparr> = Inr (toRaw (map_of es key))"
          using Cons.IH [OF _ _ ne, of "p + length (encEntry e)"] Cons.prems by simp
        with False ge pos show ?thesis
          by (subst rawLoop.simps) (simp add: rr e add.assoc)
      qed
    qed
  qed
qed simp

section \<open>The sparse index\<close>

fun indexFrom :: "nat \<Rightarrow> nat \<Rightarrow> entry list \<Rightarrow> (bytes \<times> int) list" where
  "indexFrom i off [] = []"
| "indexFrom i off (e # es) =
     (if i mod indexStride = 0 then [(fst e, int off)] else [])
     @ indexFrom (Suc i) (off + length (encEntry e)) es"

lemma indexFrom_append:
  "indexFrom i off (es @ fs) =
     indexFrom i off es @ indexFrom (i + length es) (off + length (dataOf es)) fs"
  by (induction es arbitrary: i off) (auto simp: add.assoc)

lemma indexFrom_entry:
  "x \<in> set (indexFrom i off es) \<Longrightarrow>
   \<exists>n < length es. x = (fst (es ! n), int (off + length (dataOf (take n es))))"
proof (induction es arbitrary: i off)
  case (Cons e es)
  consider "x = (fst e, int off)" | "x \<in> set (indexFrom (Suc i) (off + length (encEntry e)) es)"
    using Cons.prems by (auto split: if_splits)
  then show ?case
  proof cases
    case 1
    then show ?thesis by (intro exI [of _ 0]) simp
  next
    case 2
    then obtain n where "n < length es"
      "x = (fst (es ! n), int (off + length (encEntry e) + length (dataOf (take n es))))"
      using Cons.IH by blast
    then show ?thesis by (intro exI [of _ "Suc n"]) simp
  qed
qed simp

lemma indexFrom_hd: "es \<noteq> [] \<Longrightarrow> \<exists>xs. indexFrom 0 0 es = (fst (hd es), 0) # xs"
  by (cases es) auto

lemma indexFrom_length: "length (indexFrom i off es) \<le> length es"
  by (induction es arbitrary: i off) (auto intro: le_SucI)

text \<open>The binary search returns a valid position whose key is at most the target, or its start value.\<close>

lemma seekSearch_sound:
  assumes "0 \<le> lo" "hi < int (length idx)" "0 \<le> res" "res < int (length idx)"
    and "res = 0 \<or> fst (idx ! nat res) \<le> key"
  shows "0 \<le> seekSearch idx key lo hi res \<and> seekSearch idx key lo hi res < int (length idx) \<and>
    (seekSearch idx key lo hi res = 0 \<or> fst (idx ! nat (seekSearch idx key lo hi res)) \<le> key)"
  using assms
proof (induction idx key lo hi res rule: seekSearch.induct)
  case (1 idx key lo hi res)
  show ?case
  proof (cases "lo \<le> hi")
    case True
    define mid where "mid = (lo + hi) div 2"
    have m: "lo \<le> mid" "mid \<le> hi" using True by (auto simp: mid_def)
    show ?thesis
    proof (cases "fst (idx ! nat mid) \<le> key")
      case le: True
      have "seekSearch idx key lo hi res = seekSearch idx key (mid + 1) hi mid"
        using True le by (subst seekSearch.simps) (simp add: mid_def Let_def)
      then show ?thesis using "1.IH"(1) [OF True mid_def] le m "1.prems" by simp
    next
      case gt: False
      have "seekSearch idx key lo hi res = seekSearch idx key lo (mid - 1) res"
        using True gt by (subst seekSearch.simps) (simp add: mid_def Let_def)
      then show ?thesis using "1.IH"(2) [OF True mid_def] gt m "1.prems" by simp
    qed
  next
    case False
    then show ?thesis using "1.prems" by (subst (1 2 3 4) seekSearch.simps) simp
  qed
qed

text \<open>On a sorted index the search is exact: it finds the last key at most the target.\<close>

lemma takeWhile_sorted_nth:
  fixes idx :: "('k :: linorder \<times> 'v) list"
  assumes "sorted_wrt (<) (map fst idx)" "i < length idx"
  shows "fst (idx ! i) \<le> key \<longleftrightarrow> i < length (takeWhile (\<lambda>e. fst e \<le> key) idx)"
proof
  assume le: "fst (idx ! i) \<le> key"
  show "i < length (takeWhile (\<lambda>e. fst e \<le> key) idx)"
  proof (rule ccontr)
    assume "\<not> ?thesis"
    then have n: "length (takeWhile (\<lambda>e. fst e \<le> key) idx) \<le> i" (is "?n \<le> i") by simp
    then have "\<not> fst (idx ! ?n) \<le> key"
      using assms(2) nth_length_takeWhile [of "\<lambda>e. fst e \<le> key" idx] by simp
    moreover have "fst (idx ! ?n) \<le> fst (idx ! i)"
      using n assms by (cases "?n = i") (auto simp: sorted_wrt_iff_nth_less intro: less_imp_le)
    ultimately show False using le by order
  qed
next
  assume "i < length (takeWhile (\<lambda>e. fst e \<le> key) idx)"
  then show "fst (idx ! i) \<le> key"
    using set_takeWhileD [of "idx ! i" "\<lambda>e. fst e \<le> key" idx] by (metis nth_mem takeWhile_nth)
qed

lemma seekSearch_exact:
  assumes "sorted_wrt (<) (map fst idx)" "T = int (length (takeWhile (\<lambda>e. fst e \<le> key) idx))"
    and "0 \<le> lo" "hi < int (length idx)" "lo \<le> T" "T \<le> hi + 1" "res = max 0 (lo - 1)"
  shows "seekSearch idx key lo hi res = max 0 (T - 1)"
  using assms
proof (induction idx key lo hi res rule: seekSearch.induct)
  case (1 idx key lo hi res)
  show ?case
  proof (cases "lo \<le> hi")
    case True
    define mid where "mid = (lo + hi) div 2"
    have m: "lo \<le> mid" "mid \<le> hi" using True by (auto simp: mid_def)
    have iff: "fst (idx ! nat mid) \<le> key \<longleftrightarrow> mid < T"
      using takeWhile_sorted_nth [of idx "nat mid" key] m "1.prems" by auto
    show ?thesis
    proof (cases "mid < T")
      case le: True
      have "seekSearch idx key lo hi res = seekSearch idx key (mid + 1) hi mid"
        using True le iff by (subst seekSearch.simps) (simp add: mid_def Let_def)
      then show ?thesis using "1.IH"(1) [OF True mid_def] le iff m "1.prems" by simp
    next
      case gt: False
      have "seekSearch idx key lo hi res = seekSearch idx key lo (mid - 1) res"
        using True gt iff by (subst seekSearch.simps) (simp add: mid_def Let_def)
      then show ?thesis using "1.IH"(2) [OF True mid_def] gt iff m "1.prems" by simp
    qed
  next
    case False
    then show ?thesis using "1.prems" by (subst seekSearch.simps) simp
  qed
qed

section \<open>The file a writer leaves behind\<close>

definition sstOk :: "entry list \<Rightarrow> bool" where
  "sstOk es \<longleftrightarrow> sorted_wrt (<) (map fst es) \<and> list_all entryOk es \<and>
     length es \<le> 429496728 \<and> length (dataOf es) < 2 ^ 62"

definition bloomOf :: "entry list \<Rightarrow> Filter" where
  "bloomOf es = (case addAll Add (New (int (length es))) (map fst es) of Inl _ \<Rightarrow> New 0 | Inr f \<Rightarrow> f)"

abbreviation idxOf :: "entry list \<Rightarrow> (bytes \<times> int) list" where
  "idxOf es \<equiv> indexFrom 0 0 es"

definition footerOf :: "entry list \<Rightarrow> bytes" where
  "footerOf es = encFooter (of_nat (length (dataOf es) + length (fbits (bloomOf es))))
     (of_nat (length (idxOf es))) (of_nat (length es)) (of_nat (length (fbits (bloomOf es)))) 7"

definition sstImage :: "entry list \<Rightarrow> bytes" where
  "sstImage es = dataOf es @ fbits (bloomOf es) @ concat (map encIdx (idxOf es)) @ footerOf es"

text \<open>The writer state after the entries \<open>es\<close> have been written to \<open>p\<close>.\<close>

definition writerAt :: "path \<Rightarrow> entry list \<Rightarrow> Writer" where
  "writerAt p es =
     \<lparr>wpath = p, woffset = length (dataOf es), nRecords = of_nat (length es),
      lastKey = (if es = [] then None else Some (fst (last es))),
      indexBuf = concat (map encIdx (idxOf es)), indexCount = of_nat (length (idxOf es))\<rparr>"

lemma NewWriter_calm:
  "calm w \<Longrightarrow> dirExists p w \<Longrightarrow> NewWriter p w = (Inr (writerAt p []), putFile p (dataOf []) w)"
  by (simp add: NewWriter_def writerAt_def)

lemma writeRecord_calm:
  assumes "calm w" "dirExists p w" "length es < 2 ^ 32"
  shows "writeRecord ((writerAt p es)\<lparr>lastKey := Some key\<rparr>) key val (putFile p (dataOf es) w) =
     ((None, writerAt p (es @ [(key, val)])), putFile p (dataOf (es @ [(key, val)])) w)"
  using assms
  by (cases val)
    (auto simp: writeRecord_def writerAt_def wput_def appendIndex_def Let_def indexFrom_append
      encIdx_def encEntry_def indexStride_def)

lemma writerSet_calm:
  assumes "calm w" "dirExists p w" "length es < 2 ^ 32" "es = [] \<or> fst (last es) < key"
  shows "writerSet (writerAt p es) key val (putFile p (dataOf es) w) =
     ((None, writerAt p (es @ [(key, Some val)])), putFile p (dataOf (es @ [(key, Some val)])) w)"
proof -
  have "checkOrder (writerAt p es) key = Inr ((writerAt p es)\<lparr>lastKey := Some key\<rparr>)"
    using assms(4) by (auto simp: checkOrder_def writerAt_def)
  then show ?thesis
    using writeRecord_calm [OF assms(1-3), of key "Some val"] by (simp add: writerSet_def)
qed

lemma writerDelete_calm:
  assumes "calm w" "dirExists p w" "length es < 2 ^ 32" "es = [] \<or> fst (last es) < key"
  shows "writerDelete (writerAt p es) key (putFile p (dataOf es) w) =
     ((None, writerAt p (es @ [(key, None)])), putFile p (dataOf (es @ [(key, None)])) w)"
proof -
  have "checkOrder (writerAt p es) key = Inr ((writerAt p es)\<lparr>lastKey := Some key\<rparr>)"
    using assms(4) by (auto simp: checkOrder_def writerAt_def)
  then show ?thesis
    using writeRecord_calm [OF assms(1-3), of key None] by (simp add: writerDelete_def)
qed

text \<open>The filter the writer stores knows every key and is empty for an empty table.\<close>

lemma bloomOf_ok:
  assumes "length es \<le> 429496728"
  shows "addAll Add (New (int (length es))) (map fst es) = Inr (bloomOf es)"
    and "filterOk (bloomOf es)" and "fk (bloomOf es) = 7"
    and "\<And>k. k \<in> fst ` set es \<Longrightarrow> Has (bloomOf es) k = Inr True"
proof -
  have ok: "filterOk (New (int (length es)))" using assms by (intro New_ok) simp
  then obtain f where f: "addAll Add (New (int (length es))) (map fst es) = Inr f" "filterOk f"
    using bloom.addAll_total by blast
  then show "addAll Add (New (int (length es))) (map fst es) = Inr (bloomOf es)"
    and "filterOk (bloomOf es)" by (simp_all add: bloomOf_def)
  show "fk (bloomOf es) = 7"
    using addAll_k [OF ok f(1)] f by (simp add: bloomOf_def New_K)
  show "\<And>k. k \<in> fst ` set es \<Longrightarrow> Has (bloomOf es) k = Inr True"
    using bloom.addAll_has [OF ok f(1)] f by (simp add: bloomOf_def)
qed

lemma bloomOf_Nil: "Has (bloomOf []) k = Inr False"
proof -
  have ok: "filterOk (New 0)" by (rule New_ok) simp
  have "\<not> bitSet (fbits (New 0)) b" if "b \<in> set (probes (New 0) k)" for b
    using probes_in_range [OF ok that] by (simp add: bitSet_def New_def)
  moreover have "probes (New 0) k \<noteq> []" by (simp add: probes_def New_K)
  ultimately have "\<not> (\<forall>b\<in>set (probes (New 0) k). bitSet (fbits (New 0)) b)"
    by (metis list.set_sel(1))
  then show ?thesis using ok by (simp add: bloomOf_def Has_bitSet)
qed

lemma bloomOf_size:
  assumes "length es \<le> 429496728"
  shows "0 < length (fbits (bloomOf es))" and "length (fbits (bloomOf es)) < 2 ^ 29"
proof -
  have ok: "filterOk (bloomOf es)" using bloomOf_ok(2) assms .
  have "fm (bloomOf es) \<noteq> 0" using ok by (simp add: filterOk_def)
  then have "0 < unat (fm (bloomOf es))" by (simp add: unat_gt_0)
  then show "0 < length (fbits (bloomOf es))" using ok by (simp add: filterOk_def)
  show "length (fbits (bloomOf es)) < 2 ^ 29"
    using ok unat_u32_lt [of "fm (bloomOf es)"] by (simp add: filterOk_def)
qed

lemma writerClose_calm:
  assumes "calm w" "dirExists p w" "sstOk es"
  shows "writerClose (writerAt p es) (putFile p (dataOf es) w) = (None, putFile p (sstImage es) w)"
proof -
  have n: "length es \<le> 429496728" and eok: "list_all entryOk es"
    using assms(3) by (auto simp: sstOk_def)
  have bb: "buildBloom (writerAt p es) (length (dataOf es)) (putFile p (dataOf es) w) =
      (Inr (bloomOf es), putFile p (dataOf es) w)"
  proof (cases "es = []")
    case True
    then show ?thesis by (simp add: buildBloom_def writerAt_def bloomOf_def)
  next
    case False
    have u: "unat (of_nat (length es) :: u32) = length es" using n by simp
    with False have "(of_nat (length es) :: u32) \<noteq> 0" by (metis length_0_conv unat_0)
    note this u
    with False n assms bloomLoop_data [OF eok, of 0 "[]"] bloomOf_ok(1) [OF n] show ?thesis
      by (simp add: buildBloom_def writerAt_def)
  qed
  then have "buildBloom (writerAt p es) (woffset (writerAt p es)) (putFile p (dataOf es) w) =
      (Inr (bloomOf es), putFile p (dataOf es) w)"
    by (simp add: writerAt_def)
  with assms show ?thesis
    by (simp add: writerClose_def Let_def) (simp add: writerAt_def sstImage_def footerOf_def
        Bytes_def K_def bloomOf_ok(3) [OF n])
qed

section \<open>The reader of a written file\<close>

definition readerOf :: "path \<Rightarrow> entry list \<Rightarrow> Reader" where
  "readerOf p es =
     \<lparr>rpath = p, rid = idOfName p, rfile = sstImage es, rindex = idxOf es,
      rfilter = Some (bloomOf es), dataEnd = int (length (dataOf es)),
      indexOff = int (length (dataOf es) + length (fbits (bloomOf es))),
      dataCount = of_nat (length es)\<rparr>"

lemma idxOf_ok:
  assumes "sstOk es" shows "list_all idxOk (idxOf es)"
proof -
  have "idxOk x" if x: "x \<in> set (idxOf es)" for x
  proof -
    obtain n where n: "n < length es" "x = (fst (es ! n), int (length (dataOf (take n es))))"
      using indexFrom_entry [OF x] by auto
    have "length (dataOf (take n es)) \<le> length (dataOf es)"
      by (subst (2) concat_map_length_drop [of _ _ n]) simp
    moreover have "entryOk (es ! n)" using assms n(1) by (simp add: sstOk_def list_all_length)
    ultimately show ?thesis using assms n(2) by (simp add: idxOk_def sstOk_def entryOk_def)
  qed
  then show ?thesis by (simp add: list_all_iff)
qed

lemma length_footerOf [simp]: "length (footerOf es) = 28"
  by (simp add: footerOf_def encFooter_def)

lemma sint_of_nat_u64: "n < 2 ^ 63 \<Longrightarrow> sint (of_nat n :: u64) = int n"
  using sint_of_int_u64 [of "int n"] by simp

lemma loadFooter_image:
  assumes "sstOk es" and "rfile r = sstImage es"
  shows "loadFooterAndIndex r = Inr (r\<lparr>indexOff := int (length (dataOf es) + length (fbits (bloomOf es))),
     dataEnd := int (length (dataOf es)), dataCount := of_nat (length es),
     rfilter := Some (bloomOf es), rindex := idxOf es\<rparr>)"
proof -
  let ?d = "length (dataOf es)" and ?b = "length (fbits (bloomOf es))"
  have n: "length es \<le> 429496728" and d: "?d < 2 ^ 62" using assms(1) by (auto simp: sstOk_def)
  note b = bloomOf_size [OF n]
  have fb: "drop (length (sstImage es) - footerSize) (sstImage es) = footerOf es"
    by (simp add: sstImage_def footerSize_def)
  have dec: "get64 (take 8 (footerOf es)) = of_nat (?d + ?b)"
    "get32 (take 4 (drop 8 (footerOf es))) = of_nat (length (idxOf es))"
    "get32 (take 4 (drop 12 (footerOf es))) = of_nat (length es)"
    "get32 (take 4 (drop 16 (footerOf es))) = of_nat ?b"
    "get32 (take 4 (drop 20 (footerOf es))) = 7"
    "get32 (take 4 (drop 24 (footerOf es))) = magic"
    by (simp_all add: footerOf_def encFooter_def)
  have bs: "unat (of_nat ?b :: u32) = ?b" "(0 :: u32) < of_nat ?b"
    using b by (simp_all add: word_less_nat_alt)
  have uc: "(ucast (of_nat ?b :: u32) :: u64) = of_nat ?b"
    using arg_cong [OF bs(1), of "of_nat :: nat \<Rightarrow> u64"] by simp
  have off: "sint (of_nat (?d + ?b) :: u64) = int (?d + ?b)"
    "sint (of_nat (?d + ?b) - of_nat ?b :: u64) = int ?d"
    using d b by (simp_all only: sint_of_nat_u64 of_nat_add add_diff_cancel_right')
      (simp_all add: sint_of_nat_u64 flip: of_nat_add)
  have icount: "unat (of_nat (length (idxOf es)) :: u32) = length (idxOf es)"
    using indexFrom_length [of 0 0 es] n by simp
  have bits: "readFull ?b (drop ?d (sstImage es)) =
      Inr (fbits (bloomOf es), concat (map encIdx (idxOf es)) @ footerOf es)"
    by (simp add: sstImage_def)
  have idx: "readN readIndexEntry (length (idxOf es)) (drop (?d + ?b) (sstImage es)) =
      Inr (idxOf es, footerOf es)"
    using index_codec.readN_concat [OF idxOf_ok [OF assms(1)]] by (simp add: sstImage_def)
  have ld: "Load (fbits (bloomOf es)) 7 = bloomOf es"
    using Load_Bytes [OF bloomOf_ok(2) [OF n]] bloomOf_ok(3) [OF n] by (simp add: Bytes_def K_def)
  have len: "\<not> length (sstImage es) < footerSize" by (simp add: sstImage_def footerSize_def)
  show ?thesis
    unfolding loadFooterAndIndex_def assms(2) Let_def fb dec
    using len bs by (simp only: uc off) (simp add: seekTo_def bits idx icount ld nat_add_distrib)
qed

lemma sstOpen_image:
  assumes "calm w" "lookupFile p w = Some (sstImage es)" "sstOk es"
  shows "sstOpen p w = (Inr (readerOf p es), w)"
  using assms by (simp add: sstOpen_def loadFooter_image readerOf_def)

section \<open>Lookups and iteration\<close>

lemma rfile_readerOf [simp]: "rfile (readerOf p es) = sstImage es"
  and dataEnd_readerOf [simp]: "dataEnd (readerOf p es) = int (length (dataOf es))"
  by (simp_all add: readerOf_def)

text \<open>
  Where the index sends a search: the offset of a record that is not past the key, so that
  the rest of the data section still decides the lookup.
\<close>

lemma seekOffset_readerOf:
  assumes "sorted_wrt (<) (map fst es)" "es \<noteq> []"
  shows "\<exists>n < length es. seekOffset (readerOf p es) key = int (length (dataOf (take n es))) \<and>
    (n = 0 \<or> fst (es ! n) \<le> key)"
proof -
  let ?r = "seekSearch (idxOf es) key 0 (int (length (idxOf es)) - 1) 0"
  obtain xs where hd: "idxOf es = (fst (hd es), 0) # xs" using indexFrom_hd [OF assms(2)] by blast
  have r: "0 \<le> ?r" "?r < int (length (idxOf es))" "?r = 0 \<or> fst (idxOf es ! nat ?r) \<le> key"
    using seekSearch_sound [of 0 "int (length (idxOf es)) - 1" "idxOf es" 0 key] hd by auto
  have off: "seekOffset (readerOf p es) key = snd (idxOf es ! nat ?r)"
    using hd by (simp add: seekOffset_def readerOf_def)
  show ?thesis
  proof (cases "?r = 0")
    case True
    with off hd assms(2) show ?thesis by (intro exI [of _ 0]) simp
  next
    case False
    have "idxOf es ! nat ?r \<in> set (idxOf es)" using r by simp
    then obtain n where "n < length es" "idxOf es ! nat ?r = (fst (es ! n), int (length (dataOf (take n es))))"
      using indexFrom_entry by fastforce
    with off r(3) False show ?thesis by (intro exI [of _ n]) simp
  qed
qed

lemma sstImage_drop:
  "n \<le> length es \<Longrightarrow> \<exists>s. drop (length (dataOf (take n es))) (sstImage es) = dataOf (drop n es) @ s"
  by (rule exI) (simp add: sstImage_def concat_map_length_drop [of encEntry es n])

lemma length_dataOf_split:
  "length (dataOf es) = length (dataOf (take n es)) + length (dataOf (drop n es))"
  by (subst concat_map_length_drop [of _ _ n]) simp

lemma list_all_drop: "list_all P xs \<Longrightarrow> list_all P (drop n xs)"
  by (metis append_take_drop_id list_all_append)

lemma sorted_wrt_map_drop: "sorted_wrt R (map f xs) \<Longrightarrow> sorted_wrt R (map f (drop n xs))"
  by (simp add: drop_map [symmetric] sorted_wrt_drop)

lemma RawGet_readerOf:
  assumes "sstOk es"
  shows "RawGet (readerOf p es) key = Inr (toRaw (map_of es key))"
proof -
  have so: "sorted_wrt (<) (map fst es)" and eo: "list_all entryOk es" and n: "length es \<le> 429496728"
    using assms by (auto simp: sstOk_def)
  have flt: "rfilter (readerOf p es) = Some (bloomOf es)" by (simp add: readerOf_def)
  obtain h where h: "Has (bloomOf es) key = Inr h"
    using bloom.has_total [OF bloomOf_ok(2) [OF n]] by blast
  show ?thesis
  proof (cases h)
    case False
    then have "key \<notin> fst ` set es" using bloomOf_ok(4) [OF n] h by fastforce
    then have "map_of es key = None" by (simp add: map_of_eq_None_iff)
    with False h flt show ?thesis by (simp add: RawGet_def)
  next
    case True
    then have ne: "es \<noteq> []" using h bloomOf_Nil by fastforce
    then obtain m where m: "m < length es" "seekOffset (readerOf p es) key = int (length (dataOf (take m es)))"
      "m = 0 \<or> fst (es ! m) \<le> key"
      using seekOffset_readerOf [OF so] by blast
    obtain s where s: "drop (length (dataOf (take m es))) (sstImage es) = dataOf (drop m es) @ s"
      using sstImage_drop [of m es] m(1) by auto
    have "map_of (drop m es) key = map_of es key"
      using m so by (cases "m = 0") (auto intro: sorted_wrt_less_map_of_drop)
    moreover have "rawLoop (int (length (dataOf (take m es)) + length (dataOf (drop m es)))) key
        \<lparr>brest = dataOf (drop m es) @ s, bpos = length (dataOf (take m es))\<rparr> =
        Inr (toRaw (map_of (drop m es) key))"
      using eo so m(1) by (intro rawLoop_data) (simp_all add: list_all_drop sorted_wrt_map_drop)
    ultimately show ?thesis
      using True h flt m(2) s
      by (simp add: RawGet_def seekTo_def length_dataOf_split [of es m])
  qed
qed

lemma CompactionIterator_readerOf:
  assumes "sstOk es" shows "CompactionIterator (readerOf p es) = es"
  using iterLoop_data [of es 0] assms
  by (simp add: CompactionIterator_def sstImage_def sstOk_def)

lemma filter_drop_sorted:
  fixes es :: "entry list"
  assumes "sorted_wrt (<) (map fst es)" "n < length es" "n = 0 \<or> fst (es ! n) \<le> s"
  shows "filter (\<lambda>x. inRange (Some s) end (fst x)) (drop n es) = filter (\<lambda>x. inRange (Some s) end (fst x)) es"
proof (cases "n = 0")
  case False
  have "\<not> inRange (Some s) end (fst x)" if x: "x \<in> set (take n es)" for x
  proof -
    obtain i where "i < n" "x = es ! i" using x assms(2) by (auto simp: in_set_conv_nth)
    then have "fst x < fst (es ! n)" using assms(1,2) by (simp add: sorted_wrt_iff_nth_less)
    then show ?thesis using assms(3) False by (auto simp: inRange_def)
  qed
  then have "filter (\<lambda>x. inRange (Some s) end (fst x)) (take n es) = []"
    by (simp add: filter_empty_conv)
  then show ?thesis by (metis append_Nil append_take_drop_id filter_append)
qed simp

lemma ScanIterator_readerOf:
  assumes "sstOk es"
  shows "ScanIterator (readerOf p es) start end = filter (\<lambda>x. inRange start end (fst x)) es"
proof -
  have so: "sorted_wrt (<) (map fst es)" and eo: "list_all entryOk es" using assms by (auto simp: sstOk_def)
  have walk: "scanIterLoop (int (length (dataOf es))) start end
      \<lparr>brest = drop (length (dataOf (take n es))) (sstImage es), bpos = length (dataOf (take n es))\<rparr> =
      filter (\<lambda>x. inRange start end (fst x)) (drop n es)" if "n \<le> length es" for n
    using sstImage_drop [OF that] scanIterLoop_data [of "drop n es" "length (dataOf (take n es))" start "end"]
    by (auto simp: eo so list_all_drop sorted_wrt_map_drop length_dataOf_split [of es n])
  show ?thesis
  proof (cases "start = None \<or> es = []")
    case True
    then show ?thesis
      using walk [of 0] by (auto simp: ScanIterator_def seekTo_def seekOffset_def readerOf_def split: option.splits)
  next
    case False
    then obtain s where s: "start = Some s" by auto
    obtain n where "n < length es" "seekOffset (readerOf p es) s = int (length (dataOf (take n es)))"
      "n = 0 \<or> fst (es ! n) \<le> s"
      using seekOffset_readerOf [OF so, of p s] False by blast
    with s walk [of n] filter_drop_sorted [OF so, of n s "end"] show ?thesis
      by (simp add: ScanIterator_def seekTo_def)
  qed
qed

section \<open>The interface of a sorted source\<close>

text \<open>
  What the store relies on: a source answers point lookups, range scans and full iteration
  consistently with one strictly ascending list of entries.
\<close>

fun searchReaders :: "('r \<Rightarrow> bytes \<Rightarrow> err + rawResult) \<Rightarrow> 'r list \<Rightarrow> bytes \<Rightarrow> err + bytes option" where
  "searchReaders rawGet [] key = Inr None"
| "searchReaders rawGet (r # rs) key =
     (case rawGet r key of
        Inl e \<Rightarrow> Inl e
      | Inr Deleted \<Rightarrow> Inr None
      | Inr (Found v) \<Rightarrow> Inr (Some v)
      | Inr Absent \<Rightarrow> searchReaders rawGet rs key)"

text \<open>The newest entry for a key in a list of layers, newest first.\<close>

fun layered :: "entry list list \<Rightarrow> bytes \<rightharpoonup> bytes option" where
  "layered [] k = None"
| "layered (es # ls) k = (case map_of es k of None \<Rightarrow> layered ls k | Some v \<Rightarrow> Some v)"

locale sorted_source =
  fixes rawGet :: "'r \<Rightarrow> bytes \<Rightarrow> err + rawResult"
    and scanIter :: "'r \<Rightarrow> bytes option \<Rightarrow> bytes option \<Rightarrow> entry list"
    and allIter :: "'r \<Rightarrow> entry list"
    and inv :: "'r \<Rightarrow> bool"
  assumes raw_get: "inv r \<Longrightarrow> rawGet r k = Inr (toRaw (map_of (allIter r) k))"
    and scan_iter: "inv r \<Longrightarrow> scanIter r s e = filter (\<lambda>x. inRange s e (fst x)) (allIter r)"
    and all_sorted: "inv r \<Longrightarrow> sorted_wrt (<) (map fst (allIter r))"
begin

lemma search_layers:
  "list_all inv rs \<Longrightarrow> searchReaders rawGet rs k = Inr (Option.bind (layered (map allIter rs) k) id)"
proof (induction rs)
  case (Cons r rs)
  then show ?case
    by (cases "map_of (allIter r) k" rule: toRaw.cases) (auto simp: raw_get)
qed simp

lemma scan_sorted: "inv r \<Longrightarrow> sorted_wrt (<) (map fst (scanIter r s e))"
  using all_sorted [of r] by (simp add: scan_iter sorted_wrt_map sorted_wrt_filter)

end

definition readerOk :: "Reader \<Rightarrow> bool" where
  "readerOk r \<longleftrightarrow> (\<exists>es. sstOk es \<and> r = readerOf (rpath r) es)"

lemma readerOk_readerOf: "sstOk es \<Longrightarrow> readerOk (readerOf p es)"
  unfolding readerOk_def by (intro exI [of _ es]) (simp add: readerOf_def)

lemma readerOk_cases:
  assumes "readerOk r"
  shows "sstOk (CompactionIterator r)" and "r = readerOf (rpath r) (CompactionIterator r)"
proof -
  obtain es where es: "sstOk es" "r = readerOf (rpath r) es" using assms by (auto simp: readerOk_def)
  then have "CompactionIterator r = es" by (metis CompactionIterator_readerOf)
  with es show "sstOk (CompactionIterator r)" and "r = readerOf (rpath r) (CompactionIterator r)" by auto
qed

interpretation sst: sorted_source RawGet ScanIterator CompactionIterator readerOk
proof unfold_locales
  show "readerOk r \<Longrightarrow> RawGet r k = Inr (toRaw (map_of (CompactionIterator r) k))" for r k
    using readerOk_cases RawGet_readerOf by metis
  show "readerOk r \<Longrightarrow> ScanIterator r s e = filter (\<lambda>x. inRange s e (fst x)) (CompactionIterator r)" for r s e
    using readerOk_cases ScanIterator_readerOf by metis
  show "readerOk r \<Longrightarrow> sorted_wrt (<) (map fst (CompactionIterator r))" for r
    using readerOk_cases(1) by (auto simp: sstOk_def)
qed

end
