(* ===== verification/Kora_Merge.thy ===== *)
theory Kora_Merge
  imports Kora_Heap Kora_SSTable_Correct
begin

text \<open>
  The k-way merge of \<open>internal/store/sst_compact.go\<close> and \<open>internal/store/scan.go\<close>: a heap
  of source heads ordered by key and, for equal keys, by source index, newest first. Both
  files repeat the loop; what it pops is \<open>popSeq\<close>, what the two loop bodies make of it are
  \<open>mergeWrite\<close> and \<open>scanMerge\<close>. Neither body touches the heap, so running them over the
  sequence of popped entries is the loop. The source is an iterator, the list of what it
  still yields.
\<close>

section \<open>The heap of sources\<close>

text \<open>\<open>mergeEntry\<close> and \<open>scanEntry\<close>; the value is \<open>None\<close> for a tombstone.\<close>

record mergeEntry =
  meKey :: bytes
  meVal :: "bytes option"
  meIdx :: nat
  meIter :: "entry list"

definition mergeLess :: "mergeEntry \<Rightarrow> mergeEntry \<Rightarrow> bool" where
  "mergeLess a b =
     (let cmp = compareBytes (meKey a) (meKey b)
      in if cmp \<noteq> 0 then cmp < 0 else meIdx a < meIdx b)"

lemma mergeLess_iff: "mergeLess a b \<longleftrightarrow> meKey a < meKey b \<or> meKey a = meKey b \<and> meIdx a < meIdx b"
  by (auto simp: mergeLess_def Let_def)

interpretation merge_order: weak_order mergeLess
  by unfold_locales (auto simp: mergeLess_iff)

interpretation merge_queue: prio_queue "heapPush mergeLess" "heapPop mergeLess" mset "isHeap mergeLess" mergeLess
  by (rule merge_order.heap_prio_queue)

text \<open>\<open>if k, v, tomb, ok := iter(); ok { heap.Push(\<dots>) }\<close>.\<close>

definition pushNext :: "nat \<Rightarrow> entry list \<Rightarrow> mergeEntry list \<Rightarrow> mergeEntry list" where
  "pushNext i it h =
     (case it of
        [] \<Rightarrow> h
      | (k, v) # rest \<Rightarrow> heapPush mergeLess h \<lparr>meKey = k, meVal = v, meIdx = i, meIter = rest\<rparr>)"

fun pushSources :: "nat \<Rightarrow> entry list list \<Rightarrow> mergeEntry list \<Rightarrow> mergeEntry list" where
  "pushSources i [] h = h"
| "pushSources i (src # srcs) h = pushSources (i + 1) srcs (pushNext i src h)"

definition work :: "mergeEntry multiset \<Rightarrow> nat" where
  "work m = (\<Sum>e \<in># m. Suc (length (meIter e)))"

lemma work_pushNext: "work (mset (pushNext i it h)) = work (mset h) + length it"
  by (auto simp: pushNext_def work_def merge_queue.push_content split: list.splits)

lemma work_pop:
  "h \<noteq> [] \<Longrightarrow> work (mset h) = Suc (length (meIter (fst (heapPop mergeLess h)))) + work (mset (snd (heapPop mergeLess h)))"
  using merge_queue.pop_content [of h] by (simp add: work_def)

function popSeq :: "mergeEntry list \<Rightarrow> mergeEntry list" where
  "popSeq h =
     (if h = [] then []
      else
        let (e, h') = heapPop mergeLess h
        in e # popSeq (pushNext (meIdx e) (meIter e) h'))"
  by pat_completeness auto
termination
proof (relation "measure (\<lambda>h. work (mset h))")
  fix h p e h' assume "h \<noteq> []" "p = heapPop mergeLess h" "(e, h') = p"
  then show "(pushNext (meIdx e) (meIter e) h', h) \<in> measure (\<lambda>h. work (mset h))"
    using work_pop [of h] by (metis fst_conv snd_conv in_measure work_pushNext add.commute lessI add_Suc)
qed simp

declare popSeq.simps [simp del]

section \<open>The two loop bodies\<close>

fun mergeWrite ::
  "Writer \<Rightarrow> bytes option \<Rightarrow> mergeEntry list \<Rightarrow> world \<Rightarrow> (err option \<times> Writer) \<times> world" where
  "mergeWrite wr lk [] w = ((None, wr), w)"
| "mergeWrite wr lk (e # es) w =
     (if lk = None \<or> lk \<noteq> Some (meKey e) then
        (case meVal e of
           None \<Rightarrow> mergeWrite wr (Some (meKey e)) es w
         | Some v \<Rightarrow>
             (case writerSet wr (meKey e) v w of
                ((Some err, wr'), w') \<Rightarrow> ((Some err, wr'), w')
              | ((None, wr'), w') \<Rightarrow> mergeWrite wr' (Some (meKey e)) es w'))
      else mergeWrite wr lk es w)"

definition kWayMergeSSTables :: "Reader list \<Rightarrow> path \<Rightarrow> world \<Rightarrow> err option \<times> world" where
  "kWayMergeSSTables readers outPath w =
     (let h = pushSources 0 (map CompactionIterator readers) []
      in case NewWriter outPath w of
           (Inl e, w1) \<Rightarrow> (Some e, w1)
         | (Inr wr, w1) \<Rightarrow>
             (case mergeWrite wr None (popSeq h) w1 of
                ((Some e, wr'), w2) \<Rightarrow> (Some e, snd (writerClose wr' w2))
              | ((None, wr'), w2) \<Rightarrow> writerClose wr' w2))"

text \<open>
  The body of \<open>collectScan\<close> remembers the last key as \<open>append([]byte(nil), e.key...)\<close>, which
  is nil again for the empty key.
\<close>

fun scanMerge :: "bytes option \<Rightarrow> mergeEntry list \<Rightarrow> (bytes \<times> bytes) list" where
  "scanMerge lk [] = []"
| "scanMerge lk (e # es) =
     (if lk = None \<or> lk \<noteq> Some (meKey e) then
        let lk' = (if meKey e = [] then None else Some (meKey e))
        in case meVal e of
             None \<Rightarrow> scanMerge lk' es
           | Some v \<Rightarrow> (meKey e, v) # scanMerge lk' es
      else scanMerge lk es)"

section \<open>What is popped\<close>

type_synonym item = "bytes \<times> nat \<times> bytes option"

definition itemOf :: "mergeEntry \<Rightarrow> item" where
  "itemOf e = (meKey e, meIdx e, meVal e)"

definition items :: "mergeEntry \<Rightarrow> item set" where
  "items e = insert (itemOf e) ((\<lambda>(k, v). (k, meIdx e, v)) ` set (meIter e))"

definition itemLess :: "item \<Rightarrow> item \<Rightarrow> bool" where
  "itemLess x y \<longleftrightarrow> fst x < fst y \<or> fst x = fst y \<and> fst (snd x) < fst (snd y)"

definition heapInv :: "mergeEntry list \<Rightarrow> bool" where
  "heapInv h \<longleftrightarrow> isHeap mergeLess h \<and> distinct (map meIdx h) \<and>
     (\<forall>e \<in> set h. sorted_wrt (<) (meKey e # map fst (meIter e)))"

lemma heapInv_perm:
  assumes "isHeap mergeLess h'" "mset h' = mset h" "distinct (map meIdx h)"
    and "\<forall>e \<in> set h. sorted_wrt (<) (meKey e # map fst (meIter e))"
  shows "heapInv h'"
proof -
  have "distinct (map meIdx h')" using assms(2,3) by (metis mset_eq_imp_distinct_iff mset_map)
  moreover have "set h' = set h" using assms(2) by (metis set_mset_mset)
  ultimately show ?thesis using assms by (simp add: heapInv_def)
qed

lemma pushNext_inv:
  assumes "heapInv h" "sorted_wrt (<) (map fst it)" "i \<notin> meIdx ` set h"
  shows "heapInv (pushNext i it h)"
    and "(\<Union>e \<in> set (pushNext i it h). items e) = (\<lambda>(k, v). (k, i, v)) ` set it \<union> (\<Union>e \<in> set h. items e)"
    and "meIdx ` set (pushNext i it h) \<subseteq> insert i (meIdx ` set h)"
proof -
  have *: "heapInv (pushNext i it h) \<and>
    (\<Union>e \<in> set (pushNext i it h). items e) = (\<lambda>(k, v). (k, i, v)) ` set it \<union> (\<Union>e \<in> set h. items e) \<and>
    meIdx ` set (pushNext i it h) \<subseteq> insert i (meIdx ` set h)"
  proof (cases it)
    case Nil
    then show ?thesis using assms(1) by (auto simp: pushNext_def)
  next
    case (Cons kv rest)
    define e where "e = \<lparr>meKey = fst kv, meVal = snd kv, meIdx = i, meIter = rest\<rparr>"
    have p: "pushNext i it h = heapPush mergeLess h e" by (cases kv) (simp add: pushNext_def Cons e_def)
    have ie: "items e = (\<lambda>(k, v). (k, i, v)) ` set it" by (cases kv) (simp add: items_def itemOf_def e_def Cons)
    have m: "mset (heapPush mergeLess h e) = mset (e # h)" by (simp add: merge_queue.push_content)
    have "heapInv (heapPush mergeLess h e)"
      using assms Cons by (intro heapInv_perm [OF _ m] merge_queue.push_inv) (auto simp: heapInv_def e_def)
    moreover have "set (heapPush mergeLess h e) = insert e (set h)" using m by (metis list.simps(15) set_mset_mset)
    ultimately show ?thesis unfolding p using ie by (simp add: e_def)
  qed
  then show "heapInv (pushNext i it h)"
    and "(\<Union>e \<in> set (pushNext i it h). items e) = (\<lambda>(k, v). (k, i, v)) ` set it \<union> (\<Union>e \<in> set h. items e)"
    and "meIdx ` set (pushNext i it h) \<subseteq> insert i (meIdx ` set h)" by blast+
qed

lemma pop_step:
  assumes inv: "heapInv h" and ne: "h \<noteq> []" and pop: "heapPop mergeLess h = (e, h')"
  defines "h2 \<equiv> pushNext (meIdx e) (meIter e) h'"
  shows "heapInv h2" and "(\<Union>x \<in> set h. items x) = insert (itemOf e) (\<Union>x \<in> set h2. items x)"
    and "y \<in> (\<Union>x \<in> set h2. items x) \<Longrightarrow> itemLess (itemOf e) y"
proof -
  have m: "mset h = mset (e # h')" using merge_queue.pop_content [of h] ne pop by simp
  then have sh: "set h = insert e (set h')" by (metis list.simps(15) set_mset_mset)
  have "distinct (map meIdx (e # h'))" using inv m by (metis heapInv_def mset_eq_imp_distinct_iff mset_map)
  then have d: "meIdx e \<notin> meIdx ` set h'" "distinct (map meIdx h')" by auto
  have srt: "sorted_wrt (<) (meKey x # map fst (meIter x))" if "x \<in> set h" for x using inv that by (simp add: heapInv_def)
  have "isHeap mergeLess h'" using merge_queue.pop_inv [of h] inv ne pop by (simp add: heapInv_def)
  then have inv': "heapInv h'" using d srt sh by (simp add: heapInv_def)
  have it: "sorted_wrt (<) (map fst (meIter e))" using srt [of e] sh by simp
  note pn = pushNext_inv [OF inv' it d(1), folded h2_def]
  show "heapInv h2" by (rule pn(1))
  show "(\<Union>x \<in> set h. items x) = insert (itemOf e) (\<Union>x \<in> set h2. items x)"
    unfolding pn(2) sh by (auto simp: items_def)
  assume "y \<in> (\<Union>x \<in> set h2. items x)"
  then consider "y \<in> (\<lambda>(k, v). (k, meIdx e, v)) ` set (meIter e)" | x where "x \<in> set h'" "y \<in> items x"
    unfolding pn(2) by blast
  then show "itemLess (itemOf e) y"
  proof cases
    case 1
    then show ?thesis using srt [of e] sh by (auto simp: itemLess_def itemOf_def)
  next
    case 2
    have min: "\<not> mergeLess x e" using merge_queue.pop_min [of h x] inv sh 2(1) pop by (simp add: heapInv_def)
    have ne: "meIdx x \<noteq> meIdx e" using d(1) 2(1) by (metis imageI)
    have s: "sorted_wrt (<) (meKey x # map fst (meIter x))" using srt 2(1) sh by simp
    show ?thesis using 2(2) min ne s by (fastforce simp: items_def itemOf_def itemLess_def mergeLess_iff)
  qed
qed

lemma popSeq_spec:
  "heapInv h \<Longrightarrow> set (map itemOf (popSeq h)) = (\<Union>e \<in> set h. items e) \<and> sorted_wrt itemLess (map itemOf (popSeq h))"
proof (induction h rule: popSeq.induct)
  case (1 h)
  show ?case
  proof (cases "h = []")
    case True
    then show ?thesis by (simp add: popSeq.simps)
  next
    case False
    obtain e h' where pop: "heapPop mergeLess h = (e, h')" by (cases "heapPop mergeLess h")
    note st = pop_step [OF "1.prems" False pop]
    have eq: "popSeq h = e # popSeq (pushNext (meIdx e) (meIter e) h')"
      using False pop by (subst popSeq.simps) simp
    have "set (map itemOf (popSeq (pushNext (meIdx e) (meIter e) h'))) = (\<Union>x \<in> set (pushNext (meIdx e) (meIter e) h'). items x) \<and>
        sorted_wrt itemLess (map itemOf (popSeq (pushNext (meIdx e) (meIter e) h')))"
      using "1.IH" [OF False pop [symmetric] refl] st(1) by simp
    then show ?thesis unfolding eq using st(2,3) by simp
  qed
qed

text \<open>The sequence popped for a list of sources: every entry, by key and then by source.\<close>

definition allItems :: "nat \<Rightarrow> entry list list \<Rightarrow> item set" where
  "allItems i srcs = {(k, i + j, v) | k j v. j < length srcs \<and> (k, v) \<in> set (srcs ! j)}"

lemma mem_allItems: "(k, n, v) \<in> allItems i srcs \<longleftrightarrow> (\<exists>j<length srcs. n = i + j \<and> (k, v) \<in> set (srcs ! j))"
  by (auto simp: allItems_def)

lemma allItems_Cons: "allItems i (src # srcs) = (\<lambda>(k, v). (k, i, v)) ` set src \<union> allItems (i + 1) srcs"
proof (rule set_eqI)
  fix x :: item
  obtain k n v where x: "x = (k, n, v)" by (cases x)
  have "(k, n, v) \<in> (\<lambda>(k, v). (k, i, v)) ` set src \<longleftrightarrow> n = i \<and> (k, v) \<in> set src" by force
  then show "x \<in> allItems i (src # srcs) \<longleftrightarrow> x \<in> (\<lambda>(k, v). (k, i, v)) ` set src \<union> allItems (i + 1) srcs"
    unfolding x Un_iff mem_allItems length_Cons Ex_less_Suc2 by simp
qed

lemma pushSources_inv:
  assumes "heapInv h" "\<forall>src \<in> set srcs. sorted_wrt (<) (map fst src)" "\<forall>j \<in> meIdx ` set h. j < i"
  shows "heapInv (pushSources i srcs h) \<and>
    (\<Union>e \<in> set (pushSources i srcs h). items e) = allItems i srcs \<union> (\<Union>e \<in> set h. items e)"
  using assms
proof (induction i srcs h rule: pushSources.induct)
  case (1 i h)
  then show ?case by (simp add: allItems_def)
next
  case (2 i src srcs h)
  have "i \<notin> meIdx ` set h" using "2.prems"(3) by blast
  note pn = pushNext_inv [OF "2.prems"(1) _ this, of src]
  have "sorted_wrt (<) (map fst src)" using "2.prems"(2) by simp
  note pn = pn [OF this]
  have "\<forall>j \<in> meIdx ` set (pushNext i src h). j < i + 1" using pn(3) "2.prems"(3) by fastforce
  then have "heapInv (pushSources (i + 1) srcs (pushNext i src h)) \<and>
      (\<Union>e \<in> set (pushSources (i + 1) srcs (pushNext i src h)). items e) =
        allItems (i + 1) srcs \<union> (\<Union>e \<in> set (pushNext i src h). items e)"
    using "2.IH" pn(1) "2.prems"(2) by simp
  then show ?case unfolding pushSources.simps allItems_Cons pn(2) by (simp add: Un_ac)
qed

definition mergedSeq :: "entry list list \<Rightarrow> mergeEntry list" where
  "mergedSeq srcs = popSeq (pushSources 0 srcs [])"

lemma mergedSeq_spec:
  assumes "\<forall>src \<in> set srcs. sorted_wrt (<) (map fst src)"
  shows "set (map itemOf (mergedSeq srcs)) = allItems 0 srcs"
    and "sorted_wrt itemLess (map itemOf (mergedSeq srcs))"
proof -
  have "heapInv []" by (simp add: heapInv_def isHeap_def)
  then have p: "heapInv (pushSources 0 srcs [])"
    "(\<Union>e \<in> set (pushSources 0 srcs []). items e) = allItems 0 srcs"
    using pushSources_inv [OF _ assms, of "[]" 0] by simp_all
  show "set (map itemOf (mergedSeq srcs)) = allItems 0 srcs"
    and "sorted_wrt itemLess (map itemOf (mergedSeq srcs))"
    using popSeq_spec [OF p(1)] p(2) by (simp_all add: mergedSeq_def)
qed

lemma mergedSeq_keys_sorted:
  assumes "\<forall>src \<in> set srcs. sorted_wrt (<) (map fst src)"
  shows "sorted (map meKey (mergedSeq srcs))"
proof -
  have "sorted_wrt (\<lambda>x y. meKey x \<le> meKey y) (mergedSeq srcs)"
    using mergedSeq_spec(2) [OF assms] unfolding sorted_wrt_map
    by (rule sorted_wrt_mono_rel [rotated]) (auto simp: itemLess_def itemOf_def)
  then show ?thesis by (simp add: sorted_map)
qed

section \<open>Newest entry wins\<close>

text \<open>The entries a loop body does not skip.\<close>

fun kept :: "bytes option \<Rightarrow> mergeEntry list \<Rightarrow> entry list" where
  "kept lk [] = []"
| "kept lk (e # es) =
     (if lk = None \<or> lk \<noteq> Some (meKey e) then (meKey e, meVal e) # kept (Some (meKey e)) es else kept lk es)"

abbreviation entryOf :: "mergeEntry \<Rightarrow> entry" where
  "entryOf e \<equiv> (meKey e, meVal e)"

lemma kept_spec:
  assumes "sorted (map meKey es)" "\<And>l. lk = Some l \<Longrightarrow> \<forall>e \<in> set es. l \<le> meKey e"
  shows "sorted_wrt (<) (map fst (kept lk es)) \<and>
    (\<forall>x \<in> set (kept lk es). (\<forall>l. lk = Some l \<longrightarrow> l < fst x) \<and> x \<in> set (map entryOf es)) \<and>
    (\<forall>k. map_of (kept lk es) k = (if lk = Some k then None else map_of (map entryOf es) k))"
  using assms
proof (induction lk es rule: kept.induct)
  case (2 lk e es)
  have tl: "sorted (map meKey es)" "\<forall>x \<in> set es. meKey e \<le> meKey x" using "2.prems"(1) by auto
  have ge: "\<And>l. lk = Some l \<Longrightarrow> \<forall>x \<in> set es. l \<le> meKey x" "\<And>l. lk = Some l \<Longrightarrow> l \<le> meKey e"
    using "2.prems"(2) by auto
  show ?case
  proof (cases "lk = None \<or> lk \<noteq> Some (meKey e)")
    case True
    have IH: "sorted_wrt (<) (map fst (kept (Some (meKey e)) es))"
      "\<And>x. x \<in> set (kept (Some (meKey e)) es) \<Longrightarrow> meKey e < fst x \<and> x \<in> set (map entryOf es)"
      "\<And>k. map_of (kept (Some (meKey e)) es) k = (if meKey e = k then None else map_of (map entryOf es) k)"
      using "2.IH"(1) [OF True tl(1)] tl(2) by auto
    have l: "l < meKey e" if "lk = Some l" for l using ge(2) [OF that] True that by auto
    have "map_of (map entryOf es) k = None" if "lk = Some k" for k
    proof -
      have "k \<notin> fst ` set (map entryOf es)" using l [OF that] tl(2) by fastforce
      then show ?thesis by (simp only: map_of_eq_None_iff) simp
    qed
    moreover have "l < fst x" if "lk = Some l" "x \<in> set (kept (Some (meKey e)) es)" for l x
      using l [OF that(1)] IH(2) [OF that(2)] less_trans by blast
    ultimately show ?thesis using True IH l by auto
  next
    case False
    then show ?thesis using "2.IH"(2) [OF False tl(1)] ge(1) by auto
  qed
qed simp

lemma layered_index:
  "layered srcs k = Some v \<longleftrightarrow>
     (\<exists>j<length srcs. map_of (srcs ! j) k = Some v \<and> (\<forall>i<j. map_of (srcs ! i) k = None))"
proof (induction srcs)
  case (Cons src srcs)
  show ?case
  proof (cases "map_of src k")
    case None
    then show ?thesis using Cons.IH unfolding length_Cons Ex_less_Suc2 by (simp add: All_less_Suc2)
  next
    case (Some w)
    then show ?thesis unfolding length_Cons Ex_less_Suc2 by (auto simp: All_less_Suc2)
  qed
qed simp

lemma map_of_first:
  "map_of (map entryOf es) k = Some v \<Longrightarrow>
     \<exists>xs e ys. es = xs @ e # ys \<and> entryOf e = (k, v) \<and> k \<notin> meKey ` set xs"
proof (induction es)
  case (Cons x es)
  show ?case
  proof (cases "meKey x = k")
    case True
    then show ?thesis using Cons.prems by (intro exI [of _ "[]"]) simp
  next
    case False
    then obtain xs e ys where "es = xs @ e # ys" "entryOf e = (k, v)" "k \<notin> meKey ` set xs"
      using Cons by auto
    then show ?thesis using False by (intro exI [of _ "x # xs"] exI [of _ e] exI [of _ ys]) simp
  qed
qed simp

text \<open>The first of several entries with one key in the popped sequence comes from the newest source.\<close>

lemma mergedSeq_mem:
  assumes srcs: "\<forall>src \<in> set srcs. sorted_wrt (<) (map fst src)"
  shows "e \<in> set (mergedSeq srcs) \<Longrightarrow> meIdx e < length srcs \<and> map_of (srcs ! meIdx e) (meKey e) = Some (meVal e)"
    and "j < length srcs \<Longrightarrow> map_of (srcs ! j) k = Some v \<Longrightarrow>
      \<exists>e \<in> set (mergedSeq srcs). meKey e = k \<and> meIdx e = j \<and> meVal e = v"
proof -
  note sp = mergedSeq_spec(1) [OF srcs]
  have mo: "map_of (srcs ! j) k = Some v \<longleftrightarrow> (k, v) \<in> set (srcs ! j)" if "j < length srcs" for j k v
    using srcs that by (intro map_of_eq_Some_iff) (simp add: strict_sorted_iff)
  {
    assume "e \<in> set (mergedSeq srcs)"
    then have "itemOf e \<in> allItems 0 srcs" unfolding sp [symmetric] by simp
    then show "meIdx e < length srcs \<and> map_of (srcs ! meIdx e) (meKey e) = Some (meVal e)"
      using mo by (auto simp: itemOf_def mem_allItems)
  next
    assume j: "j < length srcs" "map_of (srcs ! j) k = Some v"
    then have "(k, j, v) \<in> set (map itemOf (mergedSeq srcs))" unfolding sp mem_allItems using mo by auto
    then show "\<exists>e \<in> set (mergedSeq srcs). meKey e = k \<and> meIdx e = j \<and> meVal e = v" by (auto simp: itemOf_def)
  }
qed

lemma mergedSeq_first:
  assumes srcs: "\<forall>src \<in> set srcs. sorted_wrt (<) (map fst src)"
    and m: "map_of (map entryOf (mergedSeq srcs)) k = Some v"
  shows "\<exists>e \<in> set (mergedSeq srcs). meKey e = k \<and> meVal e = v \<and>
    (\<forall>x \<in> set (mergedSeq srcs). meKey x = k \<longrightarrow> meIdx e \<le> meIdx x)"
proof -
  obtain xs e ys where s: "mergedSeq srcs = xs @ e # ys" "entryOf e = (k, v)" "k \<notin> meKey ` set xs"
    using map_of_first [OF m] by blast
  have ys: "itemLess (itemOf e) (itemOf y)" if "y \<in> set ys" for y
    using mergedSeq_spec(2) [OF srcs] that unfolding s(1) by (simp add: sorted_wrt_append)
  have "meIdx e \<le> meIdx x" if x: "x \<in> set (mergedSeq srcs)" "meKey x = k" for x
  proof -
    consider "x = e" | "x \<in> set ys" using x s(1,3) by auto
    then show ?thesis using ys [of x] x(2) s(2) by cases (auto simp: itemLess_def itemOf_def)
  qed
  then show ?thesis using s(1,2) by auto
qed

lemma mergedSeq_map:
  assumes srcs: "\<forall>src \<in> set srcs. sorted_wrt (<) (map fst src)"
  shows "map_of (map entryOf (mergedSeq srcs)) k = layered srcs k"
proof -
  note mem = mergedSeq_mem [OF srcs]
  have sub: "layered srcs k = Some v" if m: "map_of (map entryOf (mergedSeq srcs)) k = Some v" for v
  proof -
    obtain e where e: "e \<in> set (mergedSeq srcs)" "meKey e = k" "meVal e = v"
      "\<And>x. x \<in> set (mergedSeq srcs) \<Longrightarrow> meKey x = k \<Longrightarrow> meIdx e \<le> meIdx x"
      using mergedSeq_first [OF srcs m] by blast
    have "map_of (srcs ! i) k = None" if i: "i < meIdx e" for i
    proof (rule ccontr)
      assume "map_of (srcs ! i) k \<noteq> None"
      then obtain w where "map_of (srcs ! i) k = Some w" by blast
      moreover have "i < length srcs" using mem(1) [OF e(1)] i by simp
      ultimately obtain x where "x \<in> set (mergedSeq srcs)" "meKey x = k" "meIdx x = i" using mem(2) by blast
      then show False using e(4) [of x] i by simp
    qed
    then show ?thesis unfolding layered_index using mem(1) [OF e(1)] e(2,3) by blast
  qed
  show ?thesis
  proof (cases "map_of (map entryOf (mergedSeq srcs)) k")
    case None
    have "k \<notin> meKey ` set (mergedSeq srcs)" using None by (simp add: map_of_eq_None_iff image_image)
    then have "layered srcs k \<noteq> Some v" for v unfolding layered_index using mem(2) by blast
    then show ?thesis using None by (metis not_None_eq)
  next
    case (Some v)
    then show ?thesis using sub by simp
  qed
qed

section \<open>Results of the merges\<close>

text \<open>The merged table: the newest entry of every key, in key order.\<close>

definition newest :: "entry list list \<Rightarrow> entry list" where
  "newest srcs = kept None (mergedSeq srcs)"

text \<open>Tombstones dropped.\<close>

definition live :: "entry list \<Rightarrow> entry list" where
  "live es = filter (\<lambda>x. snd x \<noteq> None) es"

definition livePairs :: "entry list \<Rightarrow> (bytes \<times> bytes) list" where
  "livePairs es = map (\<lambda>x. (fst x, the (snd x))) (live es)"

lemma newest_spec:
  assumes "\<forall>src \<in> set srcs. sorted_wrt (<) (map fst src)"
  shows "sorted_wrt (<) (map fst (newest srcs))" and "map_of (newest srcs) = layered srcs"
    and "x \<in> set (newest srcs) \<Longrightarrow> \<exists>src \<in> set srcs. x \<in> set src"
proof -
  note sp = mergedSeq_spec [OF assms]
  note k = kept_spec [OF mergedSeq_keys_sorted [OF assms], of None]
  show "sorted_wrt (<) (map fst (newest srcs))" using k by (simp add: newest_def)
  show "map_of (newest srcs) = layered srcs" using k mergedSeq_map [OF assms] by (auto simp: newest_def fun_eq_iff)
  assume "x \<in> set (newest srcs)"
  then obtain e where e: "e \<in> set (mergedSeq srcs)" "x = entryOf e" using k by (auto simp: newest_def)
  have "itemOf e \<in> allItems 0 srcs" using sp(1) e(1) by (metis image_eqI set_map)
  then show "\<exists>src \<in> set srcs. x \<in> set src" using e(2) by (auto simp: itemOf_def mem_allItems)
qed

lemma live_map:
  assumes "sorted_wrt (<) (map fst es)"
  shows "sorted_wrt (<) (map fst (live es))"
    and "map_of (live es) k = (case map_of es k of Some (Some v) \<Rightarrow> Some (Some v) | _ \<Rightarrow> None)"
    and "map_of (livePairs es) k = Option.bind (map_of es k) id"
    and "sorted_wrt (<) (map fst (livePairs es))"
proof -
  have d: "distinct (map fst es)" using assms strict_sorted_iff by blast
  show s: "sorted_wrt (<) (map fst (live es))"
    using assms unfolding sorted_wrt_map live_def by (rule sorted_wrt_filter)
  then have d': "distinct (map fst (live es))" using strict_sorted_iff by blast
  show m: "map_of (live es) k = (case map_of es k of Some (Some v) \<Rightarrow> Some (Some v) | _ \<Rightarrow> None)"
  proof (rule option_eqI)
    fix v
    have "map_of (live es) k = Some v \<longleftrightarrow> map_of es k = Some v \<and> v \<noteq> None"
      using map_of_eq_Some_iff [OF d] map_of_eq_Some_iff [OF d'] by (auto simp: live_def)
    then show "map_of (live es) k = Some v \<longleftrightarrow> (case map_of es k of Some (Some v) \<Rightarrow> Some (Some v) | _ \<Rightarrow> None) = Some v"
      by (auto split: option.splits)
  qed
  have "map fst (livePairs es) = map fst (live es)" by (simp add: livePairs_def)
  then show "sorted_wrt (<) (map fst (livePairs es))" using s by simp
  have "map_of (map (\<lambda>x. (fst x, the (snd x))) xs) k = map_option the (map_of xs k)" for xs :: "entry list"
    by (induction xs) auto
  then have "map_of (livePairs es) k = map_option the (map_of (live es) k)" by (simp add: livePairs_def)
  then show "map_of (livePairs es) k = Option.bind (map_of es k) id"
    unfolding m by (auto split: option.splits)
qed

lemma scanMerge_kept:
  "[] \<notin> meKey ` set es \<Longrightarrow> scanMerge lk es = livePairs (kept lk es)"
  by (induction lk es rule: kept.induct) (auto simp: livePairs_def live_def Let_def split: option.splits)

lemma kept_length: "length (kept lk es) \<le> length es"
  by (induction lk es rule: kept.induct) auto

lemma mergeWrite_calm:
  assumes "calm w" "dirExists p w" "sorted (map meKey es)" "\<And>l. lk = Some l \<Longrightarrow> \<forall>e \<in> set es. l \<le> meKey e"
    and "ds = [] \<or> (\<exists>l. lk = Some l \<and> fst (last ds) \<le> l)" "length ds + length es < 2 ^ 32"
  shows "mergeWrite (writerAt p ds) lk es (putFile p (dataOf ds) w) =
    ((None, writerAt p (ds @ live (kept lk es))), putFile p (dataOf (ds @ live (kept lk es))) w)"
  using assms(3-6)
proof (induction lk es arbitrary: ds rule: kept.induct)
  case (2 lk e es)
  have tl: "sorted (map meKey es)" "\<And>l. Some (meKey e) = Some l \<Longrightarrow> \<forall>x \<in> set es. l \<le> meKey x"
    using "2.prems"(1) by auto
  show ?case
  proof (cases "lk = None \<or> lk \<noteq> Some (meKey e)")
    case True
    have less: "ds = [] \<or> fst (last ds) < meKey e"
    proof (cases "ds = []")
      case False
      then obtain l where l: "lk = Some l" "fst (last ds) \<le> l" using "2.prems"(3) by blast
      then have "l \<le> meKey e" "l \<noteq> meKey e" using "2.prems"(2) True by auto
      then have "fst (last ds) < meKey e" using l(2) by order
      then show ?thesis ..
    qed simp
    show ?thesis
    proof (cases "meVal e")
      case None
      have "ds = [] \<or> (\<exists>l. Some (meKey e) = Some l \<and> fst (last ds) \<le> l)" using less by auto
      then show ?thesis using "2.IH"(1) [OF True tl, of ds] "2.prems"(4) True None by (simp add: live_def)
    next
      case (Some v)
      have "writerSet (writerAt p ds) (meKey e) v (putFile p (dataOf ds) w) =
          ((None, writerAt p (ds @ [(meKey e, Some v)])), putFile p (dataOf (ds @ [(meKey e, Some v)])) w)"
        using assms(1,2) "2.prems"(4) less by (intro writerSet_calm) auto
      then show ?thesis
        using "2.IH"(1) [OF True tl, of "ds @ [(meKey e, Some v)]"] "2.prems"(4) True Some by (simp add: live_def)
    qed
  next
    case False
    then show ?thesis using "2.IH"(2) [OF False tl(1) _ "2.prems"(3)] "2.prems"(2,4) by simp
  qed
qed (simp add: live_def)

lemma kWayMerge_calm:
  assumes "calm w" "dirExists p w" "list_all readerOk rs"
    and "length (mergedSeq (map CompactionIterator rs)) < 2 ^ 32"
    and "sstOk (live (newest (map CompactionIterator rs)))"
  shows "kWayMergeSSTables rs p w = (None, putFile p (sstImage (live (newest (map CompactionIterator rs)))) w)"
proof -
  have srt: "\<forall>src \<in> set (map CompactionIterator rs). sorted_wrt (<) (map fst src)"
    using assms(3) sst.all_sorted by (auto simp: list_all_iff)
  have "mergeWrite (writerAt p []) None (mergedSeq (map CompactionIterator rs)) (putFile p (dataOf []) w) =
      ((None, writerAt p (live (newest (map CompactionIterator rs)))), putFile p (dataOf (live (newest (map CompactionIterator rs)))) w)"
    using mergeWrite_calm [OF assms(1,2) mergedSeq_keys_sorted [OF srt], of None "[]"] assms(4)
    by (simp add: newest_def)
  then show ?thesis
    using NewWriter_calm [OF assms(1,2)] writerClose_calm [OF assms(1,2,5)]
    by (simp add: kWayMergeSSTables_def mergedSeq_def Let_def)
qed

lemma scanMerge_sources:
  assumes "\<forall>src \<in> set srcs. sorted_wrt (<) (map fst src)" and "\<forall>src \<in> set srcs. [] \<notin> fst ` set src"
  shows "scanMerge None (popSeq (pushSources 0 srcs [])) = livePairs (newest srcs)"
proof -
  have "[] \<notin> meKey ` set (mergedSeq srcs)"
  proof
    assume "[] \<in> meKey ` set (mergedSeq srcs)"
    then obtain e where e: "e \<in> set (mergedSeq srcs)" "meKey e = []" by auto
    then have "map_of (srcs ! meIdx e) [] = Some (meVal e)" "srcs ! meIdx e \<in> set srcs"
      using mergedSeq_mem(1) [OF assms(1) e(1)] by simp_all
    then show False using assms(2) by (metis image_eqI fst_conv map_of_SomeD)
  qed
  then show ?thesis by (simp add: scanMerge_kept newest_def flip: mergedSeq_def)
qed

lemma livePairs_newest:
  assumes "\<forall>src \<in> set srcs. sorted_wrt (<) (map fst src)"
  shows "sorted_wrt (<) (map fst (livePairs (newest srcs)))"
    and "map_of (livePairs (newest srcs)) k = Option.bind (layered srcs k) id"
  using live_map(3,4) [OF newest_spec(1) [OF assms]] newest_spec(2) [OF assms] by simp_all

lemma sources_sorted:
  "list_all readerOk rs \<Longrightarrow> \<forall>src \<in> set (map CompactionIterator rs). sorted_wrt (<) (map fst src)"
  using sst.all_sorted by (auto simp: list_all_iff)

text \<open>The merged table answers like the search through the old ones.\<close>

lemma merged_get:
  assumes "list_all readerOk rs" "sstOk (live (newest (map CompactionIterator rs)))"
  shows "sstGet (readerOf p (live (newest (map CompactionIterator rs)))) k = searchReaders RawGet rs k"
proof -
  note srt = sources_sorted [OF assms(1)]
  have "map_of (live (newest (map CompactionIterator rs))) k =
      (case layered (map CompactionIterator rs) k of Some (Some v) \<Rightarrow> Some (Some v) | _ \<Rightarrow> None)"
    using live_map(2) [OF newest_spec(1) [OF srt]] newest_spec(2) [OF srt] by simp
  then show ?thesis
    unfolding sst.search_layers [OF assms(1)]
    by (auto simp: sstGet_def RawGet_readerOf [OF assms(2)] split: option.splits)
qed

section \<open>Properties\<close>

text \<open>
  C18: Compaction of SSTables: opening the merged file gives a table that answers every lookup as
  searching the old tables from newest to oldest did, and that contains no tombstone.
\<close>

theorem compaction_preserves_lookups:
  assumes "calm w" "dirExists p w" "list_all readerOk readers"
    and "length (mergedSeq (map CompactionIterator readers)) < 2 ^ 32"
    and "sstOk (live (newest (map CompactionIterator readers)))"
  shows "\<exists>w' r. kWayMergeSSTables readers p w = (None, w') \<and> sstOpen p w' = (Inr r, w') \<and> readerOk r \<and>
    (\<forall>k. sstGet r k = searchReaders RawGet readers k) \<and> list_all (\<lambda>x. snd x \<noteq> None) (CompactionIterator r)"
proof -
  define es where "es = live (newest (map CompactionIterator readers))"
  define w' where "w' = putFile p (sstImage es) w"
  have ok: "sstOk es" using assms(5) by (simp add: es_def)
  have "kWayMergeSSTables readers p w = (None, w')"
    using kWayMerge_calm [OF assms] by (simp add: es_def w'_def)
  moreover have "sstOpen p w' = (Inr (readerOf p es), w')"
    using assms(1,2) ok by (intro sstOpen_image) (simp_all add: w'_def)
  moreover have "list_all (\<lambda>x. snd x \<noteq> None) (CompactionIterator (readerOf p es))"
    unfolding CompactionIterator_readerOf [OF ok] by (simp add: es_def live_def list_all_iff)
  moreover have "sstGet (readerOf p es) k = searchReaders RawGet readers k" for k
    unfolding es_def by (rule merged_get [OF assms(3,5)])
  ultimately show ?thesis using readerOk_readerOf [OF ok] by blast
qed

lemma witness_merge:
  "mergedSeq [[([97], None)], [([97], Some [1]), ([98], Some [2])]] =
     [\<lparr>meKey = [97], meVal = None, meIdx = 0, meIter = []\<rparr>,
      \<lparr>meKey = [97], meVal = Some [1], meIdx = 1, meIter = [([98], Some [2])]\<rparr>,
      \<lparr>meKey = [98], meVal = Some [2], meIdx = 1, meIter = []\<rparr>]"
  by code_simp

theorem compaction_preserves_lookups_witness:
  "\<exists>readers p w w' r. kWayMergeSSTables readers p w = (None, w') \<and> sstOpen p w' = (Inr r, w') \<and>
     searchReaders RawGet readers [97] = Inr None \<and> sstGet r [97] = Inr None \<and>
     searchReaders RawGet readers [98] = Inr (Some [2]) \<and> sstGet r [98] = Inr (Some [2])"
proof -
  let ?new = "[([97], None)]" and ?old = "[([97], Some [1]), ([98], Some [2])]"
  let ?rs = "[readerOf (Sst [50]) ?new, readerOf (Sst [49]) ?old]"
  let ?w = "\<lparr>topdir = [], sstdir = Some [], script = [], dead = False\<rparr>"
  have ok: "sstOk ?new" "sstOk ?old" "sstOk [([98], Some [2])]"
    by (simp_all add: sstOk_def entryOk_def encEntry_def)
  have srcs: "map CompactionIterator ?rs = [?new, ?old]" using ok by (simp add: CompactionIterator_readerOf)
  have live: "live (newest [?new, ?old]) = [([98], Some [2])]"
    by (simp add: newest_def witness_merge live_def)
  have rs: "list_all readerOk ?rs" using ok readerOk_readerOf by simp
  have search: "searchReaders RawGet ?rs [97] = Inr None" "searchReaders RawGet ?rs [98] = Inr (Some [2])"
    unfolding sst.search_layers [OF rs] srcs by simp_all
  obtain w' r where "kWayMergeSSTables ?rs (Sst [51]) ?w = (None, w')" "sstOpen (Sst [51]) w' = (Inr r, w')"
    "\<And>k. sstGet r k = searchReaders RawGet ?rs k"
    using compaction_preserves_lookups [of ?w "Sst [51]" ?rs] rs ok live
    unfolding srcs by (auto simp: calm_def witness_merge)
  then show ?thesis using search by metis
qed

text \<open>
  Range scans: for sources in key order, newest first, none of which holds the empty key, the
  scan merge yields exactly the live keys, each once, in ascending order and with its newest
  value.
\<close>

theorem scan_merge_correct:
  assumes "\<forall>src \<in> set srcs. sorted_wrt (<) (map fst src)" and "\<forall>src \<in> set srcs. [] \<notin> fst ` set src"
  shows "sorted_wrt (<) (map fst (scanMerge None (popSeq (pushSources 0 srcs [])))) \<and>
    (\<forall>k. map_of (scanMerge None (popSeq (pushSources 0 srcs []))) k = Option.bind (layered srcs k) id)"
  unfolding scanMerge_sources [OF assms] using livePairs_newest [OF assms(1)] by blast

theorem scan_merge_correct_witness:
  "scanMerge None (popSeq (pushSources 0 [[([97], None)], [([97], Some [1]), ([98], Some [2])]] [])) = [([98], [2])] \<and>
   map_of [([98], [2])] ([97] :: bytes) =
     Option.bind (layered [[([97], None)], [([97], Some [1]), ([98], Some [2])]] [97]) id"
proof -
  let ?srcs = "[[([97], None)], [([97], Some [1]), ([98], Some [2])]] :: entry list list"
  have "scanMerge None (popSeq (pushSources 0 ?srcs [])) = [([98], [2])]"
    using witness_merge by (simp add: mergedSeq_def)
  then show ?thesis using scan_merge_correct [of ?srcs] by simp
qed

text \<open>
  The empty key is the exception: a newer tombstone for it does not hide the older value, so
  the scan returns a deleted key.
\<close>

theorem scan_empty_key_resurrected:
  "let srcs = [[([], None)], [([], Some [1])]]
   in layered srcs [] = Some None \<and> scanMerge None (popSeq (pushSources 0 srcs [])) = [([], [1])]"
  by code_simp

end
