(* ===== verification/Kora_Table.thy ===== *)
theory Kora_Table
  imports Kora_Art Kora_Segment Kora_Manifest Kora_Merge
begin

text \<open>
  Writing a memtable as an SSTable: the first step of \<open>flushMemtable\<close>
  (\<open>internal/store/flush.go\<close>) with its error exits, what it leaves on disk when nothing
  fails, and that under any failures it touches no other file. The memtable maps a key to
  \<open>Some v\<close> for a live value and to \<open>None\<close> for \<open>tombstone{}\<close>, so its iteration is a list of
  table entries.
\<close>

section \<open>Operations\<close>

type_synonym memtable = "bytes option Tree"

definition sstName :: "u32 \<Rightarrow> bytes" where
  "sstName i = pad6 (unat i) @ str ''.sst''"

definition sstFilePath :: "u32 \<Rightarrow> path" where
  "sstFilePath i = Sst (sstName i)"

text \<open>The loop over the memtable: \<open>w.Delete\<close> for a tombstone, \<open>w.Set\<close> otherwise.\<close>

fun writeEntries :: "Writer \<Rightarrow> entry list \<Rightarrow> world \<Rightarrow> (err option \<times> Writer) \<times> world" where
  "writeEntries wr [] w = ((None, wr), w)"
| "writeEntries wr ((k, v) # es) w =
     (case (case v of None \<Rightarrow> writerDelete wr k w | Some x \<Rightarrow> writerSet wr k x w) of
        ((Some e, wr'), w') \<Rightarrow> ((Some e, wr'), w')
      | ((None, wr'), w') \<Rightarrow> writeEntries wr' es w')"

definition writeSST :: "path \<Rightarrow> entry list \<Rightarrow> world \<Rightarrow> err option \<times> world" where
  "writeSST p es w =
     (case NewWriter p w of
        (Inl e, w1) \<Rightarrow> (Some e, w1)
      | (Inr wr, w1) \<Rightarrow>
          (case writeEntries wr es w1 of
             ((Some e, wr'), w2) \<Rightarrow> (Some e, quietly (osRemove p) (snd (writerClose wr' w2)))
           | ((None, wr'), w2) \<Rightarrow>
               (case writerClose wr' w2 of
                  (Some e, w3) \<Rightarrow> (Some e, quietly (osRemove p) w3)
                | (None, w3) \<Rightarrow> (None, w3))))"

section \<open>Nothing fails\<close>

lemma writeEntries_calm:
  assumes "calm w" "dirExists p w" "sorted_wrt (<) (map fst (ds @ es))" "length ds + length es < 2 ^ 32"
  shows "writeEntries (writerAt p ds) es (putFile p (dataOf ds) w) =
    ((None, writerAt p (ds @ es)), putFile p (dataOf (ds @ es)) w)"
  using assms(3,4)
proof (induction es arbitrary: ds)
  case (Cons e es)
  obtain k v where e: "e = (k, v)" by (cases e)
  have "ds = [] \<or> fst (last ds) < k" using Cons.prems(1) e by (cases ds rule: rev_cases) (auto simp: sorted_wrt_append)
  then have "(case v of None \<Rightarrow> writerDelete (writerAt p ds) k (putFile p (dataOf ds) w)
        | Some x \<Rightarrow> writerSet (writerAt p ds) k x (putFile p (dataOf ds) w)) =
      ((None, writerAt p (ds @ [e])), putFile p (dataOf (ds @ [e])) w)"
    using writerDelete_calm [OF assms(1,2), of ds k] writerSet_calm [OF assms(1,2), of ds k] Cons.prems(2) e
    by (auto split: option.splits)
  then show ?case using Cons.IH [of "ds @ [e]"] Cons.prems e by simp
qed simp

lemma writeSST_calm:
  assumes "calm w" "dirExists p w" "sstOk es"
  shows "writeSST p es w = (None, putFile p (sstImage es) w)"
proof -
  have "writeEntries (writerAt p []) es (putFile p (dataOf []) w) = ((None, writerAt p es), putFile p (dataOf es) w)"
    using writeEntries_calm [OF assms(1,2), of "[]" es] assms(3) by (simp add: sstOk_def)
  then show ?thesis
    using NewWriter_calm [OF assms(1,2)] writerClose_calm [OF assms] by (simp add: writeSST_def)
qed

section \<open>Anything fails\<close>

text \<open>The file under construction is the only one a writer touches.\<close>

definition onlyAt :: "path \<Rightarrow> world \<Rightarrow> world \<Rightarrow> bool" where
  "onlyAt p w w' \<longleftrightarrow> (\<forall>q. q \<noteq> p \<longrightarrow> lookupFile q w' = lookupFile q w)"

lemma onlyAt_refl [simp]: "onlyAt p w w"
  by (simp add: onlyAt_def)

lemma onlyAt_trans: "onlyAt p u v \<Longrightarrow> onlyAt p v w \<Longrightarrow> onlyAt p u w"
  by (simp add: onlyAt_def)

lemma onlyAt_calls:
  "openTrunc p w = (r, w') \<Longrightarrow> onlyAt p w w'"
  "fwrite p b w = (rn, w') \<Longrightarrow> onlyAt p w w'"
  "fseek p w = (r, w') \<Longrightarrow> onlyAt p w w'"
  "fsync p w = (r, w') \<Longrightarrow> onlyAt p w w'"
  "fclose p w = (r, w') \<Longrightarrow> onlyAt p w w'"
  by (auto simp: onlyAt_def disk_frame dest: disk_frameD)

lemma onlyAt_quietly: "onlyAt p w (quietly (osRemove p) w)" "onlyAt p w (quietly (fclose p) w)"
  by (simp_all add: onlyAt_def quietly_frame)

lemma wput_frame:
  "wput wr b w = ((eo, wr'), w') \<Longrightarrow> wpath wr' = wpath wr \<and> onlyAt (wpath wr) w w'"
  by (auto simp: wput_def onlyAt_calls split: prod.splits)

lemma writeRecord_frame:
  assumes "writeRecord wr k v w = ((eo, wr'), w')"
  shows "wpath wr' = wpath wr \<and> onlyAt (wpath wr) w w'"
proof -
  define wr0 where "wr0 = (if unat (nRecords wr) mod indexStride = 0 then appendIndex wr k (woffset wr) else wr)"
  have p0: "wpath wr0 = wpath wr" by (simp add: wr0_def appendIndex_def)
  show ?thesis
    using assms p0 unfolding writeRecord_def Let_def wr0_def [symmetric]
    by (auto split: prod.splits option.splits dest!: wput_frame) (metis onlyAt_trans)+
qed

lemma writerOp_frame:
  "writerSet wr k v w = ((eo, wr'), w') \<Longrightarrow> wpath wr' = wpath wr \<and> onlyAt (wpath wr) w w'"
  "writerDelete wr k w = ((eo, wr'), w') \<Longrightarrow> wpath wr' = wpath wr \<and> onlyAt (wpath wr) w w'"
  by (auto simp: writerSet_def writerDelete_def checkOrder_def split: sum.splits if_splits option.splits
      dest!: writeRecord_frame)

lemma writeEntries_frame:
  "writeEntries wr es w = ((eo, wr'), w') \<Longrightarrow> wpath wr' = wpath wr \<and> onlyAt (wpath wr) w w'"
proof (induction wr es w rule: writeEntries.induct)
  case (2 wr k v es w)
  then show ?case
    by (auto split: prod.splits option.splits dest!: writerOp_frame) (metis onlyAt_trans)+
qed simp

lemma mergeWrite_frame:
  "mergeWrite wr lk es w = ((eo, wr'), w') \<Longrightarrow> wpath wr' = wpath wr \<and> onlyAt (wpath wr) w w'"
proof (induction wr lk es w rule: mergeWrite.induct)
  case (2 wr lk e es w)
  show ?case
  proof (cases "(lk = None \<or> lk \<noteq> Some (meKey e)) \<and> meVal e \<noteq> None")
    case True
    then obtain v where v: "lk = None \<or> lk \<noteq> Some (meKey e)" "meVal e = Some v" by blast
    obtain eo1 wr1 w1 where s: "writerSet wr (meKey e) v w = ((eo1, wr1), w1)" by (metis surj_pair)
    note f = writerOp_frame(1) [OF s]
    show ?thesis
    proof (cases eo1)
      case None
      then have "wpath wr' = wpath wr1 \<and> onlyAt (wpath wr1) w1 w'" using "2.IH"(2) [OF v s [symmetric] refl] "2.prems" v s by simp
      then show ?thesis using f onlyAt_trans by metis
    next
      case (Some x)
      then show ?thesis using f "2.prems" v s by auto
    qed
  next
    case False
    then show ?thesis using 2 by (cases "lk = None \<or> lk \<noteq> Some (meKey e)") auto
  qed
qed simp

lemma buildBloom_frame: "buildBloom wr de w = (r, w') \<Longrightarrow> onlyAt p w w'"
proof -
  have "fseek q w = (x, w') \<Longrightarrow> onlyAt p w w'" for q x
    by (simp add: onlyAt_def call_frame(6))
  then show "buildBloom wr de w = (r, w') \<Longrightarrow> onlyAt p w w'"
    by (auto simp: buildBloom_def Let_def split: if_splits prod.splits sum.splits option.splits)
qed

lemma closeWith_frame: "closeWith p e w = (eo, w') \<Longrightarrow> onlyAt p w w'"
  using onlyAt_quietly(2) by (auto simp: closeWith_def)

lemma writerClose_frame:
  assumes "writerClose wr w = (eo, w')"
  shows "onlyAt (wpath wr) w w'"
  using assms unfolding writerClose_def Let_def
  by (auto split: prod.splits sum.splits option.splits if_splits
      dest!: buildBloom_frame [where p = "wpath wr"] closeWith_frame onlyAt_calls)
    (metis onlyAt_trans)+

lemma NewWriter_frame:
  "NewWriter p w = (r, w') \<Longrightarrow> onlyAt p w w' \<and> (\<forall>wr. r = Inr wr \<longrightarrow> wpath wr = p)"
  by (auto simp: NewWriter_def split: prod.splits sum.splits dest!: onlyAt_calls(1))

lemma writeSST_frame:
  assumes "writeSST p es w = (eo, w')"
  shows "onlyAt p w w'"
proof -
  obtain r w1 where nw: "NewWriter p w = (r, w1)" by fastforce
  show ?thesis
  proof (cases r)
    case (Inl e)
    then show ?thesis using assms nw NewWriter_frame [OF nw] by (simp add: writeSST_def)
  next
    case (Inr wr)
    obtain eo2 wr2 w2 where we: "writeEntries wr es w1 = ((eo2, wr2), w2)" by (metis surj_pair)
    obtain eo3 w3 where wc: "writerClose wr2 w2 = (eo3, w3)" by fastforce
    have "onlyAt p w w1" "wpath wr = p" using NewWriter_frame [OF nw] Inr by simp_all
    moreover from this have "onlyAt p w1 w2" "wpath wr2 = p" using writeEntries_frame [OF we] by simp_all
    moreover from this have "onlyAt p w2 w3" using writerClose_frame [OF wc] by simp
    ultimately have "onlyAt p w w3" using onlyAt_trans by blast
    moreover from this have "onlyAt p w (quietly (osRemove p) w3)" using onlyAt_trans onlyAt_quietly(1) by blast
    ultimately show ?thesis
      using assms nw Inr we wc by (auto simp: writeSST_def split: option.splits)
  qed
qed

section \<open>Properties\<close>

text \<open>
  C19: The table format round trip: when nothing fails, writing a strictly ascending list of
  entries within the format's limits succeeds, the file opens, and the reader answers every
  lookup, every range scan and the full iteration from exactly those entries.
\<close>

theorem sst_roundtrip:
  assumes "calm w" "dirExists p w" "sstOk es"
  shows "\<exists>w' r. writeSST p es w = (None, w') \<and> sstOpen p w' = (Inr r, w') \<and>
    (\<forall>k. RawGet r k = Inr (toRaw (map_of es k))) \<and> CompactionIterator r = es \<and>
    (\<forall>s e. ScanIterator r s e = filter (\<lambda>x. inRange s e (fst x)) es)"
proof -
  have "lookupFile p (putFile p (sstImage es) w) = Some (sstImage es)" using assms(2) by simp
  then have "sstOpen p (putFile p (sstImage es) w) = (Inr (readerOf p es), putFile p (sstImage es) w)"
    using sstOpen_image assms(1,3) by simp
  then show ?thesis
    using writeSST_calm [OF assms] RawGet_readerOf [OF assms(3)] CompactionIterator_readerOf [OF assms(3)]
      ScanIterator_readerOf [OF assms(3)] by blast
qed

theorem sst_roundtrip_witness:
  "\<exists>w' r. writeSST (Sst [49]) [([97], Some [1]), ([98], None)]
      \<lparr>topdir = [], sstdir = Some [], script = [], dead = False\<rparr> = (None, w') \<and>
    sstOpen (Sst [49]) w' = (Inr r, w') \<and> RawGet r [97] = Inr (Found [1]) \<and>
    RawGet r [98] = Inr Deleted \<and> RawGet r [99] = Inr Absent"
  using sst_roundtrip [of "\<lparr>topdir = [], sstdir = Some [], script = [], dead = False\<rparr>" "Sst [49]"
      "[([97], Some [1]), ([98], None)]"]
  by (auto simp: calm_def sstOk_def entryOk_def encEntry_def)

text \<open>
  Keys out of order, or repeated, are refused by the writer before a byte is written.
\<close>

theorem writer_rejects_disorder:
  assumes "es \<noteq> []" "key \<le> fst (last es)"
  shows "writerSet (writerAt p es) key v w = ((Some ErrOutOfOrder, writerAt p es), w) \<and>
    writerDelete (writerAt p es) key w = ((Some ErrOutOfOrder, writerAt p es), w)"
  using assms by (simp add: writerSet_def writerDelete_def checkOrder_def writerAt_def)

theorem writer_rejects_disorder_witness:
  "writerSet (writerAt (Sst [49]) [([98], Some [])]) [98] [1] \<lparr>topdir = [], sstdir = None, script = [], dead = False\<rparr>
    = ((Some ErrOutOfOrder, writerAt (Sst [49]) [([98], Some [])]), \<lparr>topdir = [], sstdir = None, script = [], dead = False\<rparr>)"
  using writer_rejects_disorder [of "[([98], Some [])]" "[98]" "Sst [49]" "[1]"] by simp

text \<open>
  Whatever fails, and wherever the process dies, while a table is being written, no other file
  of the store changes.
\<close>

theorem table_write_isolated:
  "let (eo, w') = writeSST p es w in \<forall>q. q = p \<or> lookupFile q w' = lookupFile q w"
  using writeSST_frame [of p es w] by (auto simp: onlyAt_def)

end
