(* ===== verification/Kora_Store.thy ===== *)
theory Kora_Store
  imports Kora_Table
begin

text \<open>
  The store (\<open>internal/store/store.go\<close>, \<open>flush.go\<close>, \<open>scan.go\<close>): the \<open>DB\<close> record and its
  operations, each a function from a database and a world to an error, the database and the
  world afterwards. The mutex makes every operation atomic towards the others; \<open>Compact\<close>,
  which releases it, has a theory of its own. \<open>active\<close> is the id of the segment the pointer
  \<open>db.active\<close> shares with the map \<open>db.segments\<close>. A run-time panic is the error \<open>Panic\<close>.
\<close>

section \<open>State\<close>

record Options =
  SyncOnWrite :: bool
  MaxSegmentBytes :: int
  MaxMemBytes :: int

definition DefaultMaxSegmentBytes :: int where
  "DefaultMaxSegmentBytes = 4 * 2 ^ 20"

definition DefaultMaxMemBytes :: int where
  "DefaultMaxMemBytes = 4 * 2 ^ 20"

definition DefaultOptions :: Options where
  "DefaultOptions = \<lparr>SyncOnWrite = True, MaxSegmentBytes = 0, MaxMemBytes = 0\<rparr>"

record DB =
  opts :: Options
  segments :: "(u32 \<times> segment) list"
  active :: "u32 option"
  order :: "u32 list"
  nextID :: u32
  memtable :: memtable
  memSize :: int
  liveKeys :: int
  ssReaders :: "Reader list"
  ssNextID :: u32

type_synonym dbResult = "(err option \<times> DB) \<times> world"

definition activeSeg :: "DB \<Rightarrow> segment option" where
  "activeSeg db = (case active db of None \<Rightarrow> None | Some i \<Rightarrow> map_of (segments db) i)"

section \<open>Manifest and log\<close>

definition currentSSTIDs :: "DB \<Rightarrow> u32 list" where
  "currentSSTIDs db = rev (map ID (ssReaders db))"

definition writeManifestLocked :: "DB \<Rightarrow> world \<Rightarrow> err option \<times> world" where
  "writeManifestLocked db =
     writeManifest \<lparr>mNextID = nextID db, mOrder = order db,
                    mNextSSTID = ssNextID db, mSstIDs = currentSSTIDs db\<rparr>"

definition appendActive :: "DB \<Rightarrow> bytes \<Rightarrow> world \<Rightarrow> dbResult" where
  "appendActive db b w =
     (case activeSeg db of
        None \<Rightarrow> ((Some Panic, db), w)
      | Some seg \<Rightarrow>
          (case segAppend seg b w of
             (Inl e, w1) \<Rightarrow> ((Some e, db), w1)
           | (Inr seg', w1) \<Rightarrow>
               let db' = db\<lparr>segments := AList.update (sid seg') seg' (segments db)\<rparr>
               in if SyncOnWrite (opts db) then
                    (case segSync seg' w1 of
                       (Inl e, w2) \<Rightarrow> ((Some e, db'), w2)
                     | (Inr _, w2) \<Rightarrow> ((None, db'), w2))
                  else ((None, db'), w1)))"

text \<open>The manifest \<open>maybeRollover\<close> writes has neither \<open>nextSSTID\<close> nor \<open>sstIDs\<close> set.\<close>

definition maybeRollover :: "DB \<Rightarrow> world \<Rightarrow> dbResult" where
  "maybeRollover db w =
     (case activeSeg db of
        None \<Rightarrow> ((Some Panic, db), w)
      | Some old \<Rightarrow>
          if int (ssize old) < MaxSegmentBytes (opts db) then ((None, db), w)
          else
            case segSync old w of
              (Inl e, w1) \<Rightarrow> ((Some e, db), w1)
            | (Inr _, w1) \<Rightarrow>
                (case createSegment (nextID db) w1 of
                   (Inl e, w2) \<Rightarrow> ((Some e, db), w2)
                 | (Inr na, w2) \<Rightarrow>
                     let newOrder = order db @ [sid na]
                     in case writeManifest \<lparr>mNextID = nextID db + 1, mOrder = newOrder,
                                            mNextSSTID = 0, mSstIDs = []\<rparr> w2 of
                          (Some e, w3) \<Rightarrow>
                            ((Some e, db),
                             quietly (osRemove (segmentPath (sid na))) (quietly (segClose na) w3))
                        | (None, w3) \<Rightarrow>
                            ((None, db\<lparr>segments := AList.update (sid na) na (segments db),
                                       active := Some (sid na), order := newOrder,
                                       nextID := nextID db + 1\<rparr>), w3)))"

section \<open>Flush\<close>

text \<open>The loop that closes and removes the retired segments.\<close>

fun retireSegments :: "(u32 \<times> segment) list \<Rightarrow> u32 list \<Rightarrow> world \<Rightarrow> world" where
  "retireSegments segs [] w = w"
| "retireSegments segs (i # ids) w =
     retireSegments segs ids
       (quietly (osRemove (segmentPath i))
          (case map_of segs i of None \<Rightarrow> w | Some seg \<Rightarrow> quietly (segClose seg) w))"

definition flushMemtable :: "DB \<Rightarrow> world \<Rightarrow> dbResult" where
  "flushMemtable db w =
     (if Len (memtable db) = 0 then ((None, db\<lparr>memSize := 0\<rparr>), w)
      else
        case mkdirSst w of
          (Inl e, w1) \<Rightarrow> ((Some e, db), w1)
        | (Inr _, w1) \<Rightarrow>
        let sstID = ssNextID db; sstPath = sstFilePath sstID in
        case writeSST sstPath (Iterator (memtable db)) w1 of
          (Some e, w2) \<Rightarrow> ((Some e, db), w2)
        | (None, w2) \<Rightarrow>
        case sstOpen sstPath w2 of
          (Inl e, w3) \<Rightarrow> ((Some e, db), quietly (osRemove sstPath) w3)
        | (Inr newReader, w3) \<Rightarrow>
        let newSegID = nextID db in
        case createSegment newSegID w3 of
          (Inl e, w4) \<Rightarrow> ((Some e, db), quietly (osRemove sstPath) (quietly (fclose sstPath) w4))
        | (Inr newSeg, w4) \<Rightarrow>
        let newSSTIDs = currentSSTIDs db @ [sstID] in
        case writeManifest \<lparr>mNextID = newSegID + 1, mOrder = [newSegID],
                            mNextSSTID = sstID + 1, mSstIDs = newSSTIDs\<rparr> w4 of
          (Some e, w5) \<Rightarrow>
            ((Some e, db),
             quietly (osRemove sstPath) (quietly (fclose sstPath)
               (quietly (osRemove (segmentPath newSegID)) (quietly (segClose newSeg) w5))))
        | (None, w5) \<Rightarrow>
            ((None, db\<lparr>ssNextID := sstID + 1, nextID := newSegID + 1, order := [newSegID],
                       segments := [(newSegID, newSeg)], active := Some newSegID,
                       ssReaders := newReader # ssReaders db, memtable := emptyTree, memSize := 0\<rparr>),
             retireSegments (segments db) (order db) w5))"

section \<open>Reads\<close>

definition dbGet :: "DB \<Rightarrow> bytes \<Rightarrow> err + bytes option" where
  "dbGet db key =
     (case Get (memtable db) key of
        Some None \<Rightarrow> Inr None
      | Some (Some v) \<Rightarrow> Inr (Some v)
      | None \<Rightarrow> searchReaders RawGet (ssReaders db) key)"

text \<open>The table loop of \<open>isLiveKey\<close>, which drops the error of \<open>RawGet\<close>.\<close>

fun liveInReaders :: "Reader list \<Rightarrow> bytes \<Rightarrow> err + bool" where
  "liveInReaders [] key = Inr False"
| "liveInReaders (r # rs) key =
     (case RawGet r key of
        Inl e \<Rightarrow> if e = Panic then Inl Panic else liveInReaders rs key
      | Inr Deleted \<Rightarrow> Inr False
      | Inr (Found _) \<Rightarrow> Inr True
      | Inr Absent \<Rightarrow> liveInReaders rs key)"

definition isLiveKey :: "DB \<Rightarrow> bytes \<Rightarrow> err + bool" where
  "isLiveKey db key =
     (case Get (memtable db) key of
        Some v \<Rightarrow> Inr (v \<noteq> None)
      | None \<Rightarrow> liveInReaders (ssReaders db) key)"

definition dbLen :: "DB \<Rightarrow> int" where
  "dbLen db = liveKeys db"

definition SSTableCount :: "DB \<Rightarrow> nat" where
  "SSTableCount db = length (ssReaders db)"

definition SegmentCount :: "DB \<Rightarrow> nat" where
  "SegmentCount db = length (segments db)"

definition DiskUsage :: "DB \<Rightarrow> nat" where
  "DiskUsage db = sum_list (map (ssize \<circ> snd) (segments db))"

text \<open>\<open>memtableRangeIter\<close>: what the iterator yields until exhausted.\<close>

fun memRange :: "bytes option \<Rightarrow> bytes option \<Rightarrow> entry list \<Rightarrow> entry list" where
  "memRange start end [] = []"
| "memRange start end ((k, v) # es) =
     (if (case start of None \<Rightarrow> False | Some s \<Rightarrow> compareBytes k s < 0) then memRange start end es
      else if (case end of None \<Rightarrow> False | Some e \<Rightarrow> compareBytes k e > 0) then []
      else (k, v) # memRange start end es)"

definition memtableRangeIter :: "DB \<Rightarrow> bytes option \<Rightarrow> bytes option \<Rightarrow> entry list" where
  "memtableRangeIter db start end = memRange start end (Iterator (memtable db))"

definition collectScan :: "DB \<Rightarrow> bytes option \<Rightarrow> bytes option \<Rightarrow> (bytes \<times> bytes) list" where
  "collectScan db start end =
     (let h = pushSources 0 (memtableRangeIter db start end
                # map (\<lambda>r. ScanIterator r start end) (ssReaders db)) []
      in scanMerge None (popSeq h))"

text \<open>\<open>Scan\<close> returns a cursor over the collected results: the list of what it yields.\<close>

definition Scan :: "DB \<Rightarrow> bytes option \<Rightarrow> bytes option \<Rightarrow> (bytes \<times> bytes) list" where
  "Scan db start end = collectScan db start end"

section \<open>Writes\<close>

text \<open>\<open>now\<close> is the clock reading \<open>record.Encode\<close> takes; a nil value (\<open>None\<close>) is normalised.\<close>

definition dbSet :: "u64 \<Rightarrow> bytes \<Rightarrow> bytes option \<Rightarrow> DB \<Rightarrow> world \<Rightarrow> dbResult" where
  "dbSet now key value0 db w =
     (let value = (case value0 of None \<Rightarrow> [] | Some v \<Rightarrow> v) in
      case Encode now key (Some value) of
        Inl e \<Rightarrow> ((Some e, db), w)
      | Inr buf \<Rightarrow>
      case maybeRollover db w of
        ((Some e, db1), w1) \<Rightarrow> ((Some e, db1), w1)
      | ((None, db1), w1) \<Rightarrow>
      case appendActive db1 buf w1 of
        ((Some e, db2), w2) \<Rightarrow> ((Some e, db2), w2)
      | ((None, db2), w2) \<Rightarrow>
      case isLiveKey db2 key of
        Inl e \<Rightarrow> ((Some e, db2), w2)
      | Inr isLive \<Rightarrow>
      let db3 = (if \<not> isLive then db2\<lparr>liveKeys := liveKeys db2 + 1\<rparr> else db2) in
      case Insert (memtable db3) key (Some value) of
        Inl e \<Rightarrow> ((Some e, db3), w2)
      | Inr t \<Rightarrow>
      let db4 = db3\<lparr>memtable := t, memSize := memSize db3 + int (length key + length value)\<rparr> in
      if memSize db4 \<ge> MaxMemBytes (opts db4) then flushMemtable db4 w2 else ((None, db4), w2))"

definition dbDelete :: "u64 \<Rightarrow> bytes \<Rightarrow> DB \<Rightarrow> world \<Rightarrow> dbResult" where
  "dbDelete now key db w =
     (case Encode now key None of
        Inl e \<Rightarrow> ((Some e, db), w)
      | Inr buf \<Rightarrow>
      case maybeRollover db w of
        ((Some e, db1), w1) \<Rightarrow> ((Some e, db1), w1)
      | ((None, db1), w1) \<Rightarrow>
      case appendActive db1 buf w1 of
        ((Some e, db2), w2) \<Rightarrow> ((Some e, db2), w2)
      | ((None, db2), w2) \<Rightarrow>
      case isLiveKey db2 key of
        Inl e \<Rightarrow> ((Some e, db2), w2)
      | Inr isLive \<Rightarrow>
      let db3 = (if isLive then db2\<lparr>liveKeys := liveKeys db2 - 1\<rparr> else db2) in
      case Insert (memtable db3) key None of
        Inl e \<Rightarrow> ((Some e, db3), w2)
      | Inr t \<Rightarrow>
      let db4 = db3\<lparr>memtable := t, memSize := memSize db3 + int (length key + 1)\<rparr> in
      if memSize db4 \<ge> MaxMemBytes (opts db4) then flushMemtable db4 w2 else ((None, db4), w2))"

section \<open>Closing\<close>

text \<open>The loop of \<open>closeAll\<close>; the map order of Go does not matter, only the first error does.\<close>

fun closeSegments :: "(u32 \<times> segment) list \<Rightarrow> world \<Rightarrow> err option \<times> world" where
  "closeSegments [] w = (None, w)"
| "closeSegments ((_, seg) # segs) w =
     (case segClose seg w of
        (Inl e, w1) \<Rightarrow> (Some e, snd (closeSegments segs w1))
      | (Inr _, w1) \<Rightarrow> closeSegments segs w1)"

definition closeAll :: "DB \<Rightarrow> world \<Rightarrow> dbResult" where
  "closeAll db w =
     (case closeSegments (segments db) w of
        (eo, w1) \<Rightarrow> ((eo, db\<lparr>segments := [], active := None\<rparr>), w1))"

definition closeReaders :: "Reader list \<Rightarrow> world \<Rightarrow> world" where
  "closeReaders rs w = fold (\<lambda>r. quietly (fclose (rpath r))) rs w"

definition dbClose :: "DB \<Rightarrow> world \<Rightarrow> dbResult" where
  "dbClose db w = closeAll (db\<lparr>ssReaders := []\<rparr>) (closeReaders (ssReaders db) w)"

section \<open>Opening\<close>

text \<open>The callback of \<open>openAndScan\<close>.\<close>

definition replayRecord :: "Record \<Rightarrow> nat \<Rightarrow> nat \<Rightarrow> DB \<Rightarrow> err + DB" where
  "replayRecord rec off sz db =
     (let raw = Get (memtable db) (Key rec) in
      case Value rec of
        None \<Rightarrow>
          let db1 = (if raw \<noteq> None \<and> raw \<noteq> Some None then db\<lparr>liveKeys := liveKeys db - 1\<rparr> else db)
          in (case Insert (memtable db1) (Key rec) None of
                Inl e \<Rightarrow> Inl e
              | Inr t \<Rightarrow> Inr (db1\<lparr>memtable := t\<rparr>))
      | Some val \<Rightarrow>
          let db1 = (if raw = None \<or> raw = Some None then db\<lparr>liveKeys := liveKeys db + 1\<rparr> else db)
          in (case Insert (memtable db1) (Key rec) (Some val) of
                Inl e \<Rightarrow> Inl e
              | Inr t \<Rightarrow> Inr (db1\<lparr>memtable := t,
                   memSize := memSize db1 + int (length (Key rec) + length val)\<rparr>)))"

fun openAndScanLoop :: "u32 list \<Rightarrow> DB \<Rightarrow> world \<Rightarrow> dbResult" where
  "openAndScanLoop [] db w = ((None, db), w)"
| "openAndScanLoop (i # ids) db w =
     (let isActive = (ids = []) in
      case (if isActive then createSegment i w else openSegmentReadOnly i w) of
        (Inl e, w1) \<Rightarrow> ((Some e, db), w1)
      | (Inr seg, w1) \<Rightarrow>
      let db1 = db\<lparr>segments := AList.update i seg (segments db)\<rparr> in
      case scanSegment (segmentPath i) replayRecord db1 w1 of
        ((db2, endOff, serr), w2) \<Rightarrow>
      case (if serr = Some ErrPartialTail then
              if \<not> isActive then (Some ErrPartialImmutable, w2)
              else (case ftruncate (segmentPath i) endOff w2 of
                      (Inl terr, w3) \<Rightarrow> (Some terr, w3) | (Inr _, w3) \<Rightarrow> (None, w3))
            else (serr, w2)) of
        (Some e, w3) \<Rightarrow> ((Some e, db2), w3)
      | (None, w3) \<Rightarrow>
      let db3 = db2\<lparr>segments := AList.update i (seg\<lparr>ssize := endOff\<rparr>) (segments db2)\<rparr>;
          db4 = (if isActive then db3\<lparr>active := Some i\<rparr> else db3)
      in openAndScanLoop ids db4 w3)"

definition openAndScan :: "u32 list \<Rightarrow> DB \<Rightarrow> world \<Rightarrow> dbResult" where
  "openAndScan ids db w =
     (case openAndScanLoop ids db w of
        ((Some e, db1), w1) \<Rightarrow> ((Some e, db1), w1)
      | ((None, db1), w1) \<Rightarrow> ((None, db1\<lparr>order := ids\<rparr>), w1))"

text \<open>\<open>removeAll\<close> is the loop of best-effort removals of both clean-up functions.\<close>

definition removeAll :: "path list \<Rightarrow> world \<Rightarrow> world" where
  "removeAll ps w = fold (\<lambda>p. quietly (osRemove p)) ps w"

definition cleanupLeakedSegments :: "DB \<Rightarrow> world \<Rightarrow> world" where
  "cleanupLeakedSegments db w =
     (case listSegmentIDs w of
        (Inl _, w1) \<Rightarrow> w1
      | (Inr ids, w1) \<Rightarrow> removeAll (map segmentPath (filter (\<lambda>i. i \<notin> set (order db)) ids)) w1)"

definition isOrphan :: "u32 list \<Rightarrow> bytes \<Rightarrow> bool" where
  "isOrphan liveIDs name = (case sscanfId 6 name of Inl _ \<Rightarrow> False | Inr i \<Rightarrow> i \<notin> set liveIDs)"

definition cleanupOrphanedSSTs :: "u32 list \<Rightarrow> world \<Rightarrow> world" where
  "cleanupOrphanedSSTs liveIDs w =
     (case readDirSst w of
        (Inl _, w1) \<Rightarrow> w1
      | (Inr names, w1) \<Rightarrow> removeAll (map Sst (filter (isOrphan liveIDs) names)) w1)"

text \<open>The loop of \<open>openSSTables\<close> over the ids, newest first, with the readers opened so far.\<close>

fun openTables :: "u32 list \<Rightarrow> Reader list \<Rightarrow> world \<Rightarrow> (err + Reader list) \<times> world" where
  "openTables [] readers w = (Inr readers, w)"
| "openTables (i # ids) readers w =
     (case sstOpen (sstFilePath i) w of
        (Inl e, w1) \<Rightarrow> (Inl e, closeReaders readers w1)
      | (Inr r, w1) \<Rightarrow> openTables ids (readers @ [r]) w1)"

definition openSSTables :: "u32 list \<Rightarrow> DB \<Rightarrow> world \<Rightarrow> dbResult" where
  "openSSTables sstIDs db w =
     (if sstIDs = [] then ((None, db), w)
      else case openTables (rev sstIDs) [] w of
             (Inl e, w1) \<Rightarrow> ((Some e, db), w1)
           | (Inr rs, w1) \<Rightarrow> ((None, db\<lparr>ssReaders := rs\<rparr>), w1))"

definition bootstrap :: "DB \<Rightarrow> world \<Rightarrow> dbResult" where
  "bootstrap db w =
     (case listSegmentIDs w of
        (Inl e, w1) \<Rightarrow> ((Some e, db), w1)
      | (Inr ids, w1) \<Rightarrow>
          if ids = [] then
            (case createSegment 1 w1 of
               (Inl e, w2) \<Rightarrow> ((Some e, db), w2)
             | (Inr seg, w2) \<Rightarrow>
                 let db1 = db\<lparr>segments := AList.update 1 seg (segments db), active := Some 1,
                              order := [1], nextID := 2\<rparr>
                 in case writeManifestLocked db1 w2 of (eo, w3) \<Rightarrow> ((eo, db1), w3))
          else
            (case openAndScan ids db w1 of
               ((Some e, db1), w2) \<Rightarrow> ((Some e, db1), w2)
             | ((None, db1), w2) \<Rightarrow>
                 let db2 = db1\<lparr>nextID := last ids + 1\<rparr>
                 in case writeManifestLocked db2 w2 of (eo, w3) \<Rightarrow> ((eo, db2), w3)))"

definition load :: "DB \<Rightarrow> world \<Rightarrow> dbResult" where
  "load db w =
     (case readManifest w of
        (Inl e, w1) \<Rightarrow> if e = ErrNoManifest then bootstrap db w1 else ((Some e, db), w1)
      | (Inr m, w1) \<Rightarrow>
      if mOrder m = [] then ((Some ErrManifestCorrupt, db), w1)
      else
      let db1 = db\<lparr>ssNextID := (if mNextSSTID m = 0 then 1 else mNextSSTID m)\<rparr> in
      case openSSTables (mSstIDs m) db1 w1 of
        ((Some e, db2), w2) \<Rightarrow> ((Some e, db2), w2)
      | ((None, db2), w2) \<Rightarrow>
      case openAndScan (mOrder m) db2 (cleanupOrphanedSSTs (mSstIDs m) w2) of
        ((Some e, db3), w3) \<Rightarrow> ((Some e, db3), w3)
      | ((None, db3), w3) \<Rightarrow>
      let db4 = db3\<lparr>nextID := mNextID m\<rparr>; w4 = cleanupLeakedSegments db4 w3;
          db5 = (if length (ssReaders db4) > 0
                 then db4\<lparr>liveKeys := int (length (collectScan db4 None None))\<rparr> else db4)
      in ((None, db5), w4))"

definition normalizeOpts :: "Options \<Rightarrow> Options" where
  "normalizeOpts o0 =
     (let o1 = (if MaxSegmentBytes o0 \<le> 0 then o0\<lparr>MaxSegmentBytes := DefaultMaxSegmentBytes\<rparr> else o0)
      in if MaxMemBytes o1 \<le> 0 then o1\<lparr>MaxMemBytes := DefaultMaxMemBytes\<rparr> else o1)"

definition freshDB :: "Options \<Rightarrow> DB" where
  "freshDB o0 = \<lparr>opts = o0, segments = [], active = None, order = [], nextID = 0, memtable = emptyTree,
     memSize = 0, liveKeys = 0, ssReaders = [], ssNextID = 1\<rparr>"

text \<open>\<open>os.MkdirAll(dir)\<close>; the directory itself is not part of a world.\<close>

definition mkdirTop :: "world \<Rightarrow> (err + unit) \<times> world" where
  "mkdirTop = syscall (\<lambda>w. (Inr (), w))"

definition Open :: "Options \<Rightarrow> world \<Rightarrow> (err + DB) \<times> world" where
  "Open o0 w =
     (case mkdirTop w of
        (Inl e, w1) \<Rightarrow> (Inl e, w1)
      | (Inr _, w1) \<Rightarrow>
          (case load (freshDB (normalizeOpts o0)) w1 of
             ((Some e, db), w2) \<Rightarrow> (Inl e, snd (closeAll db w2))
           | ((None, db), w2) \<Rightarrow> (Inr db, w2)))"

end
