(* ===== verification/Kora_View.thy ===== *)
theory Kora_View
  imports Kora_Store
begin

text \<open>
  The abstract value of a database: the finite map from keys to values that its memtable and
  its tables, newest first, represent together. The read operations of the store are correct
  for any memtable and any tables that keep the contracts \<open>ordered_map\<close> and \<open>sorted_source\<close>;
  the locale \<open>layered_store\<close> proves them from the two contracts, the interpretation \<open>lsm\<close>
  instantiates them with the radix tree and the SSTable reader.
\<close>

section \<open>Layers\<close>

lemma layered_filter:
  "layered (map (filter (\<lambda>x. P (fst x))) ls) k = (if P k then layered ls k else None)"
proof (induction ls)
  case (Cons es ls)
  have "map_of (filter (\<lambda>x. P (fst x)) es) k = (if P k then map_of es k else None)"
    by (induction es) auto
  then show ?case using Cons by (auto split: option.splits)
qed simp

lemma layered_dom: "dom (layered ls) = (\<Union>es \<in> set ls. fst ` set es)"
proof (induction ls)
  case Nil
  then show ?case by auto
next
  case (Cons es ls)
  have "k \<in> dom (layered (es # ls)) \<longleftrightarrow> k \<in> fst ` set es \<or> k \<in> dom (layered ls)" for k
  proof -
    have "k \<in> fst ` set es \<longleftrightarrow> map_of es k \<noteq> None" by (simp add: map_of_eq_None_iff)
    then show ?thesis by (cases "map_of es k") (auto simp: domIff)
  qed
  then have "dom (layered (es # ls)) = fst ` set es \<union> dom (layered ls)" by (intro set_eqI) (simp only: Un_iff)
  then show ?case using Cons by (simp only: UN_insert list.set)
qed

lemma memRange_filter:
  "sorted_wrt (<) (map fst es) \<Longrightarrow> memRange s e es = filter (\<lambda>x. inRange s e (fst x)) es"
proof (induction s e es rule: memRange.induct)
  case (2 s e k v es)
  show ?case
  proof (cases "\<exists>b. e = Some b \<and> b < k")
    case True
    then have "filter (\<lambda>x. inRange s e (fst x)) es = []"
      using filter_beyond_end "2.prems" by fastforce
    moreover have "\<not> inRange s e k" using True by (auto simp: inRange_def)
    moreover have "memRange s e es = []" if "memRange s e es = filter (\<lambda>x. inRange s e (fst x)) es"
      using that calculation(1) by simp
    ultimately show ?thesis using True 2 by (auto split: option.splits)
  next
    case False
    then show ?thesis using 2 by (auto simp: inRange_def not_less not_le split: option.splits)
  qed
qed simp

section \<open>Reads over a memtable and tables\<close>

locale layered_store =
  mem: ordered_map empty ins get del iter len treeInv ok +
  tab: sorted_source rawGet scanIter allIter tabInv
  for empty :: 't
    and ins :: "'t \<Rightarrow> bytes \<Rightarrow> bytes option \<Rightarrow> err + 't"
    and get :: "'t \<Rightarrow> bytes \<Rightarrow> bytes option option"
    and del :: "'t \<Rightarrow> bytes \<Rightarrow> err + 't \<times> bool"
    and iter :: "'t \<Rightarrow> entry list"
    and len :: "'t \<Rightarrow> int"
    and treeInv :: "'t \<Rightarrow> bool"
    and ok :: "bytes \<Rightarrow> bool"
    and rawGet :: "'r \<Rightarrow> bytes \<Rightarrow> err + rawResult"
    and scanIter :: "'r \<Rightarrow> bytes option \<Rightarrow> bytes option \<Rightarrow> entry list"
    and allIter :: "'r \<Rightarrow> entry list"
    and tabInv :: "'r \<Rightarrow> bool"
begin

definition view :: "'t \<Rightarrow> 'r list \<Rightarrow> bytes \<rightharpoonup> bytes" where
  "view t rs k = Option.bind (layered (iter t # map allIter rs) k) id"

lemma view_mem:
  "treeInv t \<Longrightarrow> view t rs k =
     (case get t k of None \<Rightarrow> view empty rs k | Some v \<Rightarrow> v)"
  by (auto simp: view_def mem.get_map mem.empty_iter split: option.splits)

lemma view_ins:
  assumes "map_of (iter t') = (map_of (iter t))(k \<mapsto> v)"
  shows "view t' rs = (view t rs)(k := v)"
  using assms by (auto simp: view_def fun_eq_iff split: option.splits)

lemma search_view: "list_all tabInv rs \<Longrightarrow> searchReaders rawGet rs k = Inr (view empty rs k)"
  by (simp add: tab.search_layers view_def mem.empty_iter)

lemma layer_keys_sorted:
  assumes "treeInv t" "list_all tabInv rs"
  shows "\<forall>src \<in> set (iter t # map allIter rs). sorted_wrt (<) (map fst src)"
  using assms mem.iter_sorted tab.all_sorted by (auto simp: list_all_iff)

lemma scan_sources:
  assumes "treeInv t" "list_all tabInv rs"
  shows "memRange s e (iter t) # map (\<lambda>r. scanIter r s e) rs =
    map (filter (\<lambda>x. inRange s e (fst x))) (iter t # map allIter rs)"
  using assms by (auto simp: memRange_filter mem.iter_sorted tab.scan_iter list_all_iff)

text \<open>The merge of all sources lists the view, in key order, unless the empty key is stored.\<close>

lemma scan_view:
  fixes s e
  assumes "treeInv t" "list_all tabInv rs" "\<forall>src \<in> set (iter t # map allIter rs). [] \<notin> fst ` set src"
  defines "res \<equiv> scanMerge None (popSeq (pushSources 0 (memRange s e (iter t) # map (\<lambda>r. scanIter r s e) rs) []))"
  shows "sorted_wrt (<) (map fst res)" and "map_of res k = (if inRange s e k then view t rs k else None)"
proof -
  let ?srcs = "map (filter (\<lambda>x. inRange s e (fst x))) (iter t # map allIter rs)"
  have srt: "\<forall>src \<in> set ?srcs. sorted_wrt (<) (map fst src)"
    using layer_keys_sorted [OF assms(1,2)] by (auto simp: sorted_wrt_map sorted_wrt_filter)
  have ne: "\<forall>src \<in> set ?srcs. [] \<notin> fst ` set src" using assms(3) by auto
  have res: "res = livePairs (newest ?srcs)"
    unfolding res_def scan_sources [OF assms(1,2)] by (rule scanMerge_sources [OF srt ne])
  show "sorted_wrt (<) (map fst res)" unfolding res by (rule livePairs_newest(1) [OF srt])
  show "map_of res k = (if inRange s e k then view t rs k else None)"
    unfolding res livePairs_newest(2) [OF srt] layered_filter by (simp add: view_def)
qed

end

interpretation lsm: layered_store emptyTree Insert Get Delete Iterator Len treeOk keyOk
    RawGet ScanIterator CompactionIterator readerOk
  by unfold_locales

section \<open>Databases\<close>

definition layers :: "DB \<Rightarrow> entry list list" where
  "layers db = Iterator (memtable db) # map CompactionIterator (ssReaders db)"

definition dbView :: "DB \<Rightarrow> bytes \<rightharpoonup> bytes" where
  "dbView db k = Option.bind (layered (layers db) k) id"

lemma dbView_lsm: "dbView db = lsm.view (memtable db) (ssReaders db)"
  by (simp add: fun_eq_iff dbView_def lsm.view_def layers_def)

text \<open>
  What holds of the memory of an open database: the memtable and the readers keep their
  contracts, values are within the limit of the record format, and the counter of live keys
  is exact.
\<close>

definition valOk :: "bytes option \<Rightarrow> bool" where
  "valOk v \<longleftrightarrow> lenOpt v \<le> MaxValueSize"

definition memOk :: "DB \<Rightarrow> bool" where
  "memOk db \<longleftrightarrow> treeOk (memtable db) \<and> list_all readerOk (ssReaders db) \<and>
     (\<forall>x \<in> set (Iterator (memtable db)). valOk (snd x)) \<and> liveKeys db = int (card (dom (dbView db)))"

lemma memOkD:
  assumes "memOk db"
  shows "treeOk (memtable db)" "list_all readerOk (ssReaders db)"
    "\<forall>x \<in> set (Iterator (memtable db)). valOk (snd x)" "liveKeys db = int (card (dom (dbView db)))"
  using assms by (simp_all add: memOk_def)

lemma dbView_dom: "dom (dbView db) \<subseteq> dom (layered (layers db))"
  by (auto simp: dbView_def bind_eq_Some_conv)

lemma dbView_finite: "finite (dom (dbView db))"
  by (rule finite_subset [OF dbView_dom]) (simp add: layered_dom)

lemma dbGet_view: "memOk db \<Longrightarrow> dbGet db k = Inr (dbView db k)"
  using lsm.view_mem [of "memtable db" "ssReaders db" k] lsm.search_view [of "ssReaders db" k]
  by (auto simp: memOk_def dbGet_def dbView_lsm split: option.splits)

lemma liveInReaders_search:
  "list_all readerOk rs \<Longrightarrow> liveInReaders rs k = Inr (lsm.view emptyTree rs k \<noteq> None)"
proof (induction rs)
  case (Cons r rs)
  then show ?case
    by (cases "map_of (CompactionIterator r) k" rule: toRaw.cases)
      (auto simp: sst.raw_get lsm.view_def art.empty_iter)
qed (simp add: lsm.view_def art.empty_iter)

lemma isLiveKey_view: "memOk db \<Longrightarrow> isLiveKey db k = Inr (dbView db k \<noteq> None)"
  using lsm.view_mem [of "memtable db" "ssReaders db" k] liveInReaders_search [of "ssReaders db" k]
  by (auto simp: memOk_def isLiveKey_def dbView_lsm split: option.splits)

lemma Scan_lsm:
  "Scan db s e = scanMerge None (popSeq (pushSources 0
     (memRange s e (Iterator (memtable db)) # map (\<lambda>r. ScanIterator r s e) (ssReaders db)) []))"
  by (simp add: Scan_def collectScan_def memtableRangeIter_def)

definition noEmptyKey :: "DB \<Rightarrow> bool" where
  "noEmptyKey db \<longleftrightarrow> [] \<notin> dom (layered (layers db))"

lemma noEmptyKey_layers: "noEmptyKey db \<longleftrightarrow> (\<forall>src \<in> set (layers db). [] \<notin> fst ` set src)"
  by (auto simp: noEmptyKey_def layered_dom)

text \<open>The keys any layer mentions, deleted ones included.\<close>

definition dbKeys :: "DB \<Rightarrow> bytes set" where
  "dbKeys db = dom (layered (layers db))"

lemma noEmptyKey_dbKeys: "noEmptyKey db \<longleftrightarrow> [] \<notin> dbKeys db"
  by (simp add: noEmptyKey_def dbKeys_def)

lemma dbKeys_split:
  "dbKeys db = dom (map_of (Iterator (memtable db))) \<union> dom (layered (map CompactionIterator (ssReaders db)))"
  by (auto simp: dbKeys_def layers_def split: option.splits)

lemma Scan_view:
  assumes "memOk db" "noEmptyKey db"
  shows "sorted_wrt (<) (map fst (Scan db s e))"
    and "map_of (Scan db s e) k = (if inRange s e k then dbView db k else None)"
  using lsm.scan_view [OF memOkD(1,2) [OF assms(1)], of s e] assms(2)
  unfolding Scan_lsm dbView_lsm noEmptyKey_layers layers_def by blast+

lemma Scan_all_length:
  assumes "memOk db" "noEmptyKey db"
  shows "int (length (Scan db None None)) = liveKeys db"
proof -
  have "map_of (Scan db None None) = dbView db"
    using Scan_view(2) [OF assms, of None None] by (simp add: fun_eq_iff inRange_def)
  moreover have "distinct (map fst (Scan db None None))"
    using Scan_view(1) [OF assms, of None None] strict_sorted_iff by blast
  from distinct_card [OF this] have "length (Scan db None None) = card (dom (map_of (Scan db None None)))"
    by (simp add: dom_map_of_conv_image_fst)
  ultimately show ?thesis using memOkD(4) [OF assms(1)] by simp
qed

text \<open>Storing an entry in the memtable.\<close>

lemma card_dom_upd:
  assumes "finite (dom m)"
  shows "int (card (dom (m(k := v)))) =
    (case v of None \<Rightarrow> (if m k \<noteq> None then int (card (dom m)) - 1 else int (card (dom m)))
     | Some _ \<Rightarrow> (if m k \<noteq> None then int (card (dom m)) else int (card (dom m)) + 1))"
proof (cases v)
  case None
  have "card (dom m) > 0" if "m k \<noteq> None" using assms that by (auto simp: card_gt_0_iff)
  then show ?thesis using None assms by (auto simp: card_Diff_singleton_if domIff of_nat_diff Suc_le_eq)
next
  case (Some x)
  then show ?thesis using assms by (simp add: card_insert_if domIff)
qed

lemma memOk_insert:
  assumes "memOk db" "keyOk k" "valOk v"
  defines "n \<equiv> (case v of None \<Rightarrow> (if dbView db k \<noteq> None then liveKeys db - 1 else liveKeys db)
     | Some _ \<Rightarrow> (if dbView db k \<noteq> None then liveKeys db else liveKeys db + 1))"
  obtains t where "Insert (memtable db) k v = Inr t"
    and "memOk (db\<lparr>liveKeys := n, memtable := t\<rparr>)"
    and "dbView (db\<lparr>liveKeys := n, memtable := t\<rparr>) = (dbView db)(k := v)"
    and "map_of (Iterator t) = (map_of (Iterator (memtable db)))(k \<mapsto> v)"
proof -
  obtain t where t: "Insert (memtable db) k v = Inr t" "treeOk t"
    "map_of (Iterator t) = (map_of (Iterator (memtable db)))(k \<mapsto> v)"
    using art.ins_map [OF memOkD(1) [OF assms(1)] assms(2)] by blast
  let ?db = "db\<lparr>liveKeys := n, memtable := t\<rparr>"
  have v: "dbView ?db = (dbView db)(k := v)" using lsm.view_ins [OF t(3)] by (simp add: dbView_lsm)
  have vals: "\<forall>x \<in> set (Iterator t). valOk (snd x)"
  proof
    fix x assume "x \<in> set (Iterator t)"
    then have "map_of (Iterator t) (fst x) = Some (snd x)" using Iterator_map [OF t(2)] by (metis prod.collapse)
    then have "x = (k, v) \<or> map_of (Iterator (memtable db)) (fst x) = Some (snd x)"
      unfolding t(3) by (auto simp: prod_eq_iff split: if_splits)
    then show "valOk (snd x)" using assms(3) memOkD(3) [OF assms(1)] map_of_SomeD by fastforce
  qed
  have "n = int (card (dom (dbView ?db)))"
    unfolding v card_dom_upd [OF dbView_finite] using memOkD(4) [OF assms(1)] by (simp add: n_def split: option.splits)
  then have "memOk ?db" using t(2) vals memOkD(2) [OF assms(1)] unfolding memOk_def by simp
  with t(1) v t(3) show thesis using that by blast
qed

end
