(* ===== verification/Kora_Store_Inv.thy ===== *)
theory Kora_Store_Inv
  imports Kora_View
begin

text \<open>
  The invariant that ties an open database to its directory (\<open>dbOk\<close>): the segments of
  \<open>order\<close> are on disk and hold well-formed records, no file has the id of a segment still to be
  created, the readers are those of complete tables
  on disk, ids are distinct and below the allocation counters. \<open>durable\<close> says in addition
  that the manifest names exactly these files and that replaying the log over the tables
  gives the current view, which is what a restart will do. The lemmas show that the building
  blocks of the write path keep both when nothing fails; a rollover while tables exist keeps
  only the first.
\<close>

section \<open>File names\<close>

lemma sstFilePath_inj [simp]: "sstFilePath i = sstFilePath j \<longleftrightarrow> i = j"
  by (auto simp: sstFilePath_def sstName_def dest!: pad6_inj word_unat_eq_iff [THEN iffD2])

lemma path_kinds [simp]:
  "sstFilePath i \<noteq> segmentPath j" "segmentPath j \<noteq> sstFilePath i"
  "sstFilePath i \<noteq> Top n" "Top n \<noteq> sstFilePath i"
  by (auto simp: sstFilePath_def segmentPath_def)

lemma not_segment_name: "parseSegmentName n = None \<Longrightarrow> Top n \<noteq> segmentPath i"
  by (metis option.distinct(1) parseSegmentName_segmentName path.inject(1) segmentPath_def)

lemma manifest_not_segment [simp]:
  "Top manifestName \<noteq> segmentPath i" "segmentPath i \<noteq> Top manifestName"
  "Top manifestTmpName \<noteq> segmentPath i" "segmentPath i \<noteq> Top manifestTmpName"
proof -
  have "parseSegmentName manifestName = None" "parseSegmentName manifestTmpName = None"
    by (simp_all add: parseSegmentName_def manifestName_def manifestTmpName_def hasSuffix_def dataExt_def)
  from this [THEN not_segment_name, of i]
  show "Top manifestName \<noteq> segmentPath i" "segmentPath i \<noteq> Top manifestName"
    "Top manifestTmpName \<noteq> segmentPath i" "segmentPath i \<noteq> Top manifestTmpName" by metis+
qed

lemma takeWhile_pad6: "takeWhile isDigit (pad6 n @ str ''.sst'') = pad6 n"
  using pad6_digits [of n] by (simp add: takeWhile_append list_all_iff isDigit_def)

lemma idOfName_sst [simp]: "idOfName (sstFilePath i) = i"
  by (simp add: sstFilePath_def sstName_def takeWhile_pad6 ParseUint_pad6 del: str_simps)

lemma ID_readerOf [simp]: "ID (readerOf p es) = idOfName p"
  by (simp add: ID_def readerOf_def)

lemma rpath_readerOf [simp]: "rpath (readerOf p es) = p"
  by (simp add: readerOf_def)

lemma idsValid_length: "idsValid n ids \<Longrightarrow> length ids < 2 ^ 32"
proof -
  assume v: "idsValid n ids"
  then have "length ids = card (unat ` set ids)"
    by (simp add: idsValid_def distinct_card card_image inj_on_def word_unat_eq_iff)
  also have "\<dots> \<le> card {..<unat n}"
    using v by (intro card_mono) (auto simp: idsValid_def word_less_nat_alt)
  also have "\<dots> < 2 ^ 32" by simp
  finally show ?thesis .
qed

lemma idsValid_snoc: "idsValid n ids \<Longrightarrow> n < n + 1 \<Longrightarrow> idsValid (n + 1) (ids @ [n])"
  by (auto simp: idsValid_def intro: less_trans)

lemma idsValid_fresh: "idsValid n ids \<Longrightarrow> n \<notin> set ids"
  by (auto simp: idsValid_def)

lemma u32_less_Suc: "unat n + 1 < 2 ^ 32 \<Longrightarrow> n < n + 1" for n :: u32
  by (simp add: word_less_nat_alt unat_word_ariths)

section \<open>Replaying a log\<close>

definition logRecOk :: "Record \<Rightarrow> bool" where
  "logRecOk r \<longleftrightarrow> keyOk (Key r) \<and> valOk (Value r)"

lemma logRecOk_recOk: "logRecOk r \<Longrightarrow> recOk r"
  by (simp add: logRecOk_def keyOk_def valOk_def recOk_def maxPrefixLen_def rec_limits)

definition replayLog :: "Record list \<Rightarrow> bytes \<rightharpoonup> bytes option" where
  "replayLog rs = fold (\<lambda>r m. m(Key r \<mapsto> Value r)) rs Map.empty"

lemma replayLog_Nil [simp]: "replayLog [] = Map.empty"
  by (simp add: replayLog_def)

lemma replayLog_snoc [simp]: "replayLog (rs @ [r]) = (replayLog rs)(Key r \<mapsto> Value r)"
  by (simp add: replayLog_def)

lemma concat_map_last:
  assumes "xs \<noteq> []" "distinct xs"
  shows "concat (map (f(last xs := f (last xs) @ ys)) xs) = concat (map f xs) @ ys"
proof -
  obtain zs z where xs: "xs = zs @ [z]" using assms(1) by (cases xs rule: rev_cases) auto
  then have z: "map (f(z := f z @ ys)) zs = map f zs" using assms(2) by (auto intro!: map_cong)
  have "concat (map (f(last xs := f (last xs) @ ys)) xs) = concat (map (f(z := f z @ ys)) zs) @ f z @ ys"
    by (simp add: xs)
  then show ?thesis unfolding z by (simp add: xs)
qed

section \<open>The invariant\<close>

definition shapeOk :: "DB \<Rightarrow> bool" where
  "shapeOk db \<longleftrightarrow> order db \<noteq> [] \<and> active db = Some (last (order db)) \<and>
     idsValid (nextID db) (order db) \<and> idsValid (ssNextID db) (currentSSTIDs db) \<and>
     distinct (map fst (segments db)) \<and> set (map fst (segments db)) = set (order db)"

text \<open>The records a scan finds in a segment file.\<close>

definition recordsOf :: "bytes \<Rightarrow> Record list" where
  "recordsOf b = fst (scanLoop (\<lambda>r _ _ acc. Inr (acc @ [r])) b 0 [])"

definition recordsAt :: "world \<Rightarrow> u32 \<Rightarrow> Record list" where
  "recordsAt w i = (case lookupFile (segmentPath i) w of None \<Rightarrow> [] | Some c \<Rightarrow> recordsOf c)"

definition segOk :: "world \<Rightarrow> (u32 \<times> segment) list \<Rightarrow> u32 \<Rightarrow> bool" where
  "segOk w segs i \<longleftrightarrow> lookupFile (segmentPath i) w = Some (logOf (recordsAt w i)) \<and>
     list_all logRecOk (recordsAt w i) \<and>
     map_of segs i = Some \<lparr>sid = i, ssize = length (logOf (recordsAt w i))\<rparr>"

definition tableAt :: "world \<Rightarrow> Reader \<Rightarrow> bool" where
  "tableAt w r \<longleftrightarrow> readerOk r \<and> rpath r = sstFilePath (ID r) \<and>
     lookupFile (rpath r) w = Some (sstImage (CompactionIterator r))"

definition dbOk :: "DB \<Rightarrow> world \<Rightarrow> bool" where
  "dbOk db w \<longleftrightarrow> memOk db \<and> shapeOk db \<and> list_all (segOk w (segments db)) (order db) \<and>
     list_all (tableAt w) (ssReaders db) \<and>
     (\<forall>i. lookupFile (segmentPath i) w \<noteq> None \<longrightarrow> i < nextID db)"

text \<open>The manifest on disk describes the database, and what it describes is the view.\<close>

definition synced :: "DB \<Rightarrow> world \<Rightarrow> bool" where
  "synced db w \<longleftrightarrow> (\<exists>m. lookupFile (Top manifestName) w = Some (manifestBytes m) \<and> manifestValid m \<and>
     mOrder m = order db \<and> mSstIDs m = currentSSTIDs db)"

definition overlay :: "(bytes \<rightharpoonup> bytes option) \<Rightarrow> entry list list \<Rightarrow> bytes \<rightharpoonup> bytes" where
  "overlay m ls k = (case m k of None \<Rightarrow> Option.bind (layered ls k) id | Some v \<Rightarrow> v)"

definition logRecords :: "DB \<Rightarrow> world \<Rightarrow> Record list" where
  "logRecords db w = concat (map (recordsAt w) (order db))"

definition durable :: "DB \<Rightarrow> world \<Rightarrow> bool" where
  "durable db w \<longleftrightarrow> synced db w \<and>
     overlay (replayLog (logRecords db w)) (map CompactionIterator (ssReaders db)) = dbView db"

lemma syncedI:
  "lookupFile (Top manifestName) w = Some (manifestBytes m) \<Longrightarrow> manifestValid m \<Longrightarrow>
     mOrder m = order db \<Longrightarrow> mSstIDs m = currentSSTIDs db \<Longrightarrow> synced db w"
  by (auto simp: synced_def)

lemma dbView_overlay: "dbView db = overlay (map_of (Iterator (memtable db))) (map CompactionIterator (ssReaders db))"
  by (auto simp: fun_eq_iff dbView_def layers_def overlay_def split: option.splits)

lemma overlay_upd [simp]: "overlay (m(k \<mapsto> v)) ls = (overlay m ls)(k := v)"
  by (auto simp: overlay_def fun_eq_iff)

lemma overlay_empty: "overlay Map.empty ls k = Option.bind (layered ls k) id"
  by (simp add: overlay_def)

lemma fold_snoc: "fold (\<lambda>r acc. acc @ [r]) rs acc = acc @ rs"
  by (induction rs arbitrary: acc) auto

lemma recordsOf_log: "list_all recOk rs \<Longrightarrow> recordsOf (logOf rs) = rs"
  using scanLoop_clean [of rs "\<lambda>r _ _ acc. Inr (acc @ [r])" "\<lambda>r acc. acc @ [r]" "[]"]
  by (simp add: recordsOf_def fold_snoc)

lemma recOk_of_logRecOk: "list_all logRecOk rs \<Longrightarrow> list_all recOk rs"
  using logRecOk_recOk by (auto simp: list_all_iff)

lemma recordsAt_log:
  "lookupFile (segmentPath i) w = Some (logOf rs) \<Longrightarrow> list_all logRecOk rs \<Longrightarrow> recordsAt w i = rs"
  by (simp add: recordsAt_def recordsOf_log recOk_of_logRecOk)

lemma segOkI:
  "lookupFile (segmentPath i) w = Some (logOf rs) \<Longrightarrow> list_all logRecOk rs \<Longrightarrow>
     map_of segs i = Some \<lparr>sid = i, ssize = length (logOf rs)\<rparr> \<Longrightarrow> segOk w segs i"
  by (simp add: segOk_def recordsAt_log)

lemma recordsAt_cong:
  "lookupFile (segmentPath i) w' = lookupFile (segmentPath i) w \<Longrightarrow> recordsAt w' i = recordsAt w i"
  by (simp add: recordsAt_def)

lemma segOk_cong:
  "lookupFile (segmentPath i) w' = lookupFile (segmentPath i) w \<Longrightarrow> map_of segs' i = map_of segs i \<Longrightarrow>
     segOk w' segs' i = segOk w segs i"
  using recordsAt_cong [of i w' w] by (simp add: segOk_def)

lemma tableAt_cong:
  "lookupFile (sstFilePath (ID r)) w' = lookupFile (sstFilePath (ID r)) w \<Longrightarrow> tableAt w' r = tableAt w r"
  by (metis tableAt_def)

text \<open>
  Room for \<open>n\<close> more writes: ids do not wrap, and everything stored fits one table (whose filter
  is sized in 32 bits).
\<close>

definition tableEntries :: "DB \<Rightarrow> nat" where
  "tableEntries db = sum_list (map (length \<circ> CompactionIterator) (ssReaders db))"

definition storedEntries :: "DB \<Rightarrow> nat" where
  "storedEntries db = length (Iterator (memtable db)) + tableEntries db"

definition hasRoom :: "nat \<Rightarrow> DB \<Rightarrow> bool" where
  "hasRoom n db \<longleftrightarrow> unat (nextID db) + 2 * n < 2 ^ 32 - 1 \<and> unat (ssNextID db) + n < 2 ^ 32 - 1 \<and>
     storedEntries db + n \<le> 429496728"

lemma dbOk_mem: "dbOk db w \<Longrightarrow> memOk db" and dbOk_shape: "dbOk db w \<Longrightarrow> shapeOk db"
  by (simp_all add: dbOk_def)

lemma memSize_irrelevant [simp]:
  "dbView (db\<lparr>memSize := n\<rparr>) = dbView db" "memOk (db\<lparr>memSize := n\<rparr>) = memOk db"
  "shapeOk (db\<lparr>memSize := n\<rparr>) = shapeOk db" "synced (db\<lparr>memSize := n\<rparr>) = synced db"
  "logRecords (db\<lparr>memSize := n\<rparr>) = logRecords db"
  by (simp_all add: dbView_lsm memOk_def shapeOk_def fun_eq_iff synced_def currentSSTIDs_def logRecords_def)

lemma dbOk_memSize [simp]: "dbOk (db\<lparr>memSize := n\<rparr>) = dbOk db" "durable (db\<lparr>memSize := n\<rparr>) = durable db"
  by (simp_all add: fun_eq_iff dbOk_def durable_def)

lemma dbOk_seg: "dbOk db w \<Longrightarrow> i \<in> set (order db) \<Longrightarrow> segOk w (segments db) i"
  by (simp add: dbOk_def list_all_iff)

lemma dbOk_order:
  assumes "dbOk db w"
  shows "order db \<noteq> []" "distinct (order db)" "last (order db) \<in> set (order db)" "nextID db \<notin> set (order db)"
    "active db = Some (last (order db))" "lookupFile (segmentPath (nextID db)) w = None"
proof -
  have sh: "shapeOk db" using assms by (simp add: dbOk_def)
  then show "order db \<noteq> []" "distinct (order db)" "last (order db) \<in> set (order db)" "active db = Some (last (order db))"
    by (auto simp: shapeOk_def idsValid_def)
  show "nextID db \<notin> set (order db)" using sh idsValid_fresh by (auto simp: shapeOk_def)
  then show "lookupFile (segmentPath (nextID db)) w = None" using assms by (auto simp: dbOk_def)
qed

lemma activeSeg_last:
  assumes "dbOk db w"
  shows "activeSeg db = Some \<lparr>sid = last (order db), ssize = length (logOf (recordsAt w (last (order db))))\<rparr>"
  using dbOk_seg [OF assms dbOk_order(3) [OF assms]] dbOk_order(5) [OF assms] by (simp add: activeSeg_def segOk_def)

text \<open>A memtable within the limits is a legal table.\<close>

lemma length_encEntry: "length (encEntry e) = 8 + length (fst e) + lenOpt (snd e)"
  by (simp add: encEntry_def lenOpt_def split: option.splits)

lemma sstOk_memtable:
  assumes "memOk db" "length (Iterator (memtable db)) \<le> 429496728"
  shows "sstOk (Iterator (memtable db))"
proof -
  let ?es = "Iterator (memtable db)"
  have e: "length (fst x) \<le> 64 \<and> lenOpt (snd x) \<le> MaxValueSize" if x: "x \<in> set ?es" for x
  proof -
    have "keyOk (fst x)" using art.iter_ok [OF memOkD(1) [OF assms(1)], of "fst x" "snd x"] x by simp
    then show ?thesis using memOkD(3) [OF assms(1)] x by (simp add: keyOk_def maxPrefixLen_def valOk_def)
  qed
  have "entryOk x" if "x \<in> set ?es" for x
    using e [OF that] by (auto simp: entryOk_def lenOpt_def MaxValueSize_def split: option.splits)
  moreover have "length (dataOf ?es) < 2 ^ 62"
  proof -
    have "length (dataOf xs) \<le> length xs * 2000000000" if "set xs \<subseteq> set ?es" for xs
      using that
    proof (induction xs)
      case (Cons x xs)
      then show ?case using e [of x] by (simp add: length_encEntry MaxValueSize_def)
    qed simp
    from this [of ?es] show ?thesis using assms(2) by simp
  qed
  ultimately show ?thesis using assms art.iter_sorted memOkD(1) by (auto simp: sstOk_def list_all_iff)
qed

section \<open>System calls that succeed\<close>

lemma dirExists_segment [simp]: "dirExists (segmentPath i) w"
  by (simp add: segmentPath_def)

lemma quietly_fclose_calm [simp]: "calm w \<Longrightarrow> quietly (fclose p) w = w"
  by (simp add: quietly_def)

lemma segClose_calm [simp]: "calm w \<Longrightarrow> quietly (segClose s) w = w"
  by (simp add: segClose_def)

lemma createSegment_calm:
  "calm w \<Longrightarrow> lookupFile (segmentPath i) w = None \<Longrightarrow>
     createSegment i w = (Inr \<lparr>sid = i, ssize = 0\<rparr>, putFile (segmentPath i) [] w)"
  by (simp add: createSegment_def openAppend_def fstat_def)

lemma createSegment_existing:
  "calm w \<Longrightarrow> lookupFile (segmentPath i) w = Some c \<Longrightarrow>
     createSegment i w = (Inr \<lparr>sid = i, ssize = length c\<rparr>, w)"
  by (simp add: createSegment_def openAppend_def fstat_def)

lemma retireSegments_calm:
  "calm w \<Longrightarrow> calm (retireSegments segs ids w) \<and>
     (\<forall>p. lookupFile p (retireSegments segs ids w) = (if p \<in> segmentPath ` set ids then None else lookupFile p w))"
proof (induction segs ids w rule: retireSegments.induct)
  case (2 segs i ids w)
  let ?w1 = "case map_of segs i of None \<Rightarrow> w | Some seg \<Rightarrow> quietly (segClose seg) w"
  let ?w2 = "quietly (osRemove (segmentPath i)) ?w1"
  have w1: "?w1 = w" using "2.prems" by (simp split: option.splits)
  have w2: "calm ?w2" "lookupFile p ?w2 = (if p = segmentPath i then None else lookupFile p w)" for p
    using "2.prems" unfolding w1 by auto
  from "2.IH" [OF w2(1)] show ?case unfolding retireSegments.simps w2(2) by auto
qed simp

lemma mkdirSst_calm:
  assumes "calm w"
  shows "\<exists>w'. mkdirSst w = (Inr (), w') \<and> calm w' \<and> (\<forall>p. lookupFile p w' = lookupFile p w) \<and> sstdir w' \<noteq> None"
proof (cases "sstdir w")
  case None
  have "lookupFile p (w\<lparr>sstdir := Some []\<rparr>) = lookupFile p w" for p
    using None by (cases p) (simp_all add: lookupFile.simps)
  then show ?thesis using assms None by (simp add: mkdirSst_def) (simp add: calm_def)
next
  case (Some d)
  then show ?thesis using assms by (simp add: mkdirSst_def)
qed

section \<open>Appending\<close>

definition appendedTo :: "DB \<Rightarrow> world \<Rightarrow> nat \<Rightarrow> DB" where
  "appendedTo db w n = db\<lparr>segments := AList.update (last (order db))
     \<lparr>sid = last (order db), ssize = length (logOf (recordsAt w (last (order db)))) + n\<rparr> (segments db)\<rparr>"

lemma appendActive_calm:
  assumes "calm w" "dbOk db w"
  shows "appendActive db b w = ((None, appendedTo db w (length b)), appendFile (segmentPath (last (order db))) b w)"
  using assms(1) activeSeg_last [OF assms(2)]
  by (simp add: appendActive_def appendedTo_def segAppend_def segSync_def Let_def)

text \<open>Logging a record and entering it into the memtable keeps the invariant.\<close>

lemma dbOk_logged:
  assumes ok: "dbOk db w" and r: "logRecOk r"
    and db': "db' = (appendedTo db w (length (encRec r)))\<lparr>liveKeys := n, memtable := t\<rparr>"
    and w': "\<And>p. lookupFile p w' = lookupFile p (appendFile (segmentPath (last (order db))) (encRec r) w)"
    and mem: "memOk db'"
  shows "dbOk db' w'" and "logRecords db' w' = logRecords db w @ [r]"
proof -
  let ?a = "last (order db)"
  note ord = dbOk_order [OF ok]
  have sh: "shapeOk db" using ok by (simp add: dbOk_def)
  note a = dbOk_seg [OF ok ord(3), unfolded segOk_def]
  have fa: "lookupFile (segmentPath ?a) w' = Some (logOf (recordsAt w ?a @ [r]))" using a by (simp add: w')
  have la: "list_all logRecOk (recordsAt w ?a @ [r])" using a r by simp
  have recs: "recordsAt w' = (recordsAt w)(?a := recordsAt w ?a @ [r])"
  proof
    fix i
    show "recordsAt w' i = ((recordsAt w)(?a := recordsAt w ?a @ [r])) i"
      using recordsAt_log [OF fa la] recordsAt_cong [of i w' w] by (simp add: w')
  qed
  have "segOk w' (segments db') i" if i: "i \<in> set (order db)" for i
  proof (cases "i = ?a")
    case True
    then show ?thesis by (simp add: segOkI [OF fa la] db' appendedTo_def update_conv')
  next
    case False
    then show ?thesis using dbOk_seg [OF ok i] segOk_cong [of i w' w "segments db'" "segments db"]
      by (simp add: w' db' appendedTo_def update_conv')
  qed
  moreover have "shapeOk db'"
    using sh ord(3) by (auto simp: shapeOk_def db' appendedTo_def currentSSTIDs_def update_keys dom_update distinct_update)
  moreover have "list_all (tableAt w') (ssReaders db')"
    using ok by (auto simp: dbOk_def db' appendedTo_def w' tableAt_def list_all_iff)
  moreover have "\<forall>i. lookupFile (segmentPath i) w' \<noteq> None \<longrightarrow> i < nextID db'"
    using ok by (auto simp: dbOk_def db' appendedTo_def w' split: if_splits)
  ultimately show "dbOk db' w'" using mem by (auto simp: dbOk_def db' appendedTo_def list_all_iff)
  show "logRecords db' w' = logRecords db w @ [r]"
    using concat_map_last [OF ord(1,2), of "recordsAt w" "[r]"] by (simp add: logRecords_def recs db' appendedTo_def)
qed

section \<open>Rolling over\<close>

definition sameMem :: "DB \<Rightarrow> DB \<Rightarrow> bool" where
  "sameMem db db' \<longleftrightarrow> memtable db' = memtable db \<and> ssReaders db' = ssReaders db \<and> opts db' = opts db \<and>
     ssNextID db' = ssNextID db \<and> liveKeys db' = liveKeys db \<and> memSize db' = memSize db"

lemma sameMem_refl [simp]: "sameMem db db"
  by (simp add: sameMem_def)

lemma sameMem_view: "sameMem db db' \<Longrightarrow> dbView db' = dbView db \<and> memOk db' = memOk db"
  by (simp add: sameMem_def dbView_lsm memOk_def)

text \<open>\<open>rolls db\<close>: the next write opens a new segment.\<close>

definition rolls :: "DB \<Rightarrow> bool" where
  "rolls db \<longleftrightarrow> (case activeSeg db of None \<Rightarrow> False | Some s \<Rightarrow> \<not> int (ssize s) < MaxSegmentBytes (opts db))"

lemma dbOk_rolled:
  assumes ok: "dbOk db w" and room: "unat (nextID db) + 1 < 2 ^ 32"
    and db': "db' = db\<lparr>segments := AList.update (nextID db) \<lparr>sid = nextID db, ssize = 0\<rparr> (segments db),
      active := Some (nextID db), order := order db @ [nextID db], nextID := nextID db + 1\<rparr>"
    and new: "lookupFile (segmentPath (nextID db)) w' = Some []"
    and old: "\<And>p. p \<noteq> segmentPath (nextID db) \<Longrightarrow> p \<noteq> Top manifestName \<Longrightarrow> p \<noteq> Top manifestTmpName \<Longrightarrow>
      lookupFile p w' = lookupFile p w"
  shows "dbOk db' w'" and "logRecords db' w' = logRecords db w"
proof -
  let ?n = "nextID db"
  note fresh = dbOk_order(4) [OF ok]
  have sh: "shapeOk db" and v: "idsValid ?n (order db)" using ok by (auto simp: dbOk_def shapeOk_def)
  have ne: "segmentPath i \<noteq> segmentPath ?n" if "i \<in> set (order db)" for i using fresh that by auto
  have rs: "recordsAt w' i = recordsAt w i" if "i \<in> set (order db)" for i
    by (rule recordsAt_cong, rule old [OF ne [OF that]]) simp_all
  have rn: "recordsAt w' ?n = []" using recordsAt_log [of ?n w' "[]"] new by simp
  show "logRecords db' w' = logRecords db w" using rs rn by (simp add: logRecords_def db' cong: map_cong)
  have "segOk w' (segments db') i" if i: "i \<in> set (order db')" for i
  proof (cases "i = ?n")
    case True
    then show ?thesis using segOkI [of i w' "[]"] new by (simp add: db' update_conv')
  next
    case False
    then have i': "i \<in> set (order db)" using i by (simp add: db')
    show ?thesis using dbOk_seg [OF ok i'] segOk_cong [of i w' w "segments db'" "segments db"] old [OF ne [OF i']] False
      by (simp add: db' update_conv')
  qed
  moreover have "shapeOk db'"
    using sh fresh idsValid_snoc [OF v u32_less_Suc [OF room]]
    by (auto simp: shapeOk_def db' currentSSTIDs_def dom_update distinct_update update_keys)
  moreover have "list_all (tableAt w') (ssReaders db')"
    using ok old by (auto simp: dbOk_def db' tableAt_def list_all_iff)
  moreover have "\<forall>i. lookupFile (segmentPath i) w' \<noteq> None \<longrightarrow> i < nextID db'"
  proof (intro allI impI)
    fix i assume "lookupFile (segmentPath i) w' \<noteq> None"
    then show "i < nextID db'"
      using ok old [of "segmentPath i"] u32_less_Suc [OF room]
      by (cases "i = nextID db") (auto simp: dbOk_def db' intro: less_trans)
  qed
  moreover have "memOk db'" using ok by (simp add: dbOk_def memOk_def db' dbView_lsm)
  ultimately show "dbOk db' w'" by (auto simp: dbOk_def list_all_iff)
qed

lemma maybeRollover_calm:
  assumes "calm w" "dbOk db w" "unat (nextID db) + 1 < 2 ^ 32"
  shows "\<exists>db' w'. maybeRollover db w = ((None, db'), w') \<and> calm w' \<and> dbOk db' w' \<and> sameMem db db' \<and>
    unat (nextID db') \<le> unat (nextID db) + 1 \<and> (\<not> rolls db \<longrightarrow> db' = db \<and> w' = w) \<and>
    logRecords db' w' = logRecords db w \<and> (ssReaders db = [] \<and> synced db w \<longrightarrow> synced db' w') \<and>
    (rolls db \<longrightarrow> order db' = order db @ [nextID db] \<and> lookupFile (Top manifestName) w' = Some (manifestBytes
       \<lparr>mNextID = nextID db + 1, mOrder = order db @ [nextID db], mNextSSTID = 0, mSstIDs = []\<rparr>) \<and> nextID db' = nextID db + 1) \<and>
    (\<forall>i. i \<noteq> nextID db \<longrightarrow> lookupFile (segmentPath i) w' = lookupFile (segmentPath i) w)"
proof -
  let ?n = "nextID db"
  note act = activeSeg_last [OF assms(2)]
  show ?thesis
  proof (cases "rolls db")
    case False
    then show ?thesis using act assms by (auto simp: maybeRollover_def rolls_def)
  next
    case True
    note none = dbOk_order(6) [OF assms(2)]
    let ?m = "\<lparr>mNextID = ?n + 1, mOrder = order db @ [?n], mNextSSTID = 0, mSstIDs = []\<rparr>"
    let ?db = "db\<lparr>segments := AList.update ?n \<lparr>sid = ?n, ssize = 0\<rparr> (segments db),
      active := Some ?n, order := order db @ [?n], nextID := ?n + 1\<rparr>"
    obtain w' where w': "writeManifest ?m (putFile (segmentPath ?n) [] w) = (None, w')" "calm w'"
      "lookupFile (Top manifestName) w' = Some (manifestBytes ?m)"
      "\<And>p. p \<noteq> Top manifestName \<Longrightarrow> p \<noteq> Top manifestTmpName \<Longrightarrow>
        lookupFile p w' = lookupFile p (putFile (segmentPath ?n) [] w)"
      using writeManifest_calm [of "putFile (segmentPath ?n) [] w" ?m] assms(1) by auto
    have "maybeRollover db w = ((None, ?db), w')"
      using True act assms(1) w'(1) createSegment_calm [OF assms(1) none]
      by (simp add: maybeRollover_def rolls_def segSync_def)
    moreover have "dbOk ?db w'" "logRecords ?db w' = logRecords db w"
      using dbOk_rolled [OF assms(2,3) refl, of w'] by (simp_all add: w'(4))
    moreover have "synced ?db w'" if "ssReaders db = []"
      using dbOk_shape [OF assms(2)] idsValid_snoc [OF _ u32_less_Suc [OF assms(3)], of "order db"] that
      by (intro syncedI [OF w'(3)]) (simp_all add: manifestValid_def shapeOk_def currentSSTIDs_def idsValid_def)
    moreover have "lookupFile (segmentPath i) w' = lookupFile (segmentPath i) w" if "i \<noteq> ?n" for i using w'(4) that by simp
    ultimately show ?thesis using True w'(2,3) assms(3) by (auto simp: sameMem_def unat_word_ariths)
  qed
qed

section \<open>Flushing\<close>

lemma view_flushed:
  assumes "CompactionIterator r = Iterator (memtable db)"
  shows "lsm.view emptyTree (r # ssReaders db) = dbView db"
  using assms by (auto simp: fun_eq_iff lsm.view_def dbView_def layers_def art.empty_iter)

lemma dbOk_flushed:
  assumes ok: "dbOk db w" and es: "sstOk (Iterator (memtable db))"
    and room: "unat (nextID db) + 1 < 2 ^ 32" "unat (ssNextID db) + 1 < 2 ^ 32"
    and db': "db' = db\<lparr>ssNextID := ssNextID db + 1, nextID := nextID db + 1, order := [nextID db],
      segments := [(nextID db, \<lparr>sid = nextID db, ssize = 0\<rparr>)], active := Some (nextID db),
      ssReaders := readerOf (sstFilePath (ssNextID db)) (Iterator (memtable db)) # ssReaders db,
      memtable := emptyTree, memSize := 0\<rparr>"
    and new: "lookupFile (segmentPath (nextID db)) w' = Some []"
      "lookupFile (sstFilePath (ssNextID db)) w' = Some (sstImage (Iterator (memtable db)))"
    and old: "\<And>i. i \<noteq> ssNextID db \<Longrightarrow> lookupFile (sstFilePath i) w' = lookupFile (sstFilePath i) w"
      "\<And>i. i \<noteq> nextID db \<Longrightarrow> lookupFile (segmentPath i) w' \<noteq> None \<Longrightarrow> i < nextID db"
  shows "dbOk db' w'" and "dbView db' = dbView db" and "logRecords db' w' = []"
    and "currentSSTIDs db' = currentSSTIDs db @ [ssNextID db]"
    and "idsValid (ssNextID db + 1) (currentSSTIDs db @ [ssNextID db])"
proof -
  let ?r = "readerOf (sstFilePath (ssNextID db)) (Iterator (memtable db))"
  show "logRecords db' w' = []" using recordsAt_log [of "nextID db" w' "[]"] new(1) by (simp add: logRecords_def db')
  have v: "idsValid (ssNextID db) (currentSSTIDs db)" using ok by (auto simp: dbOk_def shapeOk_def)
  show ids: "currentSSTIDs db' = currentSSTIDs db @ [ssNextID db]" by (simp add: db' currentSSTIDs_def)
  show vs: "idsValid (ssNextID db + 1) (currentSSTIDs db @ [ssNextID db])"
    by (rule idsValid_snoc [OF v u32_less_Suc [OF room(2)]])
  have mem: "CompactionIterator ?r = Iterator (memtable db)" by (rule CompactionIterator_readerOf [OF es])
  show view: "dbView db' = dbView db" using view_flushed [OF mem] by (simp add: dbView_lsm db')
  then have "memOk db'"
    using ok readerOk_readerOf [OF es] by (simp add: dbOk_def memOk_def art.empty_inv art.empty_iter db')
  moreover have "shapeOk db'"
    using vs ids u32_less_Suc [OF room(1)] by (simp add: shapeOk_def db' idsValid_def)
  moreover have "list_all (segOk w' (segments db')) (order db')"
    using segOkI [of "nextID db" w' "[]"] new(1) by (simp add: db')
  moreover have "list_all (tableAt w') (ssReaders db')"
  proof -
    have "tableAt w' ?r" using new(2) mem readerOk_readerOf [OF es] by (simp add: tableAt_def)
    moreover have "tableAt w' r" if r: "r \<in> set (ssReaders db)" for r
    proof -
      have "ID r \<noteq> ssNextID db" using idsValid_fresh [OF v] r by (metis currentSSTIDs_def imageI set_map set_rev)
      moreover have "tableAt w r" using ok r by (auto simp: dbOk_def list_all_iff)
      ultimately show ?thesis using old(1) by (metis tableAt_def)
    qed
    ultimately show ?thesis by (simp add: db' list_all_iff)
  qed
  moreover have "i < nextID db'" if "lookupFile (segmentPath i) w' \<noteq> None" for i
    using old(2) [OF _ that] u32_less_Suc [OF room(1)] less_trans [of i "nextID db"] by (cases "i = nextID db") (simp_all add: db')
  ultimately show "dbOk db' w'" by (auto simp: dbOk_def)
qed

lemma Len_0_iff: "treeOk t \<Longrightarrow> Len t = 0 \<longleftrightarrow> Iterator t = []"
  by (simp add: art.len_iter)

lemma flushMemtable_calm:
  assumes "calm w" "dbOk db w" "length (Iterator (memtable db)) \<le> 429496728"
    and "unat (nextID db) + 1 < 2 ^ 32" "unat (ssNextID db) + 1 < 2 ^ 32"
  shows "\<exists>db' w'. flushMemtable db w = ((None, db'), w') \<and> calm w' \<and> dbOk db' w' \<and> dbView db' = dbView db \<and>
    opts db' = opts db \<and> storedEntries db' = storedEntries db \<and>
    unat (nextID db') \<le> unat (nextID db) + 1 \<and> unat (ssNextID db') \<le> unat (ssNextID db) + 1 \<and>
    (Iterator (memtable db) \<noteq> [] \<or> durable db w \<longrightarrow> durable db' w') \<and> dbKeys db' = dbKeys db \<and>
    (Iterator (memtable db) \<noteq> [] \<longrightarrow> order db' = [nextID db] \<and> nextID db' = nextID db + 1 \<and> lookupFile (segmentPath (nextID db)) w' = Some [] \<and>
       (\<forall>i. i \<noteq> nextID db \<longrightarrow> lookupFile (segmentPath i) w' = (if i \<in> set (order db) then None else lookupFile (segmentPath i) w)))"
proof (cases "Iterator (memtable db) = []")
  case True
  let ?db = "db\<lparr>memSize := 0\<rparr>"
  have "Len (memtable db) = 0" using True Len_0_iff memOkD(1) dbOk_mem [OF assms(2)] by metis
  moreover have "dbOk ?db w" using assms(2) by simp
  ultimately show ?thesis using True assms(1) by (simp add: flushMemtable_def storedEntries_def tableEntries_def dbKeys_split)
next
  case False
  let ?es = "Iterator (memtable db)" and ?n = "nextID db" and ?s = "ssNextID db"
  let ?p = "sstFilePath ?s" and ?q = "segmentPath ?n"
  have mem: "memOk db" and sh: "shapeOk db" using assms(2) by (auto simp: dbOk_def)
  have len: "Len (memtable db) \<noteq> 0" using False Len_0_iff [OF memOkD(1) [OF mem]] by simp
  have es: "sstOk ?es" by (rule sstOk_memtable [OF mem assms(3)])
  obtain w1 where w1: "mkdirSst w = (Inr (), w1)" "calm w1" "\<And>p. lookupFile p w1 = lookupFile p w" "sstdir w1 \<noteq> None"
    using mkdirSst_calm [OF assms(1)] by blast
  then have dir: "dirExists ?p w1" by (simp add: sstFilePath_def)
  let ?w2 = "putFile ?p (sstImage ?es) w1"
  have w2: "writeSST ?p ?es w1 = (None, ?w2)" by (rule writeSST_calm [OF w1(2) dir es])
  have op: "sstOpen ?p ?w2 = (Inr (readerOf ?p ?es), ?w2)"
    using w1(2) dir es by (intro sstOpen_image) simp_all
  have none: "lookupFile ?q ?w2 = None" using dbOk_order(6) [OF assms(2)] w1(3) by simp
  let ?w3 = "putFile ?q [] ?w2"
  have cs: "createSegment ?n ?w2 = (Inr \<lparr>sid = ?n, ssize = 0\<rparr>, ?w3)"
    using w1(2) none by (intro createSegment_calm) simp_all
  let ?m = "\<lparr>mNextID = ?n + 1, mOrder = [?n], mNextSSTID = ?s + 1, mSstIDs = currentSSTIDs db @ [?s]\<rparr>"
  obtain w4 where w4: "writeManifest ?m ?w3 = (None, w4)" "calm w4"
    "lookupFile (Top manifestName) w4 = Some (manifestBytes ?m)"
    "\<And>p. p \<noteq> Top manifestName \<Longrightarrow> p \<noteq> Top manifestTmpName \<Longrightarrow> lookupFile p w4 = lookupFile p ?w3"
    using writeManifest_calm [of ?w3 ?m] w1(2) by auto
  let ?w5 = "retireSegments (segments db) (order db) w4"
  note w5 = retireSegments_calm [OF w4(2), of "segments db" "order db"]
  define db' where "db' = db\<lparr>ssNextID := ?s + 1, nextID := ?n + 1, order := [?n],
      segments := [(?n, \<lparr>sid = ?n, ssize = 0\<rparr>)], active := Some ?n,
      ssReaders := readerOf ?p ?es # ssReaders db, memtable := emptyTree, memSize := 0\<rparr>"
  have step: "flushMemtable db w = ((None, db'), ?w5)"
    using len w1(1) w2 op cs w4(1) by (simp add: flushMemtable_def Let_def db'_def)
  note fresh = dbOk_order(4) [OF assms(2)]
  have n: "lookupFile ?q ?w5 = Some []" "lookupFile ?p ?w5 = Some (sstImage ?es)"
    using w5 w4(4) fresh dir by auto
  have o: "lookupFile (sstFilePath i) ?w5 = lookupFile (sstFilePath i) w" if "i \<noteq> ?s" for i
    using w5 w4(4) w1(3) that by auto
  have s: "i < ?n" if "i \<noteq> ?n" "lookupFile (segmentPath i) ?w5 \<noteq> None" for i
    using w5 w4(4) w1(3) that assms(2) by (auto simp: dbOk_def split: if_splits)
  note fl = dbOk_flushed [OF assms(2) es assms(4,5) db'_def n o s, simplified]
  have "synced db' ?w5"
    using w5 w4(3) fl(4,5) u32_less_Suc [OF assms(4)]
    by (intro syncedI [of _ ?m]) (auto simp: manifestValid_def idsValid_def db'_def)
  then have "durable db' ?w5"
    using fl(3) dbView_overlay [of db'] by (simp add: durable_def db'_def art.empty_iter)
  moreover have "unat (?n + 1) \<le> unat ?n + 1" "unat (?s + 1) \<le> unat ?s + 1"
    using assms(4,5) by (simp_all add: unat_word_ariths)
  moreover have "storedEntries db' = storedEntries db"
    by (simp add: db'_def storedEntries_def tableEntries_def art.empty_iter CompactionIterator_readerOf [OF es])
  moreover have "dbKeys db' = dbKeys db"
    by (auto simp: dbKeys_def layers_def db'_def art.empty_iter CompactionIterator_readerOf [OF es] domIff)
  moreover have "lookupFile (segmentPath i) ?w5 = (if i \<in> set (order db) then None else lookupFile (segmentPath i) w)" if "i \<noteq> ?n" for i
    using w5 w4(4) w1(3) that by auto
  ultimately show ?thesis using step fl(1,2) w5 n(1) by (simp add: db'_def)
qed

end
