(* ===== verification/Kora_Store_Ops.thy ===== *)
theory Kora_Store_Ops
  imports Kora_Store_Inv
begin

text \<open>
  \<open>Set\<close> and \<open>Delete\<close> when nothing fails: both keep the invariant and update the view, through
  a segment rollover or a flush if one is due. Runs of operations refine runs on a map.
\<close>

section \<open>The write path\<close>

text \<open>How a write changes the segments: the last one grows, or a new one is added.\<close>

definition extends :: "DB \<Rightarrow> world \<Rightarrow> DB \<Rightarrow> world \<Rightarrow> bool" where
  "extends db w db' w' \<longleftrightarrow>
     (order db' = order db \<and> nextID db' = nextID db \<or> order db' = order db @ [nextID db] \<and> nextID db' = nextID db + 1) \<and>
     (\<forall>i. i \<noteq> last (order db) \<and> i \<noteq> nextID db \<longrightarrow> lookupFile (segmentPath i) w' = lookupFile (segmentPath i) w)"

text \<open>How a flush changes them: one fresh segment replaces those of the log.\<close>

definition flushed :: "DB \<Rightarrow> world \<Rightarrow> DB \<Rightarrow> world \<Rightarrow> bool" where
  "flushed db w db' w' \<longleftrightarrow> (\<exists>m. order db' = [m] \<and> nextID db \<le> m \<and> m < nextID db' \<and> lookupFile (segmentPath m) w' = Some []) \<and>
     (\<forall>i. i < nextID db \<longrightarrow> lookupFile (segmentPath i) w' = (if i \<in> set (order db) then None else lookupFile (segmentPath i) w))"

lemma flushed_after_write:
  assumes "extends db w db2 w2" "dbOk db w" "dbOk db2 w2" "order db' = [nextID db2]" "nextID db2 < nextID db'"
    and empty: "lookupFile (segmentPath (nextID db2)) w' = Some []"
    and same: "\<And>i. i \<noteq> nextID db2 \<Longrightarrow>
      lookupFile (segmentPath i) w' = (if i \<in> set (order db2) then None else lookupFile (segmentPath i) w2)"
  shows "flushed db w db' w'"
proof -
  have le: "nextID db \<le> nextID db2"
    using assms(1) dbOk_shape [OF assms(3)] by (auto simp: extends_def shapeOk_def idsValid_def)
  have "lookupFile (segmentPath i) w' = (if i \<in> set (order db) then None else lookupFile (segmentPath i) w)" if i: "i < nextID db" for i
  proof -
    have ne: "i \<noteq> nextID db2" "i \<noteq> nextID db" "i \<in> set (order db2) \<longleftrightarrow> i \<in> set (order db)"
      using assms(1) i le by (auto simp: extends_def)
    moreover have "i \<notin> set (order db) \<Longrightarrow> i \<noteq> last (order db)" using dbOk_order(3) [OF assms(2)] by auto
    ultimately show ?thesis using same [of i] assms(1) by (simp add: extends_def)
  qed
  then show ?thesis using assms(4,5) empty le by (simp add: flushed_def)
qed

text \<open>Rollover, append and memtable insertion, for the record \<open>r\<close> being written.\<close>

lemma write_calm:
  assumes w: "calm w" "dbOk db w" and room: "unat (nextID db) + 1 < 2 ^ 32" and r: "logRecOk r"
  defines "isLive \<equiv> dbView db (Key r) \<noteq> None"
  defines "n \<equiv> (case Value r of None \<Rightarrow> (if isLive then liveKeys db - 1 else liveKeys db)
     | Some _ \<Rightarrow> (if isLive then liveKeys db else liveKeys db + 1))"
  obtains db1 w1 db2 w2 t where "maybeRollover db w = ((None, db1), w1)"
    and "appendActive db1 (encRec r) w1 = ((None, db2), w2)" and "sameMem db db2"
    and "isLiveKey db2 (Key r) = Inr isLive" and "Insert (memtable db2) (Key r) (Value r) = Inr t"
    and "calm w2" and "dbOk (db2\<lparr>liveKeys := n, memtable := t\<rparr>) w2"
    and "dbView (db2\<lparr>liveKeys := n, memtable := t\<rparr>) = (dbView db)(Key r := Value r)"
    and "storedEntries (db2\<lparr>liveKeys := n, memtable := t\<rparr>) \<le> storedEntries db + 1"
    and "unat (nextID db2) \<le> unat (nextID db) + 1"
    and "dbKeys (db2\<lparr>liveKeys := n, memtable := t\<rparr>) \<subseteq> insert (Key r) (dbKeys db)"
    and "durable db w \<and> (ssReaders db = [] \<or> \<not> rolls db) \<Longrightarrow> durable (db2\<lparr>liveKeys := n, memtable := t\<rparr>) w2"
    and "extends db w db2 w2"
proof -
  obtain db1 w1 where db1: "maybeRollover db w = ((None, db1), w1)" "calm w1" "dbOk db1 w1" "sameMem db db1"
    "unat (nextID db1) \<le> unat (nextID db) + 1" "\<not> rolls db \<Longrightarrow> db1 = db \<and> w1 = w"
    "logRecords db1 w1 = logRecords db w" "ssReaders db = [] \<Longrightarrow> synced db w \<Longrightarrow> synced db1 w1"
    "rolls db \<Longrightarrow> order db1 = order db @ [nextID db] \<and> nextID db1 = nextID db + 1"
    "\<And>i. i \<noteq> nextID db \<Longrightarrow> lookupFile (segmentPath i) w1 = lookupFile (segmentPath i) w"
    using maybeRollover_calm [OF w room] by blast
  let ?db2 = "appendedTo db1 w1 (length (encRec r))" and ?w2 = "appendFile (segmentPath (last (order db1))) (encRec r) w1"
  note app = appendActive_calm [OF db1(2,3), of "encRec r"]
  have same: "sameMem db ?db2" using db1(4) by (simp add: sameMem_def appendedTo_def)
  note v = sameMem_view [OF same]
  have mem: "memOk ?db2" using v dbOk_mem [OF w(2)] by simp
  have lk: "liveKeys ?db2 = liveKeys db" using same by (simp add: sameMem_def)
  have kv: "keyOk (Key r)" "valOk (Value r)" using r by (simp_all add: logRecOk_def)
  have n': "n = (case Value r of None \<Rightarrow> (if dbView ?db2 (Key r) \<noteq> None then liveKeys ?db2 - 1 else liveKeys ?db2)
     | Some _ \<Rightarrow> (if dbView ?db2 (Key r) \<noteq> None then liveKeys ?db2 else liveKeys ?db2 + 1))"
    unfolding n_def isLive_def lk v [THEN conjunct1] by simp
  obtain t where t: "Insert (memtable ?db2) (Key r) (Value r) = Inr t"
    "memOk (?db2\<lparr>liveKeys := n, memtable := t\<rparr>)"
    "dbView (?db2\<lparr>liveKeys := n, memtable := t\<rparr>) = (dbView ?db2)(Key r := Value r)"
    "map_of (Iterator t) = (map_of (Iterator (memtable ?db2)))(Key r \<mapsto> Value r)"
    by (rule memOk_insert [OF mem kv, folded n'])
  note ok = dbOk_logged [OF db1(3) r refl refl t(2)]
  have treeOk: "treeOk t" "treeOk (memtable db)" using memOkD(1) t(2) dbOk_mem [OF w(2)] by force+
  have "storedEntries (?db2\<lparr>liveKeys := n, memtable := t\<rparr>) \<le> storedEntries db + 1"
  proof -
    have "dom (map_of (Iterator t)) = insert (Key r) (dom (map_of (Iterator (memtable db))))"
      using t(4) same by (simp add: sameMem_def)
    moreover have "int (length (Iterator x)) = int (card (dom (map_of (Iterator x))))" if "treeOk x" for x :: memtable
      using art.len_card [OF that] art.len_iter [OF that] by simp
    ultimately have "length (Iterator t) \<le> length (Iterator (memtable db)) + 1"
      using treeOk by (simp add: finite_dom_map_of card_insert_if)
    then show ?thesis using same by (simp add: storedEntries_def tableEntries_def sameMem_def)
  qed
  moreover have "durable (?db2\<lparr>liveKeys := n, memtable := t\<rparr>) ?w2"
    if d: "durable db w \<and> (ssReaders db = [] \<or> \<not> rolls db)"
  proof -
    have "synced db1 w1" using d db1(6,8) by (auto simp: durable_def)
    then have "synced (?db2\<lparr>liveKeys := n, memtable := t\<rparr>) ?w2" by (simp add: synced_def currentSSTIDs_def appendedTo_def)
    moreover have "ssReaders ?db2 = ssReaders db" using same by (simp add: sameMem_def)
    ultimately show ?thesis using d ok(2) t(3) db1(7) v by (simp add: durable_def del: fun_upd_apply)
  qed
  moreover have "unat (nextID ?db2) \<le> unat (nextID db) + 1" using db1(5) by (simp add: appendedTo_def)
  moreover have "dbKeys (?db2\<lparr>liveKeys := n, memtable := t\<rparr>) \<subseteq> insert (Key r) (dbKeys db)"
    using t(4) same by (auto simp: dbKeys_split sameMem_def)
  moreover have "extends db w ?db2 ?w2"
    using db1(6,9,10) by (cases "rolls db") (auto simp: extends_def appendedTo_def)
  ultimately show thesis
    using that [OF db1(1) app same _ t(1) _ ok(1)] isLiveKey_view [OF mem] v t(3) db1(2) by (simp add: isLive_def)
qed

text \<open>The flush that ends a write when the memtable has grown to its limit.\<close>

lemma write_end_calm:
  assumes "calm w" "dbOk db w" "hasRoom 1 db0" "unat (nextID db) \<le> unat (nextID db0) + 1"
    and "ssNextID db = ssNextID db0" "storedEntries db \<le> storedEntries db0 + 1"
  shows "\<exists>db' w'. (if big then flushMemtable db w else ((None, db), w)) = ((None, db'), w') \<and> calm w' \<and>
    dbOk db' w' \<and> dbView db' = dbView db \<and> opts db' = opts db \<and> dbKeys db' = dbKeys db \<and> (durable db w \<longrightarrow> durable db' w') \<and>
    (\<forall>k. hasRoom (Suc k) db0 \<longrightarrow> hasRoom k db')"
proof (cases big)
  case True
  obtain db' w' where "flushMemtable db w = ((None, db'), w')" "calm w'" "dbOk db' w'" "dbView db' = dbView db"
    "opts db' = opts db" "storedEntries db' = storedEntries db" "dbKeys db' = dbKeys db" "durable db w \<longrightarrow> durable db' w'"
    "unat (nextID db') \<le> unat (nextID db) + 1" "unat (ssNextID db') \<le> unat (ssNextID db) + 1"
    using flushMemtable_calm [OF assms(1,2)] assms(3-6) by (auto simp: hasRoom_def storedEntries_def)
  then show ?thesis using True assms(4-6) by (auto simp: hasRoom_def)
next
  case False
  then show ?thesis using assms by (auto simp: hasRoom_def)
qed

lemma encode_ok:
  assumes "keyOk k" "valOk v"
  shows "Encode now k v = Inr (encRec \<lparr>Timestamp = now, Key = k, Value = v\<rparr>)"
  using assms EncodeAt_encRec [of "\<lparr>Timestamp = now, Key = k, Value = v\<rparr>"]
  by (simp add: Encode_def keyOk_def valOk_def maxPrefixLen_def rec_limits)

abbreviation orEmpty :: "bytes option \<Rightarrow> bytes" where
  "orEmpty v \<equiv> (case v of None \<Rightarrow> [] | Some x \<Rightarrow> x)"

text \<open>The last steps of a write, once the record is in the log.\<close>

lemma dbSet_path:
  assumes "keyOk k" "lenOpt v \<le> MaxValueSize" "maybeRollover db w = ((None, db1), w1)"
    and "appendActive db1 (encRec \<lparr>Timestamp = now, Key = k, Value = Some (orEmpty v)\<rparr>) w1 = ((None, db2), w2)"
    and "isLiveKey db2 k = Inr isLive" "Insert (memtable db2) k (Some (orEmpty v)) = Inr t"
    and n: "n = (if isLive then liveKeys db2 else liveKeys db2 + 1)" and s: "s = memSize db2 + int (length k + length (orEmpty v))"
  shows "dbSet now k v db w = (if s \<ge> MaxMemBytes (opts db2) then flushMemtable (db2\<lparr>liveKeys := n, memtable := t, memSize := s\<rparr>) w2
    else ((None, db2\<lparr>liveKeys := n, memtable := t, memSize := s\<rparr>), w2))"
proof -
  have "valOk (Some (orEmpty v))" using assms(2) by (auto simp: valOk_def lenOpt_def split: option.splits)
  from encode_ok [OF assms(1) this, of now] show ?thesis using assms(3-6) by (simp add: dbSet_def Let_def n s)
qed

lemma dbDelete_path:
  assumes "keyOk k" "maybeRollover db w = ((None, db1), w1)"
    and "appendActive db1 (encRec \<lparr>Timestamp = now, Key = k, Value = None\<rparr>) w1 = ((None, db2), w2)"
    and "isLiveKey db2 k = Inr isLive" "Insert (memtable db2) k None = Inr t"
    and n: "n = (if isLive then liveKeys db2 - 1 else liveKeys db2)" and s: "s = memSize db2 + int (length k + 1)"
  shows "dbDelete now k db w = (if s \<ge> MaxMemBytes (opts db2) then flushMemtable (db2\<lparr>liveKeys := n, memtable := t, memSize := s\<rparr>) w2
    else ((None, db2\<lparr>liveKeys := n, memtable := t, memSize := s\<rparr>), w2))"
proof -
  have "valOk None" by (simp add: valOk_def lenOpt_def)
  from encode_ok [OF assms(1) this, of now] show ?thesis using assms(2-5) by (simp add: dbDelete_def Let_def n s)
qed

text \<open>A write as a whole, for the operation \<open>f\<close> that logs \<open>r\<close> and ends as the two lemmas say.\<close>

lemma write_whole:
  assumes w: "calm w" "dbOk db w" "hasRoom 1 db" and r: "logRecOk r"
  defines "isLive \<equiv> dbView db (Key r) \<noteq> None"
  assumes path: "\<And>db1 w1 db2 w2 t n s. maybeRollover db w = ((None, db1), w1) \<Longrightarrow>
    appendActive db1 (encRec r) w1 = ((None, db2), w2) \<Longrightarrow> isLiveKey db2 (Key r) = Inr isLive \<Longrightarrow>
    Insert (memtable db2) (Key r) (Value r) = Inr t \<Longrightarrow>
    n = (case Value r of None \<Rightarrow> (if isLive then liveKeys db2 - 1 else liveKeys db2)
      | Some _ \<Rightarrow> (if isLive then liveKeys db2 else liveKeys db2 + 1)) \<Longrightarrow> s = memSize db2 + b \<Longrightarrow>
    f = (if s \<ge> MaxMemBytes (opts db2) then flushMemtable (db2\<lparr>liveKeys := n, memtable := t, memSize := s\<rparr>) w2
      else ((None, db2\<lparr>liveKeys := n, memtable := t, memSize := s\<rparr>), w2))"
  shows "\<exists>db' w'. f = ((None, db'), w') \<and> calm w' \<and> dbOk db' w' \<and>
    dbView db' = (dbView db)(Key r := Value r) \<and> opts db' = opts db \<and> (\<forall>n. hasRoom (Suc n) db \<longrightarrow> hasRoom n db') \<and>
    dbKeys db' \<subseteq> insert (Key r) (dbKeys db) \<and> (durable db w \<and> (ssReaders db = [] \<or> \<not> rolls db) \<longrightarrow> durable db' w') \<and>
    (memSize db + b < MaxMemBytes (opts db) \<longrightarrow> extends db w db' w' \<and> ssReaders db' = ssReaders db \<and> memSize db' = memSize db + b) \<and>
    (MaxMemBytes (opts db) \<le> memSize db + b \<longrightarrow> flushed db w db' w')"
proof -
  let ?n = "case Value r of None \<Rightarrow> (if dbView db (Key r) \<noteq> None then liveKeys db - 1 else liveKeys db)
    | Some _ \<Rightarrow> (if dbView db (Key r) \<noteq> None then liveKeys db else liveKeys db + 1)"
  have room: "unat (nextID db) + 1 < 2 ^ 32" using w(3) by (auto simp: hasRoom_def)
  obtain db1 w1 db2 w2 t where s: "maybeRollover db w = ((None, db1), w1)" "appendActive db1 (encRec r) w1 = ((None, db2), w2)" "sameMem db db2"
    "isLiveKey db2 (Key r) = Inr (dbView db (Key r) \<noteq> None)" "Insert (memtable db2) (Key r) (Value r) = Inr t" "calm w2"
    "dbOk (db2\<lparr>liveKeys := ?n, memtable := t\<rparr>) w2"
    "dbView (db2\<lparr>liveKeys := ?n, memtable := t\<rparr>) = (dbView db)(Key r := Value r)"
    "storedEntries (db2\<lparr>liveKeys := ?n, memtable := t\<rparr>) \<le> storedEntries db + 1" "unat (nextID db2) \<le> unat (nextID db) + 1"
    "dbKeys (db2\<lparr>liveKeys := ?n, memtable := t\<rparr>) \<subseteq> insert (Key r) (dbKeys db)"
    "durable db w \<and> (ssReaders db = [] \<or> \<not> rolls db) \<longrightarrow> durable (db2\<lparr>liveKeys := ?n, memtable := t\<rparr>) w2"
    "extends db w db2 w2"
    by (rule write_calm [OF w(1,2) room r]) (rule that, assumption+, blast, assumption)
  let ?s = "memSize db2 + b"
  let ?db4 = "db2\<lparr>liveKeys := ?n, memtable := t, memSize := ?s\<rparr>"
  have lk: "liveKeys db2 = liveKeys db" "ssNextID db2 = ssNextID db" "opts db2 = opts db" "ssReaders db2 = ssReaders db" "memSize db2 = memSize db"
    using s(3) by (simp_all add: sameMem_def)
  have f: "f = (if ?s \<ge> MaxMemBytes (opts db2) then flushMemtable ?db4 w2 else ((None, ?db4), w2))"
    by (rule path [OF s(1,2) s(4) [folded isLive_def] s(5)]) (simp only: isLive_def lk(1), rule refl)
  have stored: "storedEntries ?db4 \<le> storedEntries db + 1" using s(9) by (simp add: storedEntries_def tableEntries_def)
  have keys: "dbKeys ?db4 \<subseteq> insert (Key r) (dbKeys db)" using s(11) by (simp add: dbKeys_split)
  have ext: "extends db w ?db4 w2" using s(13) by (simp add: extends_def)
  obtain db' w' where e: "(if ?s \<ge> MaxMemBytes (opts db2) then flushMemtable ?db4 w2 else ((None, ?db4), w2)) = ((None, db'), w')"
    "calm w'" "dbOk db' w'" "dbView db' = dbView ?db4" "opts db' = opts ?db4" "dbKeys db' = dbKeys ?db4" "durable ?db4 w2 \<longrightarrow> durable db' w'"
    "\<forall>k. hasRoom (Suc k) db \<longrightarrow> hasRoom k db'"
    using write_end_calm [of w2 ?db4 db "?s \<ge> MaxMemBytes (opts db2)"] stored s(6,7,10) w(3) lk(2) by auto
  have "db' = ?db4 \<and> w' = w2" if "memSize db + b < MaxMemBytes (opts db)" using e(1) that lk by simp
  moreover have "flushed db w db' w'" if big: "MaxMemBytes (opts db) \<le> memSize db + b"
  proof -
    have ok4: "dbOk ?db4 w2" using s(7) dbOk_memSize(1) [of ?s "db2\<lparr>liveKeys := ?n, memtable := t\<rparr>"] by simp
    have "treeOk (memtable db2)" using memOkD(1) dbOk_mem [OF w(2)] s(3) by (simp add: sameMem_def)
    then have "map_of (Iterator t) (Key r) \<noteq> None" using art.ins_map [of "memtable db2" "Key r" "Value r"] s(5) r by (auto simp: logRecOk_def)
    then have ne: "Iterator (memtable ?db4) \<noteq> []" by auto
    have "length (Iterator (memtable ?db4)) \<le> 429496728" "unat (nextID ?db4) + 1 < 2 ^ 32" "unat (ssNextID ?db4) + 1 < 2 ^ 32"
      using stored s(10) w(3) lk(2) by (simp_all add: hasRoom_def storedEntries_def)
    then have fl: "order db' = [nextID ?db4]" "lookupFile (segmentPath (nextID ?db4)) w' = Some []"
      "\<And>i. i \<noteq> nextID ?db4 \<Longrightarrow> lookupFile (segmentPath i) w' = (if i \<in> set (order ?db4) then None else lookupFile (segmentPath i) w2)"
      using flushMemtable_calm [OF s(6) ok4] ne e(1) big lk by auto
    have "nextID ?db4 < nextID db'" using fl(1) dbOk_shape [OF e(3)] by (simp add: shapeOk_def idsValid_def)
    then show ?thesis using flushed_after_write [OF ext w(2) ok4 fl(1) _ fl(2,3)] by blast
  qed
  ultimately show ?thesis using f e s(8,12) keys ext lk by (auto simp del: fun_upd_apply)
qed

lemma dbSet_calm:
  assumes "calm w" "dbOk db w" "hasRoom 1 db" "keyOk k" "lenOpt v \<le> MaxValueSize"
  shows "\<exists>db' w'. dbSet now k v db w = ((None, db'), w') \<and> calm w' \<and> dbOk db' w' \<and>
    dbView db' = (dbView db)(k \<mapsto> orEmpty v) \<and> opts db' = opts db \<and> (\<forall>n. hasRoom (Suc n) db \<longrightarrow> hasRoom n db') \<and>
    dbKeys db' \<subseteq> insert k (dbKeys db) \<and> (durable db w \<and> (ssReaders db = [] \<or> \<not> rolls db) \<longrightarrow> durable db' w') \<and>
    (memSize db + int (length k + length (orEmpty v)) < MaxMemBytes (opts db) \<longrightarrow> extends db w db' w' \<and> ssReaders db' = ssReaders db \<and>
       memSize db' = memSize db + int (length k + length (orEmpty v))) \<and>
    (MaxMemBytes (opts db) \<le> memSize db + int (length k + length (orEmpty v)) \<longrightarrow> flushed db w db' w')"
proof -
  let ?r = "\<lparr>Timestamp = now, Key = k, Value = Some (orEmpty v)\<rparr> :: Record"
  have "valOk (Some (orEmpty v))" using assms(5) by (auto simp: valOk_def lenOpt_def split: option.splits)
  then have "logRecOk ?r" using assms(4) by (simp add: logRecOk_def)
  note whole = write_whole [OF assms(1-3) this, where f = "dbSet now k v db w" and b = "int (length k + length (orEmpty v))"]
  show ?thesis using whole dbSet_path [OF assms(4,5)] by (simp del: fun_upd_apply)
qed

lemma dbDelete_calm:
  assumes "calm w" "dbOk db w" "hasRoom 1 db" "keyOk k"
  shows "\<exists>db' w'. dbDelete now k db w = ((None, db'), w') \<and> calm w' \<and> dbOk db' w' \<and>
    dbView db' = (dbView db)(k := None) \<and> opts db' = opts db \<and> (\<forall>n. hasRoom (Suc n) db \<longrightarrow> hasRoom n db') \<and>
    dbKeys db' \<subseteq> insert k (dbKeys db) \<and> (durable db w \<and> (ssReaders db = [] \<or> \<not> rolls db) \<longrightarrow> durable db' w') \<and>
    (memSize db + int (length k + 1) < MaxMemBytes (opts db) \<longrightarrow> extends db w db' w' \<and> ssReaders db' = ssReaders db \<and>
       memSize db' = memSize db + int (length k + 1)) \<and>
    (MaxMemBytes (opts db) \<le> memSize db + int (length k + 1) \<longrightarrow> flushed db w db' w')"
proof -
  let ?r = "\<lparr>Timestamp = now, Key = k, Value = None\<rparr> :: Record"
  have "valOk None" by (simp add: valOk_def lenOpt_def)
  then have "logRecOk ?r" using assms(4) by (simp add: logRecOk_def)
  note whole = write_whole [OF assms(1-3) this, where f = "dbDelete now k db w" and b = "int (length k + 1)"]
  show ?thesis using whole dbDelete_path [OF assms(4)] by (simp del: fun_upd_apply)
qed

end
