(* ===== verification/Kora_Compact.thy ===== *)
theory Kora_Compact
  imports Kora_Store_Ops
begin

text \<open>
  Log compaction (\<open>internal/store/compaction.go\<close>) in its three phases, which is how it holds
  the lock: snapshot, merge without the lock, swap; and table compaction (\<open>CompactSSTables\<close>
  of \<open>sst_compact.go\<close>). Go does not specify the order in which \<open>range\<close> visits the map of
  latest records; it is the parameter \<open>ord\<close>, a permutation.
\<close>

section \<open>Log compaction\<close>

definition compactSnapshot :: "DB \<Rightarrow> (err + (u32 list \<times> u32) option) \<times> DB" where
  "compactSnapshot db =
     (case active db of
        None \<Rightarrow> (Inl Panic, db)
      | Some activeID \<Rightarrow>
          let snap = filter (\<lambda>i. i \<noteq> activeID) (order db)
          in if snap = [] then (Inr None, db)
             else (Inr (Some (snap, nextID db)), db\<lparr>nextID := nextID db + 1\<rparr>))"

type_synonym latestMap = "(bytes \<times> Record) list"

definition keepLatest :: "Record \<Rightarrow> nat \<Rightarrow> nat \<Rightarrow> latestMap \<Rightarrow> err + latestMap" where
  "keepLatest rec off sz latest = Inr (AList.update (Key rec) rec latest)"

fun readLatest :: "u32 list \<Rightarrow> latestMap \<Rightarrow> world \<Rightarrow> (err + latestMap) \<times> world" where
  "readLatest [] latest w = (Inr latest, w)"
| "readLatest (i # snap) latest w =
     (case scanSegment (segmentPath i) keepLatest latest w of
        ((latest', _, Some e), w1) \<Rightarrow> (Inl e, w1)
      | ((latest', _, None), w1) \<Rightarrow> readLatest snap latest' w1)"

definition compactTmpPath :: "u32 \<Rightarrow> path" where
  "compactTmpPath newID = Top (segmentName newID @ str ''.compacting'')"

text \<open>An error exit: close and remove the temporary file.\<close>

definition dropTmp :: "path \<Rightarrow> err \<Rightarrow> world \<Rightarrow> err option \<times> world" where
  "dropTmp tmp e w = (Some e, quietly (osRemove tmp) (quietly (fclose tmp) w))"

fun writeLatest :: "path \<Rightarrow> Record list \<Rightarrow> world \<Rightarrow> err option \<times> world" where
  "writeLatest tmp [] w = (None, w)"
| "writeLatest tmp (rec # rs) w =
     (if IsTombstone rec then writeLatest tmp rs w
      else case EncodeAt (Timestamp rec) (Key rec) (Value rec) of
             Inl e \<Rightarrow> dropTmp tmp e w
           | Inr buf \<Rightarrow>
               (case fwrite tmp buf w of
                  ((_, Some e), w1) \<Rightarrow> dropTmp tmp e w1
                | ((_, None), w1) \<Rightarrow> writeLatest tmp rs w1))"

text \<open>Step 3 of \<open>Compact\<close>: write the live records to a temporary file and give it its name.\<close>

definition compactWrite ::
  "(Record list \<Rightarrow> Record list) \<Rightarrow> latestMap \<Rightarrow> u32 \<Rightarrow> world \<Rightarrow> err option \<times> world" where
  "compactWrite ord latest newID w =
     (let tmp = compactTmpPath newID in
      case openTrunc tmp w of
        (Inl e, w2) \<Rightarrow> (Some e, w2)
      | (Inr _, w2) \<Rightarrow>
      case writeLatest tmp (ord (map snd latest)) w2 of
        (Some e, w3) \<Rightarrow> (Some e, w3)
      | (None, w3) \<Rightarrow>
      case fsync tmp w3 of
        (Inl e, w4) \<Rightarrow> dropTmp tmp e w4
      | (Inr _, w4) \<Rightarrow>
      case fclose tmp w4 of
        (Inl e, w5) \<Rightarrow> (Some e, quietly (osRemove tmp) w5)
      | (Inr _, w5) \<Rightarrow>
      case osRename tmp (segmentPath newID) w5 of
        (Inl e, w6) \<Rightarrow> (Some e, quietly (osRemove tmp) w6)
      | (Inr _, w6) \<Rightarrow> (None, w6))"

definition compactMerge ::
  "(Record list \<Rightarrow> Record list) \<Rightarrow> u32 list \<Rightarrow> u32 \<Rightarrow> world \<Rightarrow> err option \<times> world" where
  "compactMerge ord snap newID w =
     (case readLatest snap [] w of
        (Inl e, w1) \<Rightarrow> (Some e, w1)
      | (Inr latest, w1) \<Rightarrow> compactWrite ord latest newID w1)"

text \<open>The loop that retires the snapshot: close, forget and remove each segment.\<close>

fun retireSnap :: "u32 list \<Rightarrow> (u32 \<times> segment) list \<Rightarrow> world \<Rightarrow> (u32 \<times> segment) list \<times> world" where
  "retireSnap [] segs w = (segs, w)"
| "retireSnap (i # snap) segs w =
     (case map_of segs i of
        None \<Rightarrow> retireSnap snap segs (quietly (osRemove (segmentPath i)) w)
      | Some seg \<Rightarrow>
          retireSnap snap (AList.delete i segs)
            (quietly (osRemove (segmentPath i)) (quietly (segClose seg) w)))"

text \<open>
  The swap. On a closed store, which has no active segment, \<open>segments\<close> is a nil map and the
  assignment to it panics, after the manifest has been written.
\<close>

definition compactSwap :: "u32 list \<Rightarrow> u32 \<Rightarrow> DB \<Rightarrow> world \<Rightarrow> dbResult" where
  "compactSwap snap newID db w =
     (case openSegmentReadOnly newID w of
        (Inl e, w1) \<Rightarrow> ((Some e, db), quietly (osRemove (segmentPath newID)) w1)
      | (Inr merged, w1) \<Rightarrow>
      let newOrder = newID # filter (\<lambda>i. i \<notin> set snap) (order db);
          db1 = db\<lparr>order := newOrder\<rparr> in
      case writeManifestLocked db1 w1 of
        (Some e, w2) \<Rightarrow>
          ((Some e, db1\<lparr>order := order db\<rparr>),
           quietly (osRemove (segmentPath newID)) (quietly (segClose merged) w2))
      | (None, w2) \<Rightarrow>
      if active db1 = None then ((Some Panic, db1), w2) else
      let segs = AList.update newID merged (segments db1) in
      case retireSnap snap segs w2 of
        (segs', w3) \<Rightarrow> ((None, db1\<lparr>segments := segs'\<rparr>), w3))"

definition Compact :: "(Record list \<Rightarrow> Record list) \<Rightarrow> DB \<Rightarrow> world \<Rightarrow> dbResult" where
  "Compact ord db w =
     (case compactSnapshot db of
        (Inl e, db1) \<Rightarrow> ((Some e, db1), w)
      | (Inr None, db1) \<Rightarrow> ((None, db1), w)
      | (Inr (Some (snap, newID)), db1) \<Rightarrow>
          (case compactMerge ord snap newID w of
             (Some e, w1) \<Rightarrow> ((Some e, db1), w1)
           | (None, w1) \<Rightarrow> compactSwap snap newID db1 w1))"

section \<open>Table compaction\<close>

definition retireTables :: "Reader list \<Rightarrow> world \<Rightarrow> world" where
  "retireTables rs w = fold (\<lambda>r w. quietly (osRemove (Path r)) (quietly (fclose (Path r)) w)) rs w"

definition CompactSSTables :: "DB \<Rightarrow> world \<Rightarrow> dbResult" where
  "CompactSSTables db w =
     (if length (ssReaders db) < 2 then ((None, db), w)
      else
        let newID = ssNextID db;
            db1 = db\<lparr>ssNextID := ssNextID db + 1\<rparr>;
            newPath = sstFilePath newID
        in
        case kWayMergeSSTables (ssReaders db1) newPath w of
          (Some e, w1) \<Rightarrow> ((Some e, db1), quietly (osRemove newPath) w1)
        | (None, w1) \<Rightarrow>
        case sstOpen newPath w1 of
          (Inl e, w2) \<Rightarrow> ((Some e, db1), quietly (osRemove newPath) w2)
        | (Inr newReader, w2) \<Rightarrow>
        case writeManifest \<lparr>mNextID = nextID db1, mOrder = order db1,
                            mNextSSTID = ssNextID db1, mSstIDs = [newID]\<rparr> w2 of
          (Some e, w3) \<Rightarrow> ((Some e, db1), quietly (osRemove newPath) (quietly (fclose newPath) w3))
        | (None, w3) \<Rightarrow> ((None, db1\<lparr>ssReaders := [newReader]\<rparr>), retireTables (ssReaders db1) w3))"

section \<open>Merging records\<close>

lemma replayLog_append: "replayLog (xs @ ys) = replayLog xs ++ replayLog ys"
proof (induction ys rule: rev_induct)
  case (snoc y ys)
  have "replayLog (xs @ ys @ [y]) = (replayLog (xs @ ys))(Key y \<mapsto> Value y)"
    using replayLog_snoc [of "xs @ ys" y] by simp
  then show ?case using snoc by (simp del: fun_upd_apply)
qed simp

definition latestOf :: "Record list \<Rightarrow> latestMap" where
  "latestOf rs = fold (\<lambda>r l. AList.update (Key r) r l) rs []"

lemma latestOf_spec:
  "distinct (map fst (latestOf rs)) \<and> (\<forall>x \<in> set (latestOf rs). Key (snd x) = fst x \<and> snd x \<in> set rs) \<and>
     (\<forall>k. map_option Value (map_of (latestOf rs) k) = replayLog rs k)"
proof (induction rs rule: rev_induct)
  case (snoc r rs)
  have eq: "latestOf (rs @ [r]) = AList.update (Key r) r (latestOf rs)" by (simp add: latestOf_def)
  have mem: "x \<in> set (AList.update k v l) \<Longrightarrow> x = (k, v) \<or> x \<in> set l" for x k and v :: Record and l :: latestMap
    by (induction l) (auto split: if_splits)
  have "Key (snd x) = fst x \<and> snd x \<in> set (rs @ [r])" if "x \<in> set (AList.update (Key r) r (latestOf rs))" for x
    using mem [OF that] snoc by auto
  then show ?case using snoc unfolding eq by (auto simp: distinct_update update_conv')
qed (simp add: latestOf_def)

lemma latestOf_keys: "map Key (map snd (latestOf rs)) = map fst (latestOf rs)"
  using latestOf_spec [of rs] by auto

lemma replayLog_distinct:
  "distinct (map Key rs) \<Longrightarrow> replayLog rs k = Some v \<longleftrightarrow> (\<exists>r \<in> set rs. Key r = k \<and> Value r = v)"
proof (induction rs arbitrary: v rule: rev_induct)
  case (snoc r rs)
  then show ?case by (auto simp: image_iff)
qed simp

text \<open>What the merged segment replays to: the live entries of what the snapshot replays to.\<close>

definition mergedRecords :: "(Record list \<Rightarrow> Record list) \<Rightarrow> Record list \<Rightarrow> Record list" where
  "mergedRecords ord rs = filter (\<lambda>r. \<not> IsTombstone r) (ord (map snd (latestOf rs)))"

lemma mergedRecords_replay:
  assumes "\<And>xs. mset (ord xs) = mset xs"
  shows "Option.bind (replayLog (mergedRecords ord rs) k) id = Option.bind (replayLog rs k) id"
proof -
  note sp = latestOf_spec [of rs]
  let ?l = "map snd (latestOf rs)"
  have st: "set (ord ?l) = set ?l" using assms by (metis set_mset_mset)
  have "distinct (map Key ?l)" using sp unfolding latestOf_keys by blast
  then have "distinct (map Key (ord ?l))" using assms by (metis mset_eq_imp_distinct_iff mset_map)
  then have "distinct (map Key (mergedRecords ord rs))" by (simp add: mergedRecords_def distinct_map_filter)
  note rd = replayLog_distinct [OF this]
  have rep: "replayLog rs k = Some v \<longleftrightarrow> (\<exists>r \<in> set ?l. Key r = k \<and> Value r = v)" for v
  proof -
    have "replayLog rs k = Some v \<longleftrightarrow> (\<exists>r. map_of (latestOf rs) k = Some r \<and> Value r = v)"
      using sp by (metis map_option_eq_Some)
    also have "\<dots> \<longleftrightarrow> (\<exists>r. (k, r) \<in> set (latestOf rs) \<and> Value r = v)"
      using sp by (simp add: map_of_eq_Some_iff)
    finally show ?thesis using sp by force
  qed
  have "replayLog (mergedRecords ord rs) k = Some v \<longleftrightarrow> replayLog rs k = Some v \<and> v \<noteq> None" for v
    unfolding rd rep using st by (auto simp: mergedRecords_def IsTombstone_def)
  then have "Option.bind (replayLog (mergedRecords ord rs) k) id = Some y \<longleftrightarrow> Option.bind (replayLog rs k) id = Some y" for y
    by (simp add: bind_eq_Some_conv)
  then show ?thesis by (rule option_eqI)
qed

section \<open>The phases when nothing fails\<close>

lemma compactTmp_paths [simp]:
  "compactTmpPath i \<noteq> segmentPath j" "compactTmpPath i \<noteq> sstFilePath j"
  "compactTmpPath i \<noteq> Top manifestName" "compactTmpPath i \<noteq> Top manifestTmpName"
proof -
  have "parseSegmentName (segmentName i @ str ''.compacting'') = None"
    by (simp add: parseSegmentName_def hasSuffix_def dataExt_def)
  then show "compactTmpPath i \<noteq> segmentPath j" unfolding compactTmpPath_def by (rule not_segment_name)
  have "segmentName i @ str ''.compacting'' \<noteq> n" if "last n \<noteq> 103" for n
    using that by auto
  then show "compactTmpPath i \<noteq> Top manifestName" "compactTmpPath i \<noteq> Top manifestTmpName"
    unfolding compactTmpPath_def by (simp_all add: manifestName_def manifestTmpName_def)
  show "compactTmpPath i \<noteq> sstFilePath j" by (simp add: compactTmpPath_def)
qed

lemmas compactTmp_paths' [simp] = compactTmp_paths [symmetric]

lemma dirExists_compactTmp [simp]: "dirExists (compactTmpPath i) w"
  by (simp add: compactTmpPath_def)

lemma readLatest_calm:
  "calm w \<Longrightarrow> list_all (segOk w segs) snap \<Longrightarrow>
     readLatest snap (latestOf rs) w = (Inr (latestOf (rs @ concat (map (recordsAt w) snap))), w)"
proof (induction snap arbitrary: rs)
  case (Cons i snap)
  let ?rs = "recordsAt w i"
  have i: "lookupFile (segmentPath i) w = Some (logOf ?rs)" "list_all recOk ?rs"
    using Cons.prems(2) recOk_of_logRecOk by (auto simp: segOk_def)
  have "scanLoop keepLatest (logOf ?rs) 0 (latestOf rs) = (latestOf (rs @ ?rs), length (logOf ?rs), None)"
    using scanLoop_clean [OF i(2), of keepLatest "\<lambda>r l. AList.update (Key r) r l"]
    by (simp add: keepLatest_def latestOf_def)
  then have "scanSegment (segmentPath i) keepLatest (latestOf rs) w = ((latestOf (rs @ ?rs), length (logOf ?rs), None), w)"
    using Cons.prems(1) i(1) by (simp add: scanSegment_def)
  then show ?case using Cons by simp
qed simp

lemma writeLatest_calm:
  assumes "calm w" "dirExists p w" "list_all recOk rs"
  shows "writeLatest p rs (putFile p c w) = (None, putFile p (c @ logOf (filter (\<lambda>r. \<not> IsTombstone r) rs)) w)"
  using assms(3)
proof (induction rs arbitrary: c)
  case (Cons r rs)
  have "EncodeAt (Timestamp r) (Key r) (Value r) = Inr (encRec r)"
    using Cons.prems EncodeAt_encRec [of r] by (simp add: recOk_def)
  then show ?case using Cons assms(1,2) by simp
qed simp

lemma latestOf_records: "x \<in> set (map snd (latestOf rs)) \<Longrightarrow> x \<in> set rs"
  using latestOf_spec [of rs] by auto

lemma compactWrite_calm:
  assumes "calm w" "list_all logRecOk S" "\<And>xs. mset (ord xs) = mset xs"
  defines "rs \<equiv> mergedRecords ord S"
  shows "\<exists>w'. compactWrite ord (latestOf S) n w = (None, w') \<and> calm w' \<and> list_all logRecOk rs \<and>
    lookupFile (segmentPath n) w' = Some (logOf rs) \<and>
    (\<forall>p. p \<noteq> segmentPath n \<and> p \<noteq> compactTmpPath n \<longrightarrow> lookupFile p w' = lookupFile p w)"
proof -
  let ?tmp = "compactTmpPath n"
  have "set (ord (map snd (latestOf S))) = set (map snd (latestOf S))" using assms(3) by (metis set_mset_mset)
  then have ok: "list_all logRecOk (ord (map snd (latestOf S)))"
    using assms(2) latestOf_records unfolding list_all_iff by blast
  have wr: "writeLatest ?tmp (ord (map snd (latestOf S))) (putFile ?tmp [] w) = (None, putFile ?tmp (logOf rs) w)"
    using writeLatest_calm [OF assms(1) _ recOk_of_logRecOk [OF ok], of ?tmp "[]"] by (simp add: rs_def mergedRecords_def)
  let ?w' = "putFile (segmentPath n) (logOf rs) (delFile ?tmp (putFile ?tmp (logOf rs) w))"
  have "compactWrite ord (latestOf S) n w = (None, ?w')" using wr assms(1) by (simp add: compactWrite_def Let_def)
  moreover have "list_all logRecOk rs" using ok by (auto simp: rs_def mergedRecords_def list_all_iff)
  ultimately show ?thesis using assms(1) by auto
qed

lemma compactMerge_calm:
  assumes "calm w" "list_all (segOk w segs) snap" "\<And>xs. mset (ord xs) = mset xs"
  defines "rs \<equiv> mergedRecords ord (concat (map (recordsAt w) snap))"
  shows "\<exists>w'. compactMerge ord snap n w = (None, w') \<and> calm w' \<and> list_all logRecOk rs \<and>
    lookupFile (segmentPath n) w' = Some (logOf rs) \<and>
    (\<forall>p. p \<noteq> segmentPath n \<and> p \<noteq> compactTmpPath n \<longrightarrow> lookupFile p w' = lookupFile p w)"
proof -
  let ?S = "concat (map (recordsAt w) snap)"
  have "list_all logRecOk ?S" using assms(2) by (auto simp: list_all_iff segOk_def)
  moreover have "readLatest snap [] w = (Inr (latestOf ?S), w)"
    using readLatest_calm [OF assms(1,2), of "[]"] by (simp add: latestOf_def)
  ultimately show ?thesis using compactWrite_calm [OF assms(1) _ assms(3), of ?S n] by (simp add: compactMerge_def rs_def)
qed

lemma retireSnap_calm:
  assumes "retireSnap snap segs w = (segs', w')" "calm w" "distinct (map fst segs)"
  shows "calm w' \<and> distinct (map fst segs') \<and> (\<forall>i. map_of segs' i = (if i \<in> set snap then None else map_of segs i)) \<and>
    (\<forall>p. lookupFile p w' = (if p \<in> segmentPath ` set snap then None else lookupFile p w))"
  using assms
proof (induction snap segs w rule: retireSnap.induct)
  case (2 i snap segs w)
  let ?w = "quietly (osRemove (segmentPath i)) w" and ?s = "AList.delete i segs"
  have w: "calm ?w" "\<And>p. lookupFile p ?w = (if p = segmentPath i then None else lookupFile p w)"
    using "2.prems"(2) by auto
  have st: "retireSnap snap ?s ?w = (segs', w')"
  proof (cases "map_of segs i")
    case None
    then have "?s = segs" by (simp add: delete_id map_of_eq_None_iff)
    then show ?thesis using "2.prems"(1) None by simp
  next
    case (Some x)
    then show ?thesis using "2.prems"(1,2) by simp
  qed
  have d: "distinct (map fst ?s)" using "2.prems"(3) by (rule distinct_delete)
  have "map_of segs i = None \<Longrightarrow> ?s = segs" by (simp add: delete_id map_of_eq_None_iff)
  then have IH: "calm w' \<and> distinct (map fst segs') \<and> (\<forall>j. map_of segs' j = (if j \<in> set snap then None else map_of ?s j)) \<and>
    (\<forall>p. lookupFile p w' = (if p \<in> segmentPath ` set snap then None else lookupFile p ?w))"
    using "2.IH" st w(1) d "2.prems"(2) by (cases "map_of segs i") auto
  then show ?case unfolding w(2) by (auto simp: delete_conv')
qed simp

end
