(* ===== verification/Kora_Compact_Correct.thy ===== *)
theory Kora_Compact_Correct
  imports Kora_Compact
begin

text \<open>
  Both compactions when nothing fails: they keep the invariant and never change the view of
  the open database. Table compaction also keeps durability; log compaction keeps it only
  while there are no tables, since it drops tombstones that may still hide table entries.
\<close>

section \<open>Log compaction\<close>

lemma filter_single: "distinct xs \<Longrightarrow> a \<in> set xs \<Longrightarrow> filter (\<lambda>i. i = a) xs = [a]"
  by (induction xs) (auto simp: filter_empty_conv)

lemma filter_not_last:
  assumes "xs \<noteq> []" "distinct xs"
  shows "filter (\<lambda>i. i \<noteq> last xs) xs = butlast xs"
proof -
  obtain ys y where xs: "xs = ys @ [y]" using assms(1) by (cases xs rule: rev_cases) auto
  then have "filter (\<lambda>i. i \<noteq> y) ys = ys" using assms(2) by (auto simp: filter_id_conv)
  then show ?thesis by (simp add: xs)
qed

lemma set_last_butlast:
  assumes "xs \<noteq> []" "distinct xs"
  shows "set xs = insert (last xs) (set (butlast xs))" "last xs \<notin> set (butlast xs)"
proof -
  obtain ys y where "xs = ys @ [y]" using assms(1) by (cases xs rule: rev_cases) auto
  then show "set xs = insert (last xs) (set (butlast xs))" "last xs \<notin> set (butlast xs)" using assms(2) by auto
qed

lemma openSegmentReadOnly_calm:
  "calm w \<Longrightarrow> lookupFile (segmentPath i) w = Some c \<Longrightarrow>
     openSegmentReadOnly i w = (Inr \<lparr>sid = i, ssize = length c\<rparr>, w)"
  by (simp add: openSegmentReadOnly_def fstat_def)

lemma last_filter: "xs \<noteq> [] \<Longrightarrow> P (last xs) \<Longrightarrow> filter P xs \<noteq> [] \<and> last (filter P xs) = last xs"
  by (cases xs rule: rev_cases) auto

text \<open>
  The database and the directory after the swap. The snapshot was taken earlier: the segments
  of \<open>order\<close> that are not in it stay, in their order, behind the merged one.
\<close>

lemma dbOk_swapped:
  assumes ok: "dbOk db w" and n: "n < nextID db" "n \<notin> set (order db)" "n \<notin> set snap" and rs: "list_all logRecOk rs"
    and lst: "last (order db) \<notin> set snap"
    and db': "db' = db\<lparr>order := n # filter (\<lambda>i. i \<notin> set snap) (order db), segments := segs\<rparr>"
    and segs: "distinct (map fst segs)"
      "\<And>i. map_of segs i = (if i \<in> set snap then None
         else if i = n then Some \<lparr>sid = n, ssize = length (logOf rs)\<rparr> else map_of (segments db) i)"
    and new: "lookupFile (segmentPath n) w' = Some (logOf rs)"
    and old: "\<And>i. i \<noteq> n \<Longrightarrow> lookupFile (segmentPath i) w' = (if i \<in> set snap then None else lookupFile (segmentPath i) w)"
      "\<And>i. lookupFile (sstFilePath i) w' = lookupFile (sstFilePath i) w"
  shows "dbOk db' w'" and "logRecords db' w' = rs @ concat (map (recordsAt w) (filter (\<lambda>i. i \<notin> set snap) (order db)))"
proof -
  let ?rest = "filter (\<lambda>i. i \<notin> set snap) (order db)"
  note ord = dbOk_order [OF ok]
  have sh: "shapeOk db" using ok by (simp add: dbOk_def)
  have kept: "lookupFile (segmentPath i) w' = lookupFile (segmentPath i) w" if "i \<in> set ?rest" for i
    using that n(2) old(1) [of i] by auto
  have rn: "recordsAt w' n = rs" by (rule recordsAt_log [OF new rs])
  have "map (recordsAt w') ?rest = map (recordsAt w) ?rest" by (intro map_cong refl recordsAt_cong kept)
  then have "concat (map (recordsAt w') ?rest) = concat (map (recordsAt w) ?rest)" by (rule arg_cong)
  then show "logRecords db' w' = rs @ concat (map (recordsAt w) ?rest)" by (simp add: logRecords_def db' rn)
  have "segOk w' segs n" using segOkI [OF new rs] segs(2) n(3) by simp
  moreover have "segOk w' segs i" if i: "i \<in> set ?rest" for i
  proof -
    have "i \<noteq> n" "i \<notin> set snap" "i \<in> set (order db)" using i n(2) by auto
    then show ?thesis using dbOk_seg [OF ok] segOk_cong [OF kept [OF i], of segs "segments db"] segs(2) by simp
  qed
  moreover have "shapeOk db'"
  proof -
    have "set (map fst segs) = dom (map_of segs)" by (simp add: dom_map_of_conv_image_fst)
    also have "\<dots> = insert n (dom (map_of (segments db)) - set snap)" using segs(2) n(3) by (auto simp: domIff split: if_splits)
    also have "dom (map_of (segments db)) = set (order db)" using sh by (simp add: shapeOk_def dom_map_of_conv_image_fst)
    finally have "set (map fst segs) = set (n # ?rest)" by auto
    moreover have "idsValid (nextID db) (n # ?rest)" using sh n(1,2) by (auto simp: shapeOk_def idsValid_def)
    moreover have "last (n # ?rest) = last (order db)" using last_filter [OF ord(1), of "\<lambda>i. i \<notin> set snap"] lst by simp
    ultimately show ?thesis using sh segs(1) by (simp add: shapeOk_def db' currentSSTIDs_def del: last.simps)
  qed
  moreover have "list_all (tableAt w') (ssReaders db')"
    using ok tableAt_cong [OF old(2)] by (simp add: dbOk_def db' list_all_iff)
  moreover have "i < nextID db'" if "lookupFile (segmentPath i) w' \<noteq> None" for i
    using that old(1) [of i] ok n(1) by (cases "i = n") (auto simp: dbOk_def db' split: if_splits)
  moreover have "memOk db'" using ok by (simp add: dbOk_def memOk_def db' dbView_lsm)
  ultimately show "dbOk db' w'" by (auto simp: dbOk_def db' list_all_iff)
qed

lemma overlay_no_tables: "overlay m [] k = Option.bind (m k) id"
  by (simp add: overlay_def split: option.splits)

lemma merged_overlay:
  assumes "\<And>xs. mset (ord xs) = mset xs"
  shows "overlay (replayLog (mergedRecords ord S @ X)) [] = overlay (replayLog (S @ X)) []"
proof
  show "overlay (replayLog (mergedRecords ord S @ X)) [] k = overlay (replayLog (S @ X)) [] k" for k
    using mergedRecords_replay [OF assms, of S k] unfolding overlay_no_tables replayLog_append
    by (simp add: map_add_def split: option.splits)
qed

lemma compactSwap_calm:
  assumes w: "calm w" "dbOk db w" and n: "n < nextID db" "n \<notin> set (order db)" "n \<notin> set snap"
    and rs: "lookupFile (segmentPath n) w = Some (logOf rs)" "list_all logRecOk rs" and lst: "last (order db) \<notin> set snap"
  shows "\<exists>db' w'. compactSwap snap n db w = ((None, db'), w') \<and> calm w' \<and> dbOk db' w' \<and> sameMem db db' \<and>
    nextID db' = nextID db \<and> order db' = n # filter (\<lambda>i. i \<notin> set snap) (order db) \<and> synced db' w' \<and>
    logRecords db' w' = rs @ concat (map (recordsAt w) (filter (\<lambda>i. i \<notin> set snap) (order db)))"
proof -
  let ?no = "n # filter (\<lambda>i. i \<notin> set snap) (order db)"
  let ?m = "\<lparr>mNextID = nextID db, mOrder = ?no, mNextSSTID = ssNextID db, mSstIDs = currentSSTIDs db\<rparr>"
  obtain w2 where w2: "writeManifest ?m w = (None, w2)" "calm w2" "lookupFile (Top manifestName) w2 = Some (manifestBytes ?m)"
    "\<And>p. p \<noteq> Top manifestName \<Longrightarrow> p \<noteq> Top manifestTmpName \<Longrightarrow> lookupFile p w2 = lookupFile p w"
    using writeManifest_calm [of w ?m] w(1) by auto
  let ?segs = "AList.update n \<lparr>sid = n, ssize = length (logOf rs)\<rparr> (segments db)"
  obtain segs w3 where rt: "retireSnap snap ?segs w2 = (segs, w3)" by fastforce
  have sh: "shapeOk db" using w(2) by (simp add: dbOk_def)
  then have "distinct (map fst ?segs)" by (auto simp: shapeOk_def distinct_update)
  note r3 = retireSnap_calm [OF rt w2(2) this]
  define db' where "db' = db\<lparr>order := ?no, segments := segs\<rparr>"
  have step: "compactSwap snap n db w = ((None, db'), w3)"
    using openSegmentReadOnly_calm [OF w(1) rs(1)] w2(1) rt dbOk_order(5) [OF w(2)]
    by (simp add: compactSwap_def writeManifestLocked_def currentSSTIDs_def Let_def db'_def)
  have files: "lookupFile (segmentPath n) w3 = Some (logOf rs)"
    "\<And>i. i \<noteq> n \<Longrightarrow> lookupFile (segmentPath i) w3 = (if i \<in> set snap then None else lookupFile (segmentPath i) w)"
    "\<And>i. lookupFile (sstFilePath i) w3 = lookupFile (sstFilePath i) w"
    using r3 w2(4) rs(1) n(3) by (auto simp: image_iff)
  have sg: "map_of segs i = (if i \<in> set snap then None else if i = n then Some \<lparr>sid = n, ssize = length (logOf rs)\<rparr>
      else map_of (segments db) i)" for i
    using r3 by (simp add: update_conv')
  note sw = dbOk_swapped [OF w(2) n rs(2) lst db'_def _ sg files]
  have ok': "dbOk db' w3" using sw(1) r3 by simp
  have "synced db' w3"
    using r3 w2(3) dbOk_shape [OF ok'] sh
    by (intro syncedI [of _ ?m]) (auto simp: manifestValid_def shapeOk_def db'_def currentSSTIDs_def)
  then show ?thesis using step ok' r3 sw(2) by (auto simp: sameMem_def db'_def)
qed

text \<open>
  Snapshot and merge: the id taken is fresh, the file appears under it, nothing else changes.
\<close>

lemma merged_ready:
  assumes w: "calm w" "dbOk db w" and room: "unat (nextID db) + 1 < 2 ^ 32" and ord: "\<And>xs. mset (ord xs) = mset xs"
    and two: "butlast (order db) \<noteq> []"
  defines "rs \<equiv> mergedRecords ord (concat (map (recordsAt w) (butlast (order db))))" and "db1 \<equiv> db\<lparr>nextID := nextID db + 1\<rparr>"
  shows "\<exists>w1. compactSnapshot db = (Inr (Some (butlast (order db), nextID db)), db1) \<and>
    compactMerge ord (butlast (order db)) (nextID db) w = (None, w1) \<and> calm w1 \<and> dbOk db1 w1 \<and> (durable db w \<longrightarrow> durable db1 w1) \<and>
    nextID db < nextID db1 \<and> list_all logRecOk rs \<and> lookupFile (segmentPath (nextID db)) w1 = Some (logOf rs) \<and>
    (\<forall>p. p \<noteq> segmentPath (nextID db) \<and> p \<noteq> compactTmpPath (nextID db) \<longrightarrow> lookupFile p w1 = lookupFile p w)"
proof -
  let ?n = "nextID db" and ?snap = "butlast (order db)"
  note o = dbOk_order [OF w(2)]
  have lt: "?n < ?n + 1" by (rule u32_less_Suc [OF room])
  have so: "list_all (segOk w (segments db)) ?snap" using w(2) in_set_butlastD by (fastforce simp: dbOk_def list_all_iff)
  obtain w1 where w1: "compactMerge ord ?snap ?n w = (None, w1)" "calm w1" "list_all logRecOk rs"
    "lookupFile (segmentPath ?n) w1 = Some (logOf rs)"
    "\<And>p. p \<noteq> segmentPath ?n \<Longrightarrow> p \<noteq> compactTmpPath ?n \<Longrightarrow> lookupFile p w1 = lookupFile p w"
    using compactMerge_calm [OF w(1) so ord] unfolding rs_def by blast
  have seg: "lookupFile (segmentPath i) w1 = lookupFile (segmentPath i) w" if "i \<noteq> ?n" for i using w1(5) that by simp
  have sego: "lookupFile (segmentPath i) w1 = lookupFile (segmentPath i) w" if "i \<in> set (order db)" for i using seg o(4) that by metis
  have "compactSnapshot db = (Inr (Some (?snap, ?n)), db1)"
    using o(5) filter_not_last [OF o(1,2)] two by (simp add: compactSnapshot_def Let_def db1_def)
  moreover have "dbOk db1 w1"
  proof -
    have "shapeOk db1" using dbOk_shape [OF w(2)] lt by (auto simp: shapeOk_def db1_def currentSSTIDs_def idsValid_def intro: less_trans)
    moreover have "i < ?n + 1" if "lookupFile (segmentPath i) w1 \<noteq> None" for i
      using that seg [of i] w(2) lt by (cases "i = ?n") (auto simp: dbOk_def intro: less_trans)
    moreover have "tableAt w1 r = tableAt w r" for r by (rule tableAt_cong) (simp add: w1(5))
    ultimately show ?thesis
      using w(2) segOk_cong [OF sego refl] by (simp add: dbOk_def db1_def memOk_def dbView_lsm list_all_iff)
  qed
  moreover have "durable db1 w1" if "durable db w"
  proof -
    have "logRecords db1 w1 = logRecords db w" using recordsAt_cong [OF sego] by (simp add: logRecords_def db1_def cong: map_cong)
    then show ?thesis using that w1(5) [of "Top manifestName"] by (simp add: durable_def synced_def db1_def currentSSTIDs_def dbView_lsm)
  qed
  ultimately show ?thesis using w1 lt by (auto simp: db1_def)
qed

lemma rest_of_butlast:
  assumes "xs \<noteq> []" "distinct xs"
  shows "filter (\<lambda>i. i \<notin> set (butlast xs)) xs = [last xs]"
proof -
  have "filter (\<lambda>i. i \<notin> set (butlast xs)) xs = filter (\<lambda>i. i = last xs) xs"
    using set_last_butlast [OF assms] by (intro filter_cong refl) blast
  then show ?thesis using filter_single [OF assms(2)] assms(1) by simp
qed

lemma Compact_calm:
  assumes w: "calm w" "dbOk db w" and room: "unat (nextID db) + 1 < 2 ^ 32" and ord: "\<And>xs. mset (ord xs) = mset xs"
  shows "\<exists>db' w'. Compact ord db w = ((None, db'), w') \<and> calm w' \<and> dbOk db' w' \<and> sameMem db db' \<and>
    unat (nextID db') \<le> unat (nextID db) + 1 \<and> (ssReaders db = [] \<and> durable db w \<longrightarrow> durable db' w') \<and>
    SegmentCount db' \<le> 2 \<and> (butlast (order db) \<noteq> [] \<longrightarrow> synced db' w' \<and> logRecords db' w' =
       mergedRecords ord (concat (map (recordsAt w) (butlast (order db)))) @ recordsAt w (last (order db)))"
proof -
  let ?n = "nextID db" and ?a = "last (order db)" and ?snap = "butlast (order db)"
  note o = dbOk_order [OF w(2)]
  have bl: "order db = ?snap @ [?a]" using o(1) by simp
  have cnt: "SegmentCount d = length (order d)" if "shapeOk d" "distinct (order d)" for d
    using that by (metis SegmentCount_def distinct_card length_map shapeOk_def)
  show ?thesis
  proof (cases "?snap = []")
    case True
    have "length (order db) = 1" using bl True by (metis append_Nil length_Cons list.size(3) One_nat_def)
    moreover have "Compact ord db w = ((None, db), w)"
      using o(5) filter_not_last [OF o(1,2)] True by (simp add: Compact_def compactSnapshot_def)
    ultimately show ?thesis using w cnt [OF dbOk_shape [OF w(2)] o(2)] True by simp
  next
    case False
    let ?S = "concat (map (recordsAt w) ?snap)" and ?db1 = "db\<lparr>nextID := ?n + 1\<rparr>"
    let ?rs = "mergedRecords ord ?S"
    obtain w1 where w1: "compactSnapshot db = (Inr (Some (?snap, ?n)), ?db1)" "compactMerge ord ?snap ?n w = (None, w1)" "calm w1"
      "dbOk ?db1 w1" "?n < nextID ?db1" "list_all logRecOk ?rs" "lookupFile (segmentPath ?n) w1 = Some (logOf ?rs)"
      "\<And>p. p \<noteq> segmentPath ?n \<Longrightarrow> p \<noteq> compactTmpPath ?n \<Longrightarrow> lookupFile p w1 = lookupFile p w"
      using merged_ready [OF w room ord False] by blast
    have nn: "?n \<notin> set ?snap" "?n \<notin> set (order ?db1)" "?a \<notin> set ?snap"
      using o(4) in_set_butlastD set_last_butlast(2) [OF o(1,2)] by force+
    have "recordsAt w1 ?a = recordsAt w ?a" using o(3,4) by (intro recordsAt_cong w1(8)) auto
    then obtain db' w' where c: "compactSwap ?snap ?n ?db1 w1 = ((None, db'), w')" "calm w'" "dbOk db' w'" "sameMem ?db1 db'"
      "nextID db' = ?n + 1" "order db' = [?n, ?a]" "synced db' w'" "logRecords db' w' = ?rs @ recordsAt w ?a"
      using compactSwap_calm [OF w1(3-5) nn(2,1) w1(7,6)] nn(3) rest_of_butlast [OF o(1,2)] by auto
    have sm: "sameMem db db'" using c(4) by (simp add: sameMem_def)
    have "durable db' w'" if d: "ssReaders db = []" "durable db w"
    proof -
      have "logRecords db w = ?S @ recordsAt w ?a" unfolding logRecords_def by (subst (1) bl) simp
      then have "overlay (replayLog (logRecords db' w')) [] = overlay (replayLog (logRecords db w)) []"
        using merged_overlay [OF ord] c(8) by simp
      moreover have "ssReaders db' = []" using sm d(1) by (simp add: sameMem_def)
      ultimately show ?thesis using c(7) d sameMem_view [OF sm] by (simp add: durable_def)
    qed
    moreover have "SegmentCount db' \<le> 2" using cnt [OF dbOk_shape [OF c(3)] dbOk_order(2) [OF c(3)]] c(6) by simp
    moreover have "Compact ord db w = ((None, db'), w')" using w1(1,2) c(1) by (simp add: Compact_def)
    ultimately show ?thesis using c room sm by (auto simp: unat_word_ariths)
  qed
qed

section \<open>Table compaction\<close>

lemma length_popSeq: "length (popSeq h) = work (mset h)"
proof (induction h rule: popSeq.induct)
  case (1 h)
  show ?case
  proof (cases "h = []")
    case True
    then show ?thesis by (simp add: popSeq.simps work_def)
  next
    case False
    obtain e h' where pop: "heapPop mergeLess h = (e, h')" by (cases "heapPop mergeLess h")
    have "popSeq h = e # popSeq (pushNext (meIdx e) (meIter e) h')" using False pop by (subst popSeq.simps) simp
    then show ?thesis
      using "1.IH" [OF False pop [symmetric] refl] work_pop [OF False] pop by (simp add: work_pushNext)
  qed
qed

lemma work_pushSources: "work (mset (pushSources i srcs h)) = work (mset h) + sum_list (map length srcs)"
  by (induction i srcs h rule: pushSources.induct) (simp_all add: work_pushNext)

lemma length_mergedSeq: "length (mergedSeq srcs) = sum_list (map length srcs)"
  unfolding mergedSeq_def length_popSeq work_pushSources by (simp add: work_def)

text \<open>
  The merge loop ends: whatever the sources hold, the heap is empty after exactly as many pops
  as they have entries together.
\<close>

theorem merge_loop_terminates:
  "length (popSeq (pushSources 0 srcs [])) = sum_list (map length srcs)"
  unfolding length_popSeq work_pushSources by (simp add: work_def)

lemma sstOk_merged:
  assumes "list_all readerOk rs" "length (mergedSeq (map CompactionIterator rs)) \<le> 429496728"
  shows "sstOk (live (newest (map CompactionIterator rs)))"
proof -
  let ?srcs = "map CompactionIterator rs" and ?es = "live (newest (map CompactionIterator rs))"
  note srt = sources_sorted [OF assms(1)]
  have sub: "x \<in> set ?es \<Longrightarrow> \<exists>src \<in> set ?srcs. x \<in> set src" for x
    using newest_spec(3) [OF srt] by (auto simp: live_def)
  have ok: "entryOk x" if "x \<in> set ?es" for x
    using sub [OF that] assms(1) readerOk_cases(1) by (fastforce simp: list_all_iff sstOk_def)
  have len: "length ?es \<le> 429496728"
    using assms(2) kept_length [of None "mergedSeq ?srcs"] length_filter_le [of _ "newest ?srcs"]
    unfolding live_def newest_def by (meson le_trans)
  have "length (dataOf xs) \<le> length xs * 8589934598" if "list_all entryOk xs" for xs
    using that
  proof (induction xs)
    case (Cons x xs)
    then have "length (encEntry x) \<le> 8589934598"
      by (auto simp: length_encEntry entryOk_def lenOpt_def split: option.splits)
    then show ?case using Cons by simp
  qed simp
  from this [of ?es] have "length (dataOf ?es) < 2 ^ 62" using len ok by (simp add: list_all_iff)
  then show ?thesis using ok len live_map(1) [OF newest_spec(1) [OF srt]] by (simp add: sstOk_def list_all_iff)
qed

lemma layered_merged:
  assumes "list_all readerOk rs"
  shows "Option.bind (layered [live (newest (map CompactionIterator rs))] k) id =
    Option.bind (layered (map CompactionIterator rs) k) id"
proof -
  note srt = sources_sorted [OF assms]
  show ?thesis
    unfolding layered.simps live_map(2) [OF newest_spec(1) [OF srt]] newest_spec(2) [OF srt]
    by (auto split: option.splits)
qed

lemma overlay_merged:
  "list_all readerOk rs \<Longrightarrow>
     overlay m [live (newest (map CompactionIterator rs))] = overlay m (map CompactionIterator rs)"
  using layered_merged by (auto simp: overlay_def fun_eq_iff simp del: layered.simps split: option.splits)

lemma retireTables_calm:
  "calm w \<Longrightarrow> calm (retireTables rs w) \<and>
     (\<forall>p. lookupFile p (retireTables rs w) = (if p \<in> rpath ` set rs then None else lookupFile p w))"
proof (induction rs arbitrary: w)
  case (Cons r rs)
  let ?w = "quietly (osRemove (rpath r)) w"
  have w: "calm ?w" "\<And>p. lookupFile p ?w = (if p = rpath r then None else lookupFile p w)" using Cons.prems by auto
  have "retireTables (r # rs) w = retireTables rs ?w" using Cons.prems by (simp add: retireTables_def Path_def)
  then show ?case using Cons.IH [OF w(1)] w(2) by auto
qed (simp add: retireTables_def)

lemma CompactSSTables_calm:
  assumes w: "calm w" "dbOk db w" and room: "unat (ssNextID db) + 1 < 2 ^ 32" "tableEntries db \<le> 429496728"
  shows "\<exists>db' w'. CompactSSTables db w = ((None, db'), w') \<and> calm w' \<and> dbOk db' w' \<and> dbView db' = dbView db \<and>
    opts db' = opts db \<and> memtable db' = memtable db \<and> nextID db' = nextID db \<and> order db' = order db \<and> memSize db' = memSize db \<and>
    (\<forall>i. lookupFile (segmentPath i) w' = lookupFile (segmentPath i) w) \<and> (ssReaders db = [] \<longrightarrow> ssReaders db' = []) \<and> unat (ssNextID db') \<le> unat (ssNextID db) + 1 \<and> SSTableCount db' \<le> 1 \<and>
    storedEntries db' \<le> storedEntries db \<and> (durable db w \<longrightarrow> durable db' w') \<and> dbKeys db' \<subseteq> dbKeys db"
proof (cases "length (ssReaders db) < 2")
  case True
  then show ?thesis using w by (simp add: CompactSSTables_def SSTableCount_def)
next
  case False
  let ?s = "ssNextID db" and ?rs = "ssReaders db"
  let ?p = "sstFilePath ?s" and ?es = "live (newest (map CompactionIterator ?rs))"
  have sh: "shapeOk db" and rok: "list_all readerOk ?rs" using w(2) memOkD(2) by (auto simp: dbOk_def)
  have tab: "tableAt w r" if "r \<in> set ?rs" for r using w(2) that by (simp add: dbOk_def list_all_iff)
  have len: "length (mergedSeq (map CompactionIterator ?rs)) \<le> 429496728"
    using room(2) by (simp add: length_mergedSeq tableEntries_def comp_def)
  note es = sstOk_merged [OF rok len]
  obtain r0 where "r0 \<in> set ?rs" using False by (cases ?rs) auto
  then have "lookupFile (sstFilePath (ID r0)) w \<noteq> None" using tab by (fastforce simp: tableAt_def)
  then have dir: "dirExists ?p w" using lookup_dirExists by (fastforce simp: sstFilePath_def)
  let ?w1 = "putFile ?p (sstImage ?es) w"
  have mg: "kWayMergeSSTables ?rs ?p w = (None, ?w1)" using kWayMerge_calm [OF w(1) dir rok _ es] len by simp
  have op: "sstOpen ?p ?w1 = (Inr (readerOf ?p ?es), ?w1)" using w(1) dir es by (intro sstOpen_image) simp_all
  let ?m = "\<lparr>mNextID = nextID db, mOrder = order db, mNextSSTID = ?s + 1, mSstIDs = [?s]\<rparr>"
  obtain w2 where w2: "writeManifest ?m ?w1 = (None, w2)" "calm w2"
    "lookupFile (Top manifestName) w2 = Some (manifestBytes ?m)"
    "\<And>p. p \<noteq> Top manifestName \<Longrightarrow> p \<noteq> Top manifestTmpName \<Longrightarrow> lookupFile p w2 = lookupFile p ?w1"
    using writeManifest_calm [of ?w1 ?m] w(1) by auto
  let ?w3 = "retireTables ?rs w2"
  note r3 = retireTables_calm [OF w2(2), of ?rs]
  define db' where "db' = db\<lparr>ssNextID := ?s + 1, ssReaders := [readerOf ?p ?es]\<rparr>"
  have step: "CompactSSTables db w = ((None, db'), ?w3)"
    using False mg op w2(1) by (simp add: CompactSSTables_def Let_def db'_def)
  have rp: "rpath r = sstFilePath (ID r) \<and> ID r \<noteq> ?s" if "r \<in> set ?rs" for r
  proof -
    have "?s \<notin> set (currentSSTIDs db)" using sh idsValid_fresh by (auto simp: shapeOk_def)
    then have "ID r \<noteq> ?s" using that by (metis currentSSTIDs_def imageI set_map set_rev)
    then show ?thesis using tab [OF that] by (simp add: tableAt_def)
  qed
  then have keep: "segmentPath i \<notin> rpath ` set ?rs" "?p \<notin> rpath ` set ?rs" "Top n \<notin> rpath ` set ?rs" for i n by fastforce+
  have seg: "lookupFile (segmentPath i) ?w3 = lookupFile (segmentPath i) w" for i using r3 keep(1) w2(4) by simp
  have view: "dbView db' = dbView db"
    using overlay_merged [OF rok] by (simp add: dbView_overlay db'_def CompactionIterator_readerOf [OF es])
  have "memOk db'" using w(2) view readerOk_readerOf [OF es] by (simp add: dbOk_def memOk_def db'_def)
  moreover have "shapeOk db'" using sh u32_less_Suc [OF room(1)] by (simp add: shapeOk_def db'_def currentSSTIDs_def idsValid_def)
  moreover have "list_all (segOk ?w3 (segments db')) (order db')"
    using w(2) segOk_cong [OF seg refl] by (simp add: dbOk_def db'_def list_all_iff)
  moreover have "list_all (tableAt ?w3) (ssReaders db')"
    using r3 keep(2) w2(4) dir readerOk_readerOf [OF es] by (simp add: db'_def tableAt_def CompactionIterator_readerOf [OF es])
  ultimately have ok': "dbOk db' ?w3" using w(2) seg by (simp add: dbOk_def db'_def)
  have "synced db' ?w3"
    using r3 keep(3) w2(3) sh u32_less_Suc [OF room(1)]
    by (intro syncedI [of _ ?m]) (simp_all add: manifestValid_def shapeOk_def db'_def currentSSTIDs_def idsValid_def)
  moreover have "logRecords db' ?w3 = logRecords db w"
    using recordsAt_cong [OF seg] by (simp add: logRecords_def db'_def cong: map_cong)
  ultimately have "durable db w \<longrightarrow> durable db' ?w3"
    using overlay_merged [OF rok] view by (simp add: durable_def db'_def CompactionIterator_readerOf [OF es])
  moreover have "length ?es \<le> tableEntries db"
    using kept_length [of None "mergedSeq (map CompactionIterator ?rs)"] length_filter_le [of _ "newest (map CompactionIterator ?rs)"]
    unfolding live_def newest_def length_mergedSeq tableEntries_def map_map [symmetric] by (meson le_trans)
  moreover have "dom (map_of ?es) \<subseteq> dom (layered (map CompactionIterator ?rs))"
    using newest_spec(1,2) [OF sources_sorted [OF rok]] live_map(2) by (auto split: option.splits)
  then have "dbKeys db' \<subseteq> dbKeys db"
    by (auto simp: dbKeys_split db'_def CompactionIterator_readerOf [OF es] dom_map_of_conv_image_fst layered_dom)
  moreover have "?rs \<noteq> []" using False by auto
  ultimately show ?thesis using step ok' r3 view room(1) seg
    by (simp add: db'_def SSTableCount_def unat_word_ariths storedEntries_def tableEntries_def CompactionIterator_readerOf [OF es])
qed

end
