(* ===== verification/Kora_Runs.thy ===== *)
theory Kora_Runs
  imports Kora_Compact_Correct
begin

text \<open>
  Runs of store operations. Each operation that changes the store is simulated by an update
  of a finite map; the locale \<open>budgeted_simulation\<close> lifts such a simulation to sequences, the
  budget being the number of operations for which ids and table capacity suffice.
\<close>

section \<open>Operations as data\<close>

datatype storeOp = OpSet u64 bytes "bytes option" | OpDel u64 bytes | OpCompact | OpCompactSSTables

fun applyOp :: "(Record list \<Rightarrow> Record list) \<Rightarrow> storeOp \<Rightarrow> DB \<Rightarrow> world \<Rightarrow> dbResult" where
  "applyOp ord (OpSet now k v) db w = dbSet now k v db w"
| "applyOp ord (OpDel now k) db w = dbDelete now k db w"
| "applyOp ord OpCompact db w = Compact ord db w"
| "applyOp ord OpCompactSSTables db w = CompactSSTables db w"

fun specOp :: "storeOp \<Rightarrow> (bytes \<rightharpoonup> bytes) \<Rightarrow> (bytes \<rightharpoonup> bytes)" where
  "specOp (OpSet now k v) m = m(k \<mapsto> orEmpty v)"
| "specOp (OpDel now k) m = m(k := None)"
| "specOp OpCompact m = m"
| "specOp OpCompactSSTables m = m"

fun legalOp :: "storeOp \<Rightarrow> bool" where
  "legalOp (OpSet now k v) \<longleftrightarrow> keyOk k \<and> lenOpt v \<le> MaxValueSize"
| "legalOp (OpDel now k) \<longleftrightarrow> keyOk k"
| "legalOp _ \<longleftrightarrow> True"

fun opKeys :: "storeOp \<Rightarrow> bytes set" where
  "opKeys (OpSet now k v) = {k}"
| "opKeys (OpDel now k) = {k}"
| "opKeys _ = {}"

fun runSteps :: "('op \<Rightarrow> 's \<Rightarrow> 's option) \<Rightarrow> 'op list \<Rightarrow> 's \<Rightarrow> 's option" where
  "runSteps step [] s = Some s"
| "runSteps step (op # ops) s = (case step op s of None \<Rightarrow> None | Some s' \<Rightarrow> runSteps step ops s')"

text \<open>One operation on a database and its directory; \<open>None\<close> is an error.\<close>

definition storeStep :: "(Record list \<Rightarrow> Record list) \<Rightarrow> storeOp \<Rightarrow> DB \<times> world \<Rightarrow> (DB \<times> world) option" where
  "storeStep ord op s =
     (case applyOp ord op (fst s) (snd s) of ((None, db'), w') \<Rightarrow> Some (db', w') | _ \<Rightarrow> None)"

section \<open>Simulation\<close>

locale budgeted_simulation =
  fixes step :: "'op \<Rightarrow> 's \<Rightarrow> 's option"
    and spec :: "'op \<Rightarrow> 'a \<Rightarrow> 'a"
    and abs :: "'s \<Rightarrow> 'a"
    and inv :: "nat \<Rightarrow> 's \<Rightarrow> bool"
    and legal :: "'op \<Rightarrow> bool"
  assumes step_sim: "inv (Suc n) s \<Longrightarrow> legal op \<Longrightarrow> \<exists>s'. step op s = Some s' \<and> inv n s' \<and> abs s' = spec op (abs s)"
begin

lemma run_sim:
  "inv (length ops + n) s \<Longrightarrow> list_all legal ops \<Longrightarrow>
     \<exists>s'. runSteps step ops s = Some s' \<and> inv n s' \<and> abs s' = fold spec ops (abs s)"
proof (induction ops arbitrary: s)
  case (Cons op ops)
  then obtain s1 where "step op s = Some s1" "inv (length ops + n) s1" "abs s1 = spec op (abs s)"
    using step_sim [of "length ops + n" s op] by auto
  then show ?case using Cons.IH [of s1] Cons.prems by simp
qed simp

end

text \<open>The store with room for \<open>n\<close> more operations.\<close>

definition storeInv :: "nat \<Rightarrow> DB \<times> world \<Rightarrow> bool" where
  "storeInv n s \<longleftrightarrow> calm (snd s) \<and> dbOk (fst s) (snd s) \<and> hasRoom n (fst s)"

lemma sameMem_stored: "sameMem db db' \<Longrightarrow> storedEntries db' = storedEntries db \<and> ssNextID db' = ssNextID db"
  by (simp add: sameMem_def storedEntries_def tableEntries_def)

lemma sameMem_keys: "sameMem db db' \<Longrightarrow> dbKeys db' = dbKeys db"
  by (simp add: sameMem_def dbKeys_split)

lemma hasRoom_mono: "hasRoom n db \<Longrightarrow> m \<le> n \<Longrightarrow> hasRoom m db"
  by (auto simp: hasRoom_def)

lemma storeStep_sim:
  assumes "storeInv (Suc n) s" "legalOp op" "\<And>xs. mset (ord xs) = mset xs"
  shows "\<exists>s'. storeStep ord op s = Some s' \<and> storeInv n s' \<and> dbView (fst s') = specOp op (dbView (fst s)) \<and>
    dbKeys (fst s') \<subseteq> opKeys op \<union> dbKeys (fst s)"
proof -
  obtain db w where s: "s = (db, w)" by (cases s)
  have a: "calm w" "dbOk db w" "hasRoom (Suc n) db" using assms(1) s by (auto simp: storeInv_def)
  have r1: "hasRoom 1 db" using hasRoom_mono a(3) by simp
  show ?thesis
  proof (cases op)
    case (OpSet now k v)
    then show ?thesis using dbSet_calm [OF a(1,2) r1, of k v now] assms(2) a(3) s by (auto simp: storeStep_def storeInv_def)
  next
    case (OpDel now k)
    then show ?thesis using dbDelete_calm [OF a(1,2) r1, of k now] assms(2) a(3) s by (auto simp: storeStep_def storeInv_def)
  next
    case OpCompact
    have "unat (nextID db) + 1 < 2 ^ 32" using a(3) by (auto simp: hasRoom_def)
    from Compact_calm [OF a(1,2) this assms(3)] obtain db' w' where c: "Compact ord db w = ((None, db'), w')"
      "calm w'" "dbOk db' w'" "sameMem db db'" "unat (nextID db') \<le> unat (nextID db) + 1" by blast
    then have "hasRoom n db'" using a(3) sameMem_stored [OF c(4)] by (auto simp: hasRoom_def)
    then show ?thesis using c OpCompact s sameMem_view [OF c(4)] sameMem_keys [OF c(4)] by (simp add: storeStep_def storeInv_def)
  next
    case OpCompactSSTables
    have "unat (ssNextID db) + 1 < 2 ^ 32" "tableEntries db \<le> 429496728" using a(3) by (auto simp: hasRoom_def storedEntries_def)
    from CompactSSTables_calm [OF a(1,2) this] obtain db' w' where c: "CompactSSTables db w = ((None, db'), w')"
      "calm w'" "dbOk db' w'" "dbView db' = dbView db" "nextID db' = nextID db"
      "unat (ssNextID db') \<le> unat (ssNextID db) + 1" "storedEntries db' \<le> storedEntries db" "dbKeys db' \<subseteq> dbKeys db" by blast
    then have "hasRoom n db'" using a(3) by (auto simp: hasRoom_def)
    then show ?thesis using c OpCompactSSTables s by (simp add: storeStep_def storeInv_def)
  qed
qed

interpretation store: budgeted_simulation "storeStep ord" specOp "dbView \<circ> fst" storeInv
    "\<lambda>op. legalOp op \<and> (\<forall>xs. mset (ord xs) = mset xs)" for ord
  by unfold_locales (use storeStep_sim [where ord = ord] in fastforce)

lemma store_run:
  assumes "storeInv (length ops + n) (db, w)" "list_all legalOp ops" "\<And>xs. mset (ord xs) = mset xs"
  shows "\<exists>db' w'. runSteps (storeStep ord) ops (db, w) = Some (db', w') \<and> storeInv n (db', w') \<and>
    dbView db' = fold specOp ops (dbView db)"
  using store.run_sim [OF assms(1), of ord] assms(2,3) by (auto simp: list_all_iff)

end
