(* ===== verification/Kora_Recovery.thy ===== *)
theory Kora_Recovery
  imports Kora_Runs
begin

text \<open>
  Opening a directory. \<open>diskRep w M\<close> says that the directory represents the map \<open>M\<close>: a valid
  manifest, complete logs for its segments (the last one may end in a torn record), complete
  tables, and \<open>M\<close> is the replayed log over the tables. \<open>Open\<close> on such a directory succeeds
  and its view is \<open>M\<close>.
\<close>

section \<open>What a directory represents\<close>

text \<open>What the scan of a segment takes for its end: nothing more, or an incomplete record.\<close>

definition tornTail :: "bytes \<Rightarrow> bool" where
  "tornTail t \<longleftrightarrow> Decode t = Inl EOF \<or> Decode t = Inl UnexpectedEOF"

definition logClean :: "world \<Rightarrow> u32 \<Rightarrow> bool" where
  "logClean w i \<longleftrightarrow> lookupFile (segmentPath i) w = Some (logOf (recordsAt w i)) \<and> list_all logRecOk (recordsAt w i)"

definition logTorn :: "world \<Rightarrow> u32 \<Rightarrow> bytes \<Rightarrow> bool" where
  "logTorn w i t \<longleftrightarrow> tornTail t \<and> lookupFile (segmentPath i) w = Some (logOf (recordsAt w i) @ t) \<and>
     list_all logRecOk (recordsAt w i)"

text \<open>The files a manifest makes part of the database, itself included.\<close>

abbreviation manifestFiles :: "manifest \<Rightarrow> path set" where
  "manifestFiles m \<equiv> insert (Top manifestName) (segmentPath ` set (mOrder m) \<union> sstFilePath ` set (mSstIDs m))"

definition diskRepBy :: "world \<Rightarrow> manifest \<Rightarrow> bytes \<Rightarrow> (u32 \<Rightarrow> entry list) \<Rightarrow> bool" where
  "diskRepBy w m t T \<longleftrightarrow> lookupFile (Top manifestName) w = Some (manifestBytes m) \<and> manifestValid m \<and>
     mOrder m \<noteq> [] \<and> list_all (logClean w) (butlast (mOrder m)) \<and> logTorn w (last (mOrder m)) t \<and>
     (\<forall>i \<in> set (mSstIDs m). sstOk (T i) \<and> lookupFile (sstFilePath i) w = Some (sstImage (T i)))"

definition diskMap :: "world \<Rightarrow> manifest \<Rightarrow> (u32 \<Rightarrow> entry list) \<Rightarrow> bytes \<rightharpoonup> bytes" where
  "diskMap w m T = overlay (replayLog (concat (map (recordsAt w) (mOrder m)))) (map T (rev (mSstIDs m)))"

definition diskRep :: "world \<Rightarrow> (bytes \<rightharpoonup> bytes) \<Rightarrow> bool" where
  "diskRep w M \<longleftrightarrow> (\<exists>m t T. diskRepBy w m t T \<and> M = diskMap w m T)"

lemma Decode_Nil [simp]: "Decode [] = Inl EOF"
  by (simp add: Decode_def readFull_def)

lemma tornTail_Nil [simp]: "tornTail []"
  by (simp add: tornTail_def)

lemma tornTail_cut: "recOk r \<Longrightarrow> n < Size r \<Longrightarrow> tornTail (take n (encRec r))"
  by (simp add: tornTail_def Decode_cut)

lemma scanLoop_torn:
  assumes "tornTail t"
  shows "scanLoop fn t off st = (st, off, if Decode t = Inl EOF then None else Some ErrPartialTail)"
  using assms by (subst scanLoop.simps) (auto simp: tornTail_def)

lemma recordsOf_torn:
  assumes "list_all recOk rs" "tornTail t"
  shows "recordsOf (logOf rs @ t) = rs"
  using scanLoop_log [OF assms(1), of "\<lambda>r _ _ acc. Inr (acc @ [r])" "\<lambda>r acc. acc @ [r]" t 0 "[]"]
  by (simp add: recordsOf_def fold_snoc scanLoop_torn [OF assms(2)])

lemma logTornI:
  assumes "lookupFile (segmentPath i) w = Some (logOf rs @ t)" "list_all logRecOk rs" "tornTail t"
  shows "logTorn w i t" and "recordsAt w i = rs"
  using assms recordsOf_torn [OF recOk_of_logRecOk [OF assms(2)] assms(3)] by (simp_all add: logTorn_def recordsAt_def)

lemma segOk_logClean: "segOk w segs i \<Longrightarrow> logClean w i"
  by (simp add: segOk_def logClean_def)

lemma logClean_torn: "logClean w i \<Longrightarrow> logTorn w i []"
  by (simp add: logClean_def logTorn_def)

text \<open>What the directory of an open database represents when the manifest is up to date.\<close>

lemma synced_diskRep:
  assumes "dbOk db w" "synced db w"
  obtains m T where "diskRepBy w m [] T"
    "diskMap w m T = overlay (replayLog (logRecords db w)) (map CompactionIterator (ssReaders db))" "mOrder m = order db" "mSstIDs m = currentSSTIDs db"
    "map T (rev (mSstIDs m)) = map CompactionIterator (ssReaders db)"
proof -
  obtain m where m: "lookupFile (Top manifestName) w = Some (manifestBytes m)" "manifestValid m"
    "mOrder m = order db" "mSstIDs m = currentSSTIDs db"
    using assms(2) by (auto simp: synced_def)
  define T where "T = (\<lambda>i. the (map_of (map (\<lambda>r. (ID r, CompactionIterator r)) (ssReaders db)) i))"
  have d: "distinct (map ID (ssReaders db))" using dbOk_shape [OF assms(1)] by (simp add: shapeOk_def idsValid_def currentSSTIDs_def)
  have T: "T (ID r) = CompactionIterator r" if "r \<in> set (ssReaders db)" for r
  proof -
    have "map_of (map (\<lambda>r. (ID r, CompactionIterator r)) (ssReaders db)) (ID r) = Some (CompactionIterator r)"
      using d that by (intro map_of_is_SomeI) (auto simp: comp_def)
    then show ?thesis by (simp add: T_def)
  qed
  have tables: "map T (rev (mSstIDs m)) = map CompactionIterator (ssReaders db)"
    using T by (simp add: m(4) currentSSTIDs_def)
  have "sstOk (T i) \<and> lookupFile (sstFilePath i) w = Some (sstImage (T i))" if i: "i \<in> set (mSstIDs m)" for i
  proof -
    obtain r where r: "r \<in> set (ssReaders db)" "i = ID r" using i by (auto simp: m(4) currentSSTIDs_def)
    then have "tableAt w r" using assms(1) by (auto simp: dbOk_def list_all_iff)
    then show ?thesis using readerOk_cases(1) T [OF r(1)] r(2) by (auto simp: tableAt_def)
  qed
  moreover have "list_all (logClean w) (order db)"
    using assms(1) segOk_logClean by (auto simp: dbOk_def list_all_iff)
  moreover have "order db \<noteq> []" by (rule dbOk_order(1) [OF assms(1)])
  ultimately have "diskRepBy w m [] T"
    using m logClean_torn in_set_butlastD by (fastforce simp: diskRepBy_def list_all_iff)
  moreover have "diskMap w m T = overlay (replayLog (logRecords db w)) (map CompactionIterator (ssReaders db))"
    using m(3) unfolding diskMap_def tables by (simp add: logRecords_def)
  ultimately show thesis using that m(3,4) tables by blast
qed

lemma durable_diskRep:
  assumes "dbOk db w" "durable db w"
  obtains m T where "diskRepBy w m [] T" "diskMap w m T = dbView db" "mOrder m = order db" "mSstIDs m = currentSSTIDs db"
    "map T (rev (mSstIDs m)) = map CompactionIterator (ssReaders db)"
  using synced_diskRep [OF assms(1)] assms(2) unfolding durable_def by metis

section \<open>Reading the manifest, opening and cleaning up\<close>

lemma readManifest_calm:
  assumes "calm w" "lookupFile (Top manifestName) w = Some (manifestBytes m)" "manifestValid m"
  shows "readManifest w = (Inr m, w)"
  using assms decodeManifest_bytes [of m] idsValid_length [of "mNextID m" "mOrder m"]
    idsValid_length [of "mNextSSTID m" "mSstIDs m"] by (simp add: readManifest_def manifestValid_def)

lemma openTables_calm:
  assumes "calm w" "\<forall>i \<in> set ids. sstOk (T i) \<and> lookupFile (sstFilePath i) w = Some (sstImage (T i))"
  shows "openTables ids rs w = (Inr (rs @ map (\<lambda>i. readerOf (sstFilePath i) (T i)) ids), w)"
  using assms(2)
proof (induction ids arbitrary: rs)
  case (Cons i ids)
  then have "sstOpen (sstFilePath i) w = (Inr (readerOf (sstFilePath i) (T i)), w)"
    using sstOpen_image [OF assms(1)] by simp
  then show ?case using Cons by simp
qed simp

lemma openSSTables_calm:
  assumes "calm w" "\<forall>i \<in> set ids. sstOk (T i) \<and> lookupFile (sstFilePath i) w = Some (sstImage (T i))" "ssReaders db = []"
  shows "openSSTables ids db w = ((None, db\<lparr>ssReaders := map (\<lambda>i. readerOf (sstFilePath i) (T i)) (rev ids)\<rparr>), w)"
  using openTables_calm [OF assms(1), of "rev ids" T "[]"] assms(2,3) by (cases db) (simp add: openSSTables_def)

lemma removeAll_calm:
  "calm w \<Longrightarrow> calm (removeAll ps w) \<and> (\<forall>p. lookupFile p (removeAll ps w) = (if p \<in> set ps then None else lookupFile p w))"
proof (induction ps arbitrary: w)
  case (Cons q ps)
  let ?w = "quietly (osRemove q) w"
  have w: "calm ?w" "\<And>p. lookupFile p ?w = (if p = q then None else lookupFile p w)" using Cons.prems by auto
  have "removeAll (q # ps) w = removeAll ps ?w" by (simp add: removeAll_def)
  then show ?case using Cons.IH [OF w(1)] w(2) by auto
qed (simp add: removeAll_def)

text \<open>A table of the manifest is never taken for an orphan.\<close>

lemma sscanfId_sstName:
  assumes "sscanfId 6 (sstName i) = Inr j" shows "j = i"
proof -
  let ?p = "pad6 (unat i)"
  have six: "6 \<le> length ?p" by (simp add: pad6_def)
  have "list_all isDigit (take 6 ?p)" using pad6_digits [of "unat i"] by (metis append_take_drop_id list_all_append)
  then have tw: "takeWhile isDigit (take 6 (?p @ str ''.sst'')) = take 6 ?p"
    using six by (simp add: takeWhile_eq_all_conv list_all_iff)
  show ?thesis
  proof (cases "length ?p = 6")
    case True
    then show ?thesis using assms ParseUint_pad6 [of "unat i" 32] unfolding sscanfId_def sstName_def tw Let_def by simp
  next
    case False
    then obtain d ds where d: "drop 6 ?p = d # ds" using six by (cases "drop 6 ?p") auto
    then have "isDigit d" using pad6_digits [of "unat i"] by (metis in_set_dropD list.set_intros(1) list_all_iff)
    then have "d \<noteq> 46" by (auto simp: isDigit_def)
    then show ?thesis using assms d six unfolding sscanfId_def sstName_def tw Let_def
      by (auto split: sum.splits if_splits)
  qed
qed

lemma cleanupOrphanedSSTs_calm:
  assumes "calm w"
  shows "calm (cleanupOrphanedSSTs ids w) \<and> (\<forall>n. lookupFile (Top n) (cleanupOrphanedSSTs ids w) = lookupFile (Top n) w) \<and>
    (\<forall>i \<in> set ids. lookupFile (sstFilePath i) (cleanupOrphanedSSTs ids w) = lookupFile (sstFilePath i) w)"
proof (cases "sstdir w")
  case None
  then show ?thesis using assms by (simp add: cleanupOrphanedSSTs_def readDirSst_def)
next
  case (Some d)
  let ?ps = "map Sst (filter (isOrphan ids) (map fst d))"
  have eq: "cleanupOrphanedSSTs ids w = removeAll ?ps w" using Some assms by (simp add: cleanupOrphanedSSTs_def readDirSst_def)
  have "sstFilePath i \<notin> set ?ps" if "i \<in> set ids" for i
    using sscanfId_sstName [of i] that by (cases "sscanfId 6 (sstName i)") (auto simp: sstFilePath_def isOrphan_def)
  then show ?thesis unfolding eq using removeAll_calm [OF assms, of ?ps] by auto
qed

lemma cleanupLeakedSegments_calm:
  assumes "calm w"
  shows "calm (cleanupLeakedSegments db w) \<and>
    (\<forall>i. lookupFile (segmentPath i) (cleanupLeakedSegments db w) = (if i \<in> set (order db) then lookupFile (segmentPath i) w else None)) \<and>
    (\<forall>p. (\<forall>i. p \<noteq> segmentPath i) \<longrightarrow> lookupFile p (cleanupLeakedSegments db w) = lookupFile p w)"
proof -
  define ids where "ids = sortIDs (List.map_filter parseSegmentName (map fst (topdir w)))"
  let ?ps = "map segmentPath (filter (\<lambda>i. i \<notin> set (order db)) ids)"
  have eq: "cleanupLeakedSegments db w = removeAll ?ps w"
    using assms by (simp add: cleanupLeakedSegments_def listSegmentIDs_def readDirTop_def ids_def)
  have "i \<in> set ids" if "lookupFile (segmentPath i) w \<noteq> None" for i
  proof -
    have "segmentName i \<in> set (map fst (topdir w))" using that unfolding segmentPath_def names_top .
    then show ?thesis unfolding ids_def sortIDs_sort
      by (force simp: List.map_filter_def)
  qed
  then have "segmentPath i \<in> set ?ps \<or> lookupFile (segmentPath i) w = None" if "i \<notin> set (order db)" for i
    using that by auto
  then show ?thesis unfolding eq using removeAll_calm [OF assms, of ?ps] by auto
qed

section \<open>Replaying\<close>

definition sameFiles :: "DB \<Rightarrow> DB \<Rightarrow> bool" where
  "sameFiles db db' \<longleftrightarrow> opts db' = opts db \<and> segments db' = segments db \<and> active db' = active db \<and>
     order db' = order db \<and> nextID db' = nextID db \<and> ssReaders db' = ssReaders db \<and> ssNextID db' = ssNextID db"

abbreviation memOnly :: "DB \<Rightarrow> DB" where
  "memOnly db \<equiv> db\<lparr>ssReaders := []\<rparr>"

lemma dbView_memOnly: "memOk (memOnly db) \<Longrightarrow> dbView (memOnly db) k = Option.bind (Get (memtable db) k) id"
  using lsm.view_mem [of "memtable db" "[]" k] by (auto simp: memOk_def dbView_lsm lsm.view_def art.empty_iter split: option.splits)

text \<open>What the replay of a record adds to the memtable's size; a tombstone adds nothing.\<close>

definition recBytes :: "Record \<Rightarrow> int" where
  "recBytes r = (case Value r of None \<Rightarrow> 0 | Some v \<Rightarrow> int (length (Key r) + length v))"

lemma replayRecord_step:
  assumes "memOk (memOnly db)" "logRecOk r"
  shows "\<exists>db'. replayRecord r off sz db = Inr db' \<and> memOk (memOnly db') \<and> sameFiles db db' \<and> memSize db' = memSize db + recBytes r \<and>
    map_of (Iterator (memtable db')) = (map_of (Iterator (memtable db)))(Key r \<mapsto> Value r)"
proof -
  let ?k = "Key r" and ?live = "dbView (memOnly db) (Key r) \<noteq> None"
  define n where "n = (case Value r of None \<Rightarrow> (if ?live then liveKeys db - 1 else liveKeys db)
     | Some _ \<Rightarrow> (if ?live then liveKeys db else liveKeys db + 1))"
  have kv: "keyOk ?k" "valOk (Value r)" using assms(2) by (simp_all add: logRecOk_def)
  have n': "n = (case Value r of None \<Rightarrow> (if ?live then liveKeys (memOnly db) - 1 else liveKeys (memOnly db))
     | Some _ \<Rightarrow> (if ?live then liveKeys (memOnly db) else liveKeys (memOnly db) + 1))" by (cases "Value r") (simp_all add: n_def)
  obtain t where "Insert (memtable (memOnly db)) ?k (Value r) = Inr t" "memOk ((memOnly db)\<lparr>liveKeys := n, memtable := t\<rparr>)"
    and m: "map_of (Iterator t) = (map_of (Iterator (memtable (memOnly db))))(?k \<mapsto> Value r)"
    by (rule memOk_insert [OF assms(1) kv, folded n'])
  then have t: "Insert (memtable db) ?k (Value r) = Inr t" "memOk (memOnly (db\<lparr>liveKeys := n, memtable := t\<rparr>))"
    "map_of (Iterator t) = (map_of (Iterator (memtable db)))(?k \<mapsto> Value r)"
    by (cases db, simp del: fun_upd_apply)+
  have live: "?live \<longleftrightarrow> Get (memtable db) ?k \<noteq> None \<and> Get (memtable db) ?k \<noteq> Some None"
    using dbView_memOnly [OF assms(1), of ?k] by (cases "Get (memtable db) ?k") auto
  let ?db = "db\<lparr>liveKeys := n, memtable := t\<rparr>"
  show ?thesis
  proof (cases "Value r")
    case None
    have "replayRecord r off sz db = Inr ?db" using None t(1) live by (auto simp: replayRecord_def Let_def n_def)
    then show ?thesis using t None by (simp add: sameFiles_def recBytes_def del: fun_upd_apply)
  next
    case (Some v)
    let ?db' = "?db\<lparr>memSize := memSize db + int (length ?k + length v)\<rparr>"
    have "memOnly ?db' = (memOnly ?db)\<lparr>memSize := memSize db + int (length ?k + length v)\<rparr>" by simp
    then have "memOk (memOnly ?db')" using t(2) memSize_irrelevant(2) by metis
    moreover have "replayRecord r off sz db = Inr ?db'" using Some t(1) live by (auto simp: replayRecord_def Let_def n_def)
    ultimately show ?thesis using t(3) Some by (simp add: sameFiles_def recBytes_def del: fun_upd_apply)
  qed
qed

lemma scanLoop_sim:
  assumes "list_all ok rs" "\<And>r. ok r \<Longrightarrow> recOk r" "P st"
    and "\<And>r off sz st. ok r \<Longrightarrow> P st \<Longrightarrow> \<exists>st'. fn r off sz st = Inr st' \<and> P st' \<and> \<alpha> st' = h r (\<alpha> st)"
  shows "\<exists>st'. scanLoop fn (logOf rs @ t) off st = scanLoop fn t (off + length (logOf rs)) st' \<and> P st' \<and> \<alpha> st' = fold h rs (\<alpha> st)"
  using assms(1,3)
proof (induction rs arbitrary: off st)
  case (Cons r rs)
  obtain st1 where st1: "fn r off (Size r) st = Inr st1" "P st1" "\<alpha> st1 = h r (\<alpha> st)" using assms(4) Cons.prems by force
  have "scanLoop fn (logOf (r # rs) @ t) off st = scanLoop fn (logOf rs @ t) (off + Size r) st1"
    using Cons.prems assms(2) by (subst scanLoop.simps) (simp add: Decode_encRec st1(1))
  then show ?case using Cons.IH [of st1 "off + Size r"] Cons.prems st1 by (simp add: length_encRec add.assoc)
qed auto

lemma fold_pair: "fold (\<lambda>r (m, s). (f r m, s + g r)) rs (m, s) = (fold f rs m, s + sum_list (map g rs))" for s :: int
  by (induction rs arbitrary: m s) (auto simp: add.assoc)

text \<open>The scan of a segment with a torn tail: replay, end of the complete records, and verdict.\<close>

lemma replay_segment:
  assumes "memOk (memOnly db)" "list_all logRecOk rs" "tornTail t"
  shows "\<exists>db'. scanLoop replayRecord (logOf rs @ t) 0 db =
      (db', length (logOf rs), if Decode t = Inl EOF then None else Some ErrPartialTail) \<and>
    memOk (memOnly db') \<and> sameFiles db db' \<and> memSize db' = memSize db + sum_list (map recBytes rs) \<and>
    map_of (Iterator (memtable db')) = fold (\<lambda>r m. m(Key r \<mapsto> Value r)) rs (map_of (Iterator (memtable db)))"
proof -
  have "\<exists>db'. scanLoop replayRecord (logOf rs @ t) 0 db = scanLoop replayRecord t (0 + length (logOf rs)) db' \<and>
      (memOk (memOnly db') \<and> sameFiles db db') \<and>
      (map_of (Iterator (memtable db')), memSize db') =
        fold (\<lambda>r (m, s). (m(Key r \<mapsto> Value r), s + recBytes r)) rs (map_of (Iterator (memtable db)), memSize db)"
  proof (rule scanLoop_sim [OF assms(2) logRecOk_recOk])
    show "memOk (memOnly db) \<and> sameFiles db db" using assms(1) by (simp add: sameFiles_def)
    fix r off sz st assume "logRecOk r" "memOk (memOnly st) \<and> sameFiles db st"
    then show "\<exists>st'. replayRecord r off sz st = Inr st' \<and> (memOk (memOnly st') \<and> sameFiles db st') \<and>
        (map_of (Iterator (memtable st')), memSize st') =
          (case (map_of (Iterator (memtable st)), memSize st) of (m, s) \<Rightarrow> (m(Key r \<mapsto> Value r), s + recBytes r))"
      using replayRecord_step [of st r off sz] by (auto simp: sameFiles_def simp del: fun_upd_apply)
  qed
  then obtain db' where db': "scanLoop replayRecord (logOf rs @ t) 0 db = scanLoop replayRecord t (length (logOf rs)) db'"
    "memOk (memOnly db')" "sameFiles db db'"
    "map_of (Iterator (memtable db')) = fold (\<lambda>r m. m(Key r \<mapsto> Value r)) rs (map_of (Iterator (memtable db)))"
    "memSize db' = memSize db + sum_list (map recBytes rs)" by (auto simp: fold_pair)
  then show ?thesis by (auto simp: scanLoop_torn [OF assms(3)])
qed

section \<open>Opening the segments\<close>

text \<open>
  What stays of the last segment: a torn record is cut off, unless \<open>Decode\<close> reports the plain
  end of the file, as it does when the record ends right after its header.
\<close>

definition cutTail :: "bytes \<Rightarrow> bytes" where
  "cutTail t = (if Decode t = Inl EOF then t else [])"

text \<open>The segments and the disk after the loop over \<open>ids\<close>.\<close>

definition scanned :: "u32 list \<Rightarrow> world \<Rightarrow> bytes \<Rightarrow> DB \<Rightarrow> DB \<Rightarrow> world \<Rightarrow> bool" where
  "scanned ids w t db db' w' \<longleftrightarrow>
     calm w' \<and> memOk (memOnly db') \<and>
     map_of (Iterator (memtable db')) =
       fold (\<lambda>r m. m(Key r \<mapsto> Value r)) (concat (map (recordsAt w) ids)) (map_of (Iterator (memtable db))) \<and>
     active db' = Some (last ids) \<and> opts db' = opts db \<and> ssReaders db' = ssReaders db \<and>
     ssNextID db' = ssNextID db \<and> memSize db' = memSize db + sum_list (map recBytes (concat (map (recordsAt w) ids))) \<and>
     (\<forall>i. map_of (segments db') i = (if i \<in> set ids then Some \<lparr>sid = i, ssize = length (logOf (recordsAt w i))\<rparr>
        else map_of (segments db) i)) \<and>
     (distinct (map fst (segments db)) \<longrightarrow> distinct (map fst (segments db'))) \<and>
     (\<forall>p. lookupFile p w' = (if p = segmentPath (last ids) then Some (logOf (recordsAt w (last ids)) @ cutTail t)
        else lookupFile p w))"

lemma openLast_calm:
  assumes "calm w" "logTorn w i t" "memOk (memOnly db)"
  shows "\<exists>db' w'. openAndScanLoop [i] db w = ((None, db'), w') \<and> scanned [i] w t db db' w'"
proof -
  let ?rs = "recordsAt w i" and ?q = "segmentPath i"
  have f: "lookupFile ?q w = Some (logOf ?rs @ t)" and ok: "list_all logRecOk ?rs" and t: "tornTail t"
    using assms(2) by (auto simp: logTorn_def)
  let ?seg = "\<lparr>sid = i, ssize = length (logOf ?rs @ t)\<rparr>"
  let ?db1 = "db\<lparr>segments := AList.update i ?seg (segments db)\<rparr>"
  have m1: "memOk (memOnly ?db1)" using assms(3) by (simp add: memOk_def dbView_lsm)
  obtain db2 where db2: "scanLoop replayRecord (logOf ?rs @ t) 0 ?db1 =
      (db2, length (logOf ?rs), if Decode t = Inl EOF then None else Some ErrPartialTail)"
    "memOk (memOnly db2)" "sameFiles ?db1 db2"
    "map_of (Iterator (memtable db2)) = fold (\<lambda>r m. m(Key r \<mapsto> Value r)) ?rs (map_of (Iterator (memtable ?db1)))"
    "memSize db2 = memSize ?db1 + sum_list (map recBytes ?rs)"
    using replay_segment [OF m1 ok t] by blast
  have sc: "scanSegment ?q replayRecord ?db1 w = ((db2, length (logOf ?rs),
      if Decode t = Inl EOF then None else Some ErrPartialTail), w)"
    using assms(1) f db2(1) by (simp add: scanSegment_def)
  define db' where "db' = db2\<lparr>segments := AList.update i \<lparr>sid = i, ssize = length (logOf ?rs)\<rparr> (segments db2), active := Some i\<rparr>"
  define w' where "w' = (if Decode t = Inl EOF then w else putFile ?q (logOf ?rs) w)"
  have "openAndScanLoop [i] db w = ((None, db'), w')"
    using sc createSegment_existing [OF assms(1) f] f assms(1)
    by (simp add: ftruncate_def db'_def w'_def)
  moreover have "memOk (memOnly db')" using db2(2) by (simp add: memOk_def dbView_lsm db'_def)
  moreover have "lookupFile p w' = (if p = ?q then Some (logOf ?rs @ cutTail t) else lookupFile p w)" for p
    using f by (auto simp: w'_def cutTail_def)
  moreover have "memSize db' = memSize db + sum_list (map recBytes ?rs)" using db2(5) by (simp add: db'_def)
  ultimately show ?thesis using db2(3,4) assms(1)
    by (simp add: scanned_def db'_def w'_def sameFiles_def update_conv' distinct_update)
qed

lemma openAndScanLoop_calm:
  assumes "calm w" "ids \<noteq> []" "distinct ids" "list_all (logClean w) (butlast ids)" "logTorn w (last ids) t"
    and "memOk (memOnly db)"
  shows "\<exists>db' w'. openAndScanLoop ids db w = ((None, db'), w') \<and> scanned ids w t db db' w'"
  using assms(2-6)
proof (induction ids arbitrary: db)
  case (Cons i ids)
  show ?case
  proof (cases "ids = []")
    case True
    then show ?thesis using openLast_calm [OF assms(1)] Cons.prems by simp
  next
    case False
    let ?rs = "recordsAt w i" and ?q = "segmentPath i"
    have f: "lookupFile ?q w = Some (logOf ?rs)" and ok: "list_all logRecOk ?rs"
      using Cons.prems(3) False by (auto simp: logClean_def)
    let ?seg = "\<lparr>sid = i, ssize = length (logOf ?rs)\<rparr>"
    let ?db1 = "db\<lparr>segments := AList.update i ?seg (segments db)\<rparr>"
    have m1: "memOk (memOnly ?db1)" using Cons.prems(5) by (simp add: memOk_def dbView_lsm)
    obtain db2 where db2: "scanLoop replayRecord (logOf ?rs) 0 ?db1 = (db2, length (logOf ?rs), None)"
      "memOk (memOnly db2)" "sameFiles ?db1 db2"
      "map_of (Iterator (memtable db2)) = fold (\<lambda>r m. m(Key r \<mapsto> Value r)) ?rs (map_of (Iterator (memtable ?db1)))"
      "memSize db2 = memSize ?db1 + sum_list (map recBytes ?rs)"
      using replay_segment [OF m1 ok tornTail_Nil] by auto
    have sc: "scanSegment ?q replayRecord ?db1 w = ((db2, length (logOf ?rs), None), w)"
      using assms(1) f db2(1) by (simp add: scanSegment_def)
    define db3 where "db3 = db2\<lparr>segments := AList.update i ?seg (segments db2)\<rparr>"
    have m3: "memOk (memOnly db3)" using db2(2) by (simp add: memOk_def dbView_lsm db3_def)
    have step: "openAndScanLoop (i # ids) db w = openAndScanLoop ids db3 w"
      using sc openSegmentReadOnly_calm [OF assms(1) f] False by (simp add: db3_def)
    obtain db' w' where IH: "openAndScanLoop ids db3 w = ((None, db'), w')" "scanned ids w t db3 db' w'"
      using Cons.IH [OF False _ _ _ m3] Cons.prems False by auto
    have "scanned (i # ids) w t db db' w'"
      using IH(2) db2(3-5) False Cons.prems(2) unfolding scanned_def
      by (simp add: db3_def sameFiles_def update_conv' distinct_update)
    then show ?thesis using step IH(1) by simp
  qed
qed simp

section \<open>Opening a directory\<close>

lemma log_cong:
  assumes "lookupFile (segmentPath i) w' = lookupFile (segmentPath i) w"
  shows "logClean w' i = logClean w i" "logTorn w' i t = logTorn w i t"
  using assms recordsAt_cong [OF assms] by (simp_all add: logClean_def logTorn_def)

lemma memOk_fresh: "memOk (memOnly ((freshDB o0)\<lparr>ssNextID := i, ssReaders := rs\<rparr>))"
proof -
  have "dbView (memOnly ((freshDB o0)\<lparr>ssNextID := i, ssReaders := rs\<rparr>)) = Map.empty"
    by (simp add: fun_eq_iff dbView_def layers_def freshDB_def art.empty_iter)
  then show ?thesis by (simp add: memOk_def freshDB_def art.empty_inv art.empty_iter)
qed

text \<open>The database \<open>load\<close> builds, before the recount of live keys.\<close>

lemma dbOk_opened:
  assumes d: "diskRepBy w m t T" and sc: "scanned (mOrder m) w t db2 db3 w3"
    and db2: "segments db2 = []" "Iterator (memtable db2) = []"
      "ssReaders db2 = map (\<lambda>i. readerOf (sstFilePath i) (T i)) (rev (mSstIDs m))"
      "idsValid (ssNextID db2) (mSstIDs m)"
    and db: "db = db3\<lparr>order := mOrder m, nextID := mNextID m, liveKeys := n\<rparr>"
    and seg: "\<And>i. lookupFile (segmentPath i) w' = (if i \<in> set (mOrder m) then lookupFile (segmentPath i) w3 else None)"
    and oth: "\<And>p. (\<forall>i. p \<noteq> segmentPath i) \<Longrightarrow> lookupFile p w' = lookupFile p w3"
  shows "currentSSTIDs db = mSstIDs m" "dbView db = diskMap w m T" "list_all readerOk (ssReaders db)"
    and "map_of (Iterator (memtable db)) = replayLog (concat (map (recordsAt w) (mOrder m)))"
    and "map CompactionIterator (ssReaders db) = map T (rev (mSstIDs m))"
    and "cutTail t = [] \<Longrightarrow> memOk db \<Longrightarrow> dbOk db w'" "cutTail t = [] \<Longrightarrow> synced db w'"
    and "cutTail t = [] \<Longrightarrow> i \<in> set (mOrder m) \<Longrightarrow> recordsAt w' i = recordsAt w i"
    and "cutTail t = [] \<Longrightarrow> overlay (replayLog (logRecords db w')) (map CompactionIterator (ssReaders db)) = dbView db"
proof -
  have rd: "ssReaders db = map (\<lambda>i. readerOf (sstFilePath i) (T i)) (rev (mSstIDs m))" using sc db2(3) by (simp add: db scanned_def)
  have tab: "sstOk (T i)" "lookupFile (sstFilePath i) w = Some (sstImage (T i))" if "i \<in> set (mSstIDs m)" for i
    using d that by (auto simp: diskRepBy_def)
  show ids: "currentSSTIDs db = mSstIDs m" by (simp add: currentSSTIDs_def rd comp_def rev_map [symmetric])
  show it: "map CompactionIterator (ssReaders db) = map T (rev (mSstIDs m))"
    using tab(1) by (simp add: rd CompactionIterator_readerOf)
  show rok: "list_all readerOk (ssReaders db)" using tab(1) readerOk_readerOf by (auto simp: rd list_all_iff)
  show mem: "map_of (Iterator (memtable db)) = replayLog (concat (map (recordsAt w) (mOrder m)))"
    using sc db2(2) by (simp add: scanned_def db replayLog_def)
  show view: "dbView db = diskMap w m T" unfolding dbView_overlay it mem diskMap_def ..
  let ?a = "last (mOrder m)"
  have ord: "mOrder m \<noteq> []" "distinct (mOrder m)" "manifestValid m" using d by (auto simp: diskRepBy_def manifestValid_def idsValid_def)
  assume cut: "cutTail t = []"
  have fl: "lookupFile (segmentPath i) w' = Some (logOf (recordsAt w i))" "list_all logRecOk (recordsAt w i)"
    if i: "i \<in> set (mOrder m)" for i
  proof -
    have "logClean w i" if "i \<noteq> ?a" using d i that set_last_butlast [OF ord(1,2)] by (auto simp: diskRepBy_def list_all_iff)
    moreover have "logTorn w ?a t" using d by (simp add: diskRepBy_def)
    ultimately show "lookupFile (segmentPath i) w' = Some (logOf (recordsAt w i))" "list_all logRecOk (recordsAt w i)"
      using seg [of i] i sc cut by (cases "i = ?a"; auto simp: scanned_def logClean_def logTorn_def)+
  qed
  have rec: "recordsAt w' i = recordsAt w i" if "i \<in> set (mOrder m)" for i by (rule recordsAt_log [OF fl [OF that]])
  then show "i \<in> set (mOrder m) \<Longrightarrow> recordsAt w' i = recordsAt w i" .
  have "logRecords db w' = concat (map (recordsAt w) (mOrder m))" using rec by (simp add: logRecords_def db cong: map_cong)
  then show "overlay (replayLog (logRecords db w')) (map CompactionIterator (ssReaders db)) = dbView db"
    using view unfolding it diskMap_def by simp
  have top: "lookupFile p w' = lookupFile p w" if "\<forall>i. p \<noteq> segmentPath i" for p using oth [OF that] sc that by (auto simp: scanned_def)
  show "synced db w'"
    using d ord(3) ids top [of "Top manifestName"] by (intro syncedI [of _ m]) (auto simp: diskRepBy_def db)
  assume "memOk db"
  moreover have "shapeOk db"
  proof -
    have sm: "map_of (segments db) i = (if i \<in> set (mOrder m)
        then Some \<lparr>sid = i, ssize = length (logOf (recordsAt w i))\<rparr> else None)" for i
      using sc db2(1) by (simp add: scanned_def db)
    have "set (map fst (segments db)) = dom (map_of (segments db))" by (simp add: dom_map_of_conv_image_fst)
    also have "\<dots> = set (mOrder m)" unfolding dom_def sm by auto
    finally show ?thesis
      using ord sc db2(1,4) ids by (simp add: shapeOk_def) (simp add: db scanned_def manifestValid_def)
  qed
  moreover have "segOk w' (segments db) i" if "i \<in> set (mOrder m)" for i
    using segOkI [OF fl [OF that]] sc that by (simp add: scanned_def db)
  moreover have "list_all (tableAt w') (ssReaders db)"
    using tab readerOk_readerOf top by (auto simp: list_all_iff rd tableAt_def CompactionIterator_readerOf)
  moreover have "\<forall>i. lookupFile (segmentPath i) w' \<noteq> None \<longrightarrow> i < nextID db"
    using seg ord(3) by (auto simp: db manifestValid_def idsValid_def split: if_splits)
  ultimately show "dbOk db w'" by (simp add: dbOk_def list_all_iff db)
qed

text \<open>What \<open>Open\<close> returns for a directory that \<open>m\<close>, a torn tail \<open>t\<close> and the tables \<open>T\<close> describe.\<close>

definition opened :: "Options \<Rightarrow> world \<Rightarrow> manifest \<Rightarrow> bytes \<Rightarrow> (u32 \<Rightarrow> entry list) \<Rightarrow> DB \<Rightarrow> world \<Rightarrow> bool" where
  "opened o0 w m t T db w' \<longleftrightarrow> calm w' \<and> dbView db = diskMap w m T \<and> opts db = normalizeOpts o0 \<and>
    order db = mOrder m \<and> currentSSTIDs db = mSstIDs m \<and> nextID db = mNextID m \<and>
    ssNextID db = (if mNextSSTID m = 0 then 1 else mNextSSTID m) \<and>
    map_of (Iterator (memtable db)) = replayLog (concat (map (recordsAt w) (mOrder m))) \<and>
    map CompactionIterator (ssReaders db) = map T (rev (mSstIDs m)) \<and>
    activeSeg db = Some \<lparr>sid = last (mOrder m), ssize = length (logOf (recordsAt w (last (mOrder m))))\<rparr> \<and>
    memSize db = sum_list (map recBytes (concat (map (recordsAt w) (mOrder m)))) \<and>
    (\<forall>p \<in> manifestFiles m. lookupFile p w' =
      (if p = segmentPath (last (mOrder m)) then Some (logOf (recordsAt w (last (mOrder m))) @ cutTail t) else lookupFile p w)) \<and>
    (ssReaders db = [] \<longrightarrow> memOk db) \<and> treeOk (memtable db) \<and> list_all readerOk (ssReaders db) \<and>
    (\<forall>x \<in> set (Iterator (memtable db)). valOk (snd x)) \<and>
    (ssReaders db \<noteq> [] \<longrightarrow> liveKeys db = int (length (Scan db None None))) \<and>
    (cutTail t = [] \<longrightarrow> (memOk db \<longrightarrow> dbOk db w') \<and> synced db w' \<and>
       (\<forall>i \<in> set (mOrder m). recordsAt w' i = recordsAt w i) \<and>
       overlay (replayLog (logRecords db w')) (map CompactionIterator (ssReaders db)) = dbView db)"

lemma Open_diskRep:
  assumes w: "calm w" and d: "diskRepBy w m t T"
  shows "\<exists>db w'. Open o0 w = (Inr db, w') \<and> opened o0 w m t T db w'"
proof -
  let ?ids = "mSstIDs m" and ?ss = "if mNextSSTID m = 0 then 1 else mNextSSTID m"
  have m: "manifestValid m" "mOrder m \<noteq> []" "lookupFile (Top manifestName) w = Some (manifestBytes m)"
    "\<forall>i \<in> set ?ids. sstOk (T i) \<and> lookupFile (sstFilePath i) w = Some (sstImage (T i))"
    using d by (auto simp: diskRepBy_def)
  define db2 where "db2 = (freshDB (normalizeOpts o0))\<lparr>ssNextID := ?ss,
    ssReaders := map (\<lambda>i. readerOf (sstFilePath i) (T i)) (rev ?ids)\<rparr>"
  have ost: "openSSTables ?ids ((freshDB (normalizeOpts o0))\<lparr>ssNextID := ?ss\<rparr>) w = ((None, db2), w)"
    using openSSTables_calm [OF w m(4)] by (simp add: db2_def freshDB_def)
  define w2 where "w2 = cleanupOrphanedSSTs ?ids w"
  have w2: "calm w2" "\<And>n. lookupFile (Top n) w2 = lookupFile (Top n) w"
    "\<And>i. i \<in> set ?ids \<Longrightarrow> lookupFile (sstFilePath i) w2 = lookupFile (sstFilePath i) w"
    using cleanupOrphanedSSTs_calm [OF w, of ?ids] by (auto simp: w2_def)
  have sg: "lookupFile (segmentPath i) w2 = lookupFile (segmentPath i) w" for i using w2(2) by (simp add: segmentPath_def)
  have rec: "recordsAt w2 = recordsAt w" using recordsAt_cong [OF sg] by blast
  have d2: "diskRepBy w2 m t T" using d w2(2,3) log_cong [OF sg] by (simp add: diskRepBy_def list_all_iff)
  have dm: "diskMap w2 m T = diskMap w m T" by (simp add: diskMap_def rec)
  have "memOk (memOnly db2)" unfolding db2_def by (rule memOk_fresh)
  then obtain db3 w3 where o: "openAndScanLoop (mOrder m) db2 w2 = ((None, db3), w3)" "scanned (mOrder m) w2 t db2 db3 w3"
    using openAndScanLoop_calm [OF w2(1) m(2), of t db2] d2 m(1) by (auto simp: diskRepBy_def manifestValid_def idsValid_def)
  define db4 where "db4 = db3\<lparr>order := mOrder m, nextID := mNextID m\<rparr>"
  define w4 where "w4 = cleanupLeakedSegments db4 w3"
  define n where "n = (if ssReaders db4 \<noteq> [] then int (length (collectScan db4 None None)) else liveKeys db4)"
  define db5 where "db5 = db3\<lparr>order := mOrder m, nextID := mNextID m, liveKeys := n\<rparr>"
  have c3: "calm w3" "memOk (memOnly db3)" "opts db3 = normalizeOpts o0" using o(2) by (simp_all add: scanned_def db2_def freshDB_def)
  have w4: "calm w4" "\<And>i. lookupFile (segmentPath i) w4 = (if i \<in> set (mOrder m) then lookupFile (segmentPath i) w3 else None)"
    "\<And>p. (\<forall>i. p \<noteq> segmentPath i) \<Longrightarrow> lookupFile p w4 = lookupFile p w3"
    using cleanupLeakedSegments_calm [OF c3(1), of db4] by (simp_all add: w4_def db4_def)
  have "load (freshDB (normalizeOpts o0)) w = ((None, db5), w4)"
    using readManifest_calm [OF w m(3,1)] m(2) ost o(1)
    by (simp add: load_def Let_def openAndScan_def w2_def [symmetric] db4_def [symmetric] w4_def [symmetric])
      (cases db3, simp add: db5_def db4_def n_def)
  then have "Open o0 w = (Inr db5, w4)" using w by (simp add: Open_def mkdirTop_def)
  moreover have iv: "idsValid (ssNextID db2) ?ids"
    using m(1) by (auto simp: db2_def manifestValid_def idsValid_def split: if_splits)
  note op = dbOk_opened [OF d2 o(2) _ _ _ iv db5_def w4(2,3)]
  moreover have "memOk db5" if "ssReaders db5 = []"
  proof -
    have "ssReaders db3 = []" using that by (simp add: db5_def)
    then have "memOk db3" using c3(2) by (cases db3) simp
    then show ?thesis using that by (simp add: memOk_def db5_def db4_def n_def dbView_lsm)
  qed
  moreover have "liveKeys db5 = int (length (Scan db5 None None))" if "ssReaders db5 \<noteq> []"
    using that by (simp add: db5_def n_def db4_def Scan_def collectScan_def memtableRangeIter_def)
  moreover have "treeOk (memtable db5)" "\<forall>x \<in> set (Iterator (memtable db5)). valOk (snd x)"
    using memOkD(1,3) [OF c3(2)] by (simp_all add: db5_def)
  moreover have "ssNextID db5 = ?ss" using o(2) by (simp add: db5_def scanned_def db2_def)
  moreover have "activeSeg db5 = Some \<lparr>sid = last (mOrder m), ssize = length (logOf (recordsAt w (last (mOrder m))))\<rparr>"
    using o(2) m(2) by (simp add: db5_def scanned_def activeSeg_def rec)
  moreover have "memSize db5 = sum_list (map recBytes (concat (map (recordsAt w) (mOrder m))))"
    using o(2) by (simp add: db5_def scanned_def db2_def freshDB_def rec)
  moreover have "lookupFile p w4 = (if p = segmentPath (last (mOrder m)) then Some (logOf (recordsAt w (last (mOrder m))) @ cutTail t)
      else lookupFile p w)" if "p \<in> insert (Top manifestName) (segmentPath ` set (mOrder m) \<union> sstFilePath ` set ?ids)" for p
  proof -
    have "lookupFile p w4 = lookupFile p w3"
    proof (cases "p \<in> segmentPath ` set (mOrder m)")
      case True
      then show ?thesis using w4(2) by auto
    next
      case False
      then show ?thesis using that by (intro w4(3)) auto
    qed
    moreover have "lookupFile p w2 = lookupFile p w" using that w2(2,3) sg by auto
    ultimately show ?thesis using o(2) by (simp add: scanned_def rec)
  qed
  ultimately show ?thesis using w4(1) c3(3) dm
    unfolding opened_def by (intro exI [of _ db5] exI [of _ w4])
      (simp add: db2_def freshDB_def art.empty_iter rec, simp add: db5_def)
qed

end
