(* ===== verification/Kora_Durability.thy ===== *)
theory Kora_Durability
  imports Kora_Recovery
begin

text \<open>
  What survives a restart. A durable database comes back with its view; \<open>Open\<close> of an empty
  directory gives an empty, durable database; writes, flushes and table compaction keep
  durability. The two exceptions are stated as theorems too: a rollover while tables exist,
  and a log compaction while tables exist.
\<close>

section \<open>Lookups without the counter\<close>

lemma dbGet_weak:
  assumes "treeOk (memtable db)" "list_all readerOk (ssReaders db)"
  shows "dbGet db k = Inr (dbView db k)"
  using lsm.view_mem [OF assms(1), of "ssReaders db" k] lsm.search_view [OF assms(2), of k]
  by (auto simp: dbGet_def dbView_lsm split: option.splits)

lemma Scan_count:
  assumes "treeOk (memtable db)" "list_all readerOk (ssReaders db)" "\<forall>x \<in> set (Iterator (memtable db)). valOk (snd x)"
    and "noEmptyKey db"
  shows "length (Scan db None None) = card (dom (dbView db))"
proof -
  let ?db = "db\<lparr>liveKeys := int (card (dom (dbView db)))\<rparr>"
  have v: "dbView ?db = dbView db" by (simp add: dbView_lsm)
  have "memOk ?db" using assms(1-3) v by (simp add: memOk_def)
  moreover have "noEmptyKey ?db" using assms(4) by (simp add: noEmptyKey_def layers_def)
  moreover have "Scan ?db None None = Scan db None None" by (simp add: Scan_lsm)
  ultimately show ?thesis using Scan_all_length [of ?db] by simp
qed

lemma replayLog_dom: "dom (replayLog rs) = Key ` set rs"
proof (induction rs rule: rev_induct)
  case (snoc r rs)
  then show ?case by (simp del: fun_upd_apply)
qed simp

lemma replayLog_mem: "replayLog rs k = Some v \<Longrightarrow> \<exists>r \<in> set rs. Key r = k \<and> Value r = v"
  by (induction rs rule: rev_induct) (auto split: if_splits)

text \<open>The empty key occurs neither in the log nor in the tables.\<close>

definition emptyFree :: "DB \<Rightarrow> world \<Rightarrow> bool" where
  "emptyFree db w \<longleftrightarrow> (\<forall>r \<in> set (logRecords db w). Key r \<noteq> []) \<and>
     (\<forall>r \<in> set (ssReaders db). [] \<notin> fst ` set (CompactionIterator r))"

section \<open>Closing and reopening\<close>

lemma closeReaders_calm [simp]: "calm w \<Longrightarrow> closeReaders rs w = w"
  by (induction rs) (simp_all add: closeReaders_def)

lemma closeSegments_calm [simp]: "calm w \<Longrightarrow> closeSegments segs w = (None, w)"
  by (induction segs) (auto simp: segClose_def)

lemma dbClose_calm: "calm w \<Longrightarrow> dbClose db w = ((None, db\<lparr>ssReaders := [], segments := [], active := None\<rparr>), w)"
  by (simp add: dbClose_def closeAll_def)

lemma opened_ok:
  assumes op: "opened o0 w m t T db w'" and cut: "cutTail t = []"
    and ne: "mSstIDs m = [] \<or> (\<forall>r \<in> set (concat (map (recordsAt w) (mOrder m))). Key r \<noteq> []) \<and>
      (\<forall>i \<in> set (mSstIDs m). [] \<notin> fst ` set (T i))"
  shows "dbOk db w' \<and> durable db w'"
proof -
  note o = op [unfolded opened_def]
  have "memOk db"
  proof (cases "ssReaders db = []")
    case False
    then have "mSstIDs m \<noteq> []" using o by auto
    then have n: "\<forall>r \<in> set (concat (map (recordsAt w) (mOrder m))). Key r \<noteq> []" "\<forall>i \<in> set (mSstIDs m). [] \<notin> fst ` set (T i)"
      using ne by blast+
    have "fst ` set (Iterator (memtable db)) = Key ` set (concat (map (recordsAt w) (mOrder m)))"
      using o replayLog_dom by (metis dom_map_of_conv_image_fst)
    moreover have "CompactionIterator ` set (ssReaders db) = T ` set (mSstIDs m)" using o by (metis set_map set_rev)
    moreover have "[] \<notin> Key ` set (concat (map (recordsAt w) (mOrder m)))" using n(1) by force
    ultimately have "noEmptyKey db" using n(2) unfolding noEmptyKey_layers layers_def by auto
    then show ?thesis using Scan_count [of db] o False by (simp add: memOk_def)
  qed (use o in simp)
  then show ?thesis using o cut by (auto simp: durable_def)
qed

lemma reopen:
  assumes "calm w" "dbOk db w" "durable db w" "ssReaders db = [] \<or> emptyFree db w"
  shows "\<exists>db' w'. Open o0 w = (Inr db', w') \<and> calm w' \<and> dbOk db' w' \<and> durable db' w' \<and> dbView db' = dbView db \<and>
    dbLen db' = dbLen db \<and> order db' = order db \<and> currentSSTIDs db' = currentSSTIDs db"
proof -
  obtain m T where m: "diskRepBy w m [] T" "diskMap w m T = dbView db" "mOrder m = order db" "mSstIDs m = currentSSTIDs db"
    "map T (rev (mSstIDs m)) = map CompactionIterator (ssReaders db)"
    by (rule durable_diskRep [OF assms(2,3)])
  obtain db' w' where op: "Open o0 w = (Inr db', w')" "opened o0 w m [] T db' w'"
    using Open_diskRep [OF assms(1) m(1)] by blast
  have "T ` set (mSstIDs m) = CompactionIterator ` set (ssReaders db)" using m(5) by (metis set_map set_rev)
  then have tabs: "(\<forall>i \<in> set (mSstIDs m). [] \<notin> fst ` set (T i)) \<longleftrightarrow> (\<forall>r \<in> set (ssReaders db). [] \<notin> fst ` set (CompactionIterator r))"
    by (metis (no_types, lifting) image_iff)
  have "cutTail [] = []" by (simp add: cutTail_def)
  from opened_ok [OF op(2) this] have ok: "dbOk db' w' \<and> durable db' w'"
    using assms(4) m(3-5) tabs by (auto simp: emptyFree_def logRecords_def)
  moreover have v: "dbView db' = dbView db" using op(2) m(2) by (simp add: opened_def)
  moreover have "dbLen db' = dbLen db"
    using memOkD(4) dbOk_mem ok assms(2) v by (metis dbLen_def)
  ultimately show ?thesis using op m(3,4) by (auto simp: opened_def)
qed

section \<open>A new directory\<close>

lemma Open_empty:
  assumes w: "calm w" and top: "topdir w = []"
  shows "\<exists>db w'. Open o0 w = (Inr db, w') \<and> calm w' \<and> dbOk db w' \<and> durable db w' \<and> dbView db = Map.empty \<and>
    opts db = normalizeOpts o0 \<and> nextID db = 2 \<and> ssNextID db = 1 \<and> storedEntries db = 0 \<and> ssReaders db = []"
proof -
  have none: "lookupFile (Top n) w = None" for n using top by (simp add: lookupFile.simps)
  then have seg: "lookupFile (segmentPath i) w = None" for i by (simp add: segmentPath_def)
  define db where "db = (freshDB (normalizeOpts o0))\<lparr>segments := [(1, \<lparr>sid = 1, ssize = 0\<rparr>)], active := Some 1,
    order := [1], nextID := 2\<rparr>"
  let ?w1 = "putFile (segmentPath 1) [] w"
  let ?m = "\<lparr>mNextID = 2, mOrder = [1], mNextSSTID = 1, mSstIDs = []\<rparr>"
  obtain w' where w': "writeManifest ?m ?w1 = (None, w')" "calm w'" "lookupFile (Top manifestName) w' = Some (manifestBytes ?m)"
    "\<And>p. p \<noteq> Top manifestName \<Longrightarrow> p \<noteq> Top manifestTmpName \<Longrightarrow> lookupFile p w' = lookupFile p ?w1"
    using writeManifest_calm [of ?w1 ?m] w by auto
  have rm: "readManifest w = (Inl ErrNoManifest, w)" using w none by (simp add: readManifest_def openRead_def)
  have ls: "listSegmentIDs w = (Inr [], w)"
    using w top by (simp add: listSegmentIDs_def readDirTop_def sortIDs_def List.map_filter_def)
  have "load (freshDB (normalizeOpts o0)) w = ((None, db), w')"
    using rm ls createSegment_calm [OF w seg] w'(1)
    by (simp add: load_def bootstrap_def writeManifestLocked_def currentSSTIDs_def db_def freshDB_def)
  then have "Open o0 w = (Inr db, w')" using w by (simp add: Open_def mkdirTop_def)
  moreover have view: "dbView db = Map.empty"
    by (simp add: fun_eq_iff dbView_def layers_def db_def freshDB_def art.empty_iter)
  have new: "lookupFile (segmentPath 1) w' = Some []" "i \<noteq> 1 \<Longrightarrow> lookupFile (segmentPath i) w' = None" for i
    using w'(4) seg by simp_all
  have "memOk db" using view by (simp add: memOk_def db_def freshDB_def art.empty_inv art.empty_iter)
  moreover have "shapeOk db" by (simp add: shapeOk_def db_def freshDB_def currentSSTIDs_def idsValid_def)
  moreover have "segOk w' (segments db) 1" using segOkI [of 1 w' "[]"] new(1) by (simp add: db_def)
  moreover have "i < 2" if "lookupFile (segmentPath i) w' \<noteq> None" for i :: u32
    using new(2) [of i] that by (cases "i = 1") simp_all
  ultimately have ok: "dbOk db w'" by (auto simp: dbOk_def db_def freshDB_def)
  have "logRecords db w' = []" using recordsAt_log [of 1 w' "[]"] new(1) by (simp add: logRecords_def db_def)
  moreover have "synced db w'"
    using w'(3) by (intro syncedI [of _ ?m]) (simp_all add: manifestValid_def idsValid_def db_def freshDB_def currentSSTIDs_def)
  ultimately have "durable db w'" using view by (simp add: durable_def overlay_empty fun_eq_iff db_def freshDB_def)
  with \<open>Open o0 w = (Inr db, w')\<close> ok view w'(2) show ?thesis
    by (simp add: db_def freshDB_def storedEntries_def tableEntries_def art.empty_iter)
qed

section \<open>What keeps durability\<close>

text \<open>The states in which an operation is safe: no rollover and no log compaction over tables.\<close>

fun safeOp :: "DB \<Rightarrow> storeOp \<Rightarrow> bool" where
  "safeOp db (OpSet now k v) \<longleftrightarrow> ssReaders db = [] \<or> \<not> rolls db"
| "safeOp db (OpDel now k) \<longleftrightarrow> ssReaders db = [] \<or> \<not> rolls db"
| "safeOp db OpCompact \<longleftrightarrow> ssReaders db = []"
| "safeOp db OpCompactSSTables \<longleftrightarrow> True"

lemma applyOp_durable:
  assumes "calm w" "dbOk db w" "durable db w" "hasRoom 1 db" "legalOp op" "safeOp db op" "\<And>xs. mset (ord xs) = mset xs"
  shows "\<exists>db' w'. applyOp ord op db w = ((None, db'), w') \<and> calm w' \<and> dbOk db' w' \<and> durable db' w' \<and>
    dbView db' = specOp op (dbView db)"
proof (cases op)
  case (OpSet now k v)
  then show ?thesis using dbSet_calm [OF assms(1,2,4), of k v now] assms(3,5,6) by auto
next
  case (OpDel now k)
  then show ?thesis using dbDelete_calm [OF assms(1,2,4), of k now] assms(3,5,6) by auto
next
  case OpCompact
  have "unat (nextID db) + 1 < 2 ^ 32" using assms(4) by (auto simp: hasRoom_def)
  from Compact_calm [OF assms(1,2) this assms(7)] show ?thesis
    using OpCompact assms(3,6) sameMem_view by auto
next
  case OpCompactSSTables
  have "unat (ssNextID db) + 1 < 2 ^ 32" "tableEntries db \<le> 429496728" using assms(4) by (auto simp: hasRoom_def storedEntries_def)
  from CompactSSTables_calm [OF assms(1,2) this] show ?thesis using OpCompactSSTables assms(3) by auto
qed

section \<open>Example directories\<close>

text \<open>Two segments with the records \<open>A\<close> (older) and \<open>B\<close> (active), one table with the entries \<open>es\<close>.\<close>

definition exampleManifest :: manifest where
  "exampleManifest = \<lparr>mNextID = 3, mOrder = [1, 2], mNextSSTID = 2, mSstIDs = [1]\<rparr>"

definition exampleDir :: "Record list \<Rightarrow> Record list \<Rightarrow> entry list \<Rightarrow> world" where
  "exampleDir A B es = \<lparr>topdir = [(manifestName, manifestBytes exampleManifest), (segmentName 1, logOf A), (segmentName 2, logOf B)],
     sstdir = Some [(sstName 1, sstImage es)], script = [], dead = False\<rparr>"

lemma exampleDir_files:
  "lookupFile (Top manifestName) (exampleDir A B es) = Some (manifestBytes exampleManifest)"
  "lookupFile (segmentPath 1) (exampleDir A B es) = Some (logOf A)"
  "lookupFile (segmentPath 2) (exampleDir A B es) = Some (logOf B)"
  "lookupFile (sstFilePath 1) (exampleDir A B es) = Some (sstImage es)"
  using manifest_not_segment(1) [of 1] manifest_not_segment(1) [of 2]
  by (auto simp: exampleDir_def lookupFile.simps segmentPath_def sstFilePath_def)

lemma exampleDir_opened:
  assumes "list_all logRecOk A" "list_all logRecOk B" "sstOk es"
    and "\<forall>r \<in> set (A @ B). Key r \<noteq> []" "[] \<notin> fst ` set es"
  shows "\<exists>db w. Open o0 (exampleDir A B es) = (Inr db, w) \<and> calm w \<and> dbOk db w \<and> durable db w \<and>
    opts db = normalizeOpts o0 \<and> order db = [1, 2] \<and> nextID db = 3 \<and> ssNextID db = 2 \<and> map CompactionIterator (ssReaders db) = [es] \<and>
    recordsAt w 1 = A \<and> recordsAt w 2 = B \<and> dbView db = overlay (replayLog (A @ B)) [es] \<and>
    map_of (Iterator (memtable db)) = replayLog (A @ B)"
proof -
  let ?w = "exampleDir A B es" and ?m = exampleManifest
  have rec: "recordsAt ?w 1 = A" "recordsAt ?w 2 = B" using recordsAt_log exampleDir_files(2,3) assms(1,2) by blast+
  have d: "diskRepBy ?w ?m [] (\<lambda>_. es)"
    using assms rec exampleDir_files [of A B es]
    by (simp add: diskRepBy_def logClean_def logTorn_def exampleManifest_def manifestValid_def idsValid_def)
  have "calm ?w" by (simp add: exampleDir_def calm_def)
  then obtain db w where op: "Open o0 ?w = (Inr db, w)" "opened o0 ?w ?m [] (\<lambda>_. es) db w"
    using Open_diskRep [OF _ d] by blast
  have ok: "dbOk db w \<and> durable db w"
    using assms(4,5) rec by (intro opened_ok [OF op(2)]) (auto simp: exampleManifest_def cutTail_def)
  have "opts db = normalizeOpts o0 \<and> order db = [1, 2] \<and> nextID db = 3 \<and> ssNextID db = 2 \<and> map CompactionIterator (ssReaders db) = [es] \<and>
      recordsAt w 1 = A \<and> recordsAt w 2 = B \<and> dbView db = overlay (replayLog (A @ B)) [es] \<and> calm w \<and>
      map_of (Iterator (memtable db)) = replayLog (A @ B)"
    using op(2) rec by (simp add: opened_def exampleManifest_def diskMap_def cutTail_def)
  then show ?thesis using op(1) ok rec by (auto simp: cutTail_def)
qed

section \<open>The two ways to lose durability\<close>

text \<open>What a manifest without tables opens to: the log alone.\<close>

lemma reopened_without_tables:
  assumes "calm w" "lookupFile (Top manifestName) w = Some (manifestBytes m)" "mSstIDs m = []" "idsValid (mNextID m) (mOrder m)"
    and "mOrder m \<noteq> []" "list_all (logClean w) (mOrder m)"
  shows "\<exists>db w'. Open o0 w = (Inr db, w') \<and> SSTableCount db = 0 \<and>
    (\<forall>k. dbGet db k = Inr (overlay (replayLog (concat (map (recordsAt w) (mOrder m)))) [] k))"
proof -
  have "list_all (logClean w) (butlast (mOrder m))" "logTorn w (last (mOrder m)) []"
    using assms(5,6) in_set_butlastD logClean_torn by (fastforce simp: list_all_iff)+
  then have "diskRepBy w m [] (\<lambda>_. [])" using assms by (simp add: diskRepBy_def manifestValid_def idsValid_def)
  from Open_diskRep [OF assms(1) this, of o0] obtain db w' where
    o: "Open o0 w = (Inr db, w')" "opened o0 w m [] (\<lambda>_. []) db w'" by blast
  have "dbView db = overlay (replayLog (concat (map (recordsAt w) (mOrder m)))) []"
    using o(2) assms(3) by (simp add: opened_def diskMap_def)
  then show ?thesis using o assms(3) dbGet_weak [of db] by (auto simp: opened_def SSTableCount_def)
qed

lemma rollover_reopened:
  assumes w: "calm w" "dbOk db w" and room: "unat (nextID db) + 1 < 2 ^ 32" and roll: "rolls db"
  shows "\<exists>db1 w1 db2 w2. maybeRollover db w = ((None, db1), w1) \<and> dbView db1 = dbView db \<and>
    Open o0 w1 = (Inr db2, w2) \<and> SSTableCount db2 = 0 \<and>
    (\<forall>k. dbGet db2 k = Inr (overlay (replayLog (logRecords db w)) [] k))"
proof -
  let ?m = "\<lparr>mNextID = nextID db + 1, mOrder = order db @ [nextID db], mNextSSTID = 0, mSstIDs = []\<rparr>"
  obtain db1 w1 where r: "maybeRollover db w = ((None, db1), w1)" "calm w1" "dbOk db1 w1" "sameMem db db1"
    "logRecords db1 w1 = logRecords db w" "order db1 = order db @ [nextID db]"
    "lookupFile (Top manifestName) w1 = Some (manifestBytes ?m)"
    using maybeRollover_calm [OF w room] roll by blast
  have "idsValid (nextID db + 1) (order db @ [nextID db])"
    using dbOk_shape [OF w(2)] idsValid_snoc [OF _ u32_less_Suc [OF room]] by (simp add: shapeOk_def)
  moreover have "list_all (logClean w1) (order db @ [nextID db])"
    using r(3,6) segOk_logClean by (auto simp: dbOk_def list_all_iff)
  ultimately show ?thesis
    using reopened_without_tables [OF r(2,7), of o0] r(1,4-6) sameMem_view by (auto simp: logRecords_def)
qed

lemma compact_reopened:
  assumes w: "calm w" "dbOk db w" and room: "unat (nextID db) + 1 < 2 ^ 32" and ord: "\<And>xs. mset (ord xs) = mset xs"
    and two: "butlast (order db) \<noteq> []"
  shows "\<exists>db1 w1 db2 w2. Compact ord db w = ((None, db1), w1) \<and> sameMem db db1 \<and>
    Open o0 w1 = (Inr db2, w2) \<and>
    (\<forall>k. dbGet db2 k = Inr (overlay (replayLog (mergedRecords ord (concat (map (recordsAt w) (butlast (order db)))) @
       recordsAt w (last (order db)))) (map CompactionIterator (ssReaders db)) k))"
proof -
  obtain db1 w1 where c: "Compact ord db w = ((None, db1), w1)" "calm w1" "dbOk db1 w1" "sameMem db db1" "synced db1 w1"
    "logRecords db1 w1 = mergedRecords ord (concat (map (recordsAt w) (butlast (order db)))) @ recordsAt w (last (order db))"
    using Compact_calm [OF w room ord] two by blast
  obtain m T where m: "diskRepBy w1 m [] T"
    "diskMap w1 m T = overlay (replayLog (logRecords db1 w1)) (map CompactionIterator (ssReaders db1))"
    by (rule synced_diskRep [OF c(3,5)])
  obtain db2 w2 where o: "Open o0 w1 = (Inr db2, w2)" "opened o0 w1 m [] T db2 w2" using Open_diskRep [OF c(2) m(1)] by blast
  have "ssReaders db1 = ssReaders db" using c(4) by (simp add: sameMem_def)
  then show ?thesis
    using c(1,4,6) o m(2) dbGet_weak [of db2] by (auto simp: opened_def)
qed

section \<open>Properties\<close>

text \<open>
  C4: The store is a map: after opening an empty directory, any sequence of legal sets, deletes
  and compactions (log and table, at any point, through rollovers and flushes as the size
  limits demand) succeeds when nothing fails, and then every lookup and the key count are
  those of the finite map the same sequence builds.
\<close>

theorem store_implements_map:
  assumes "calm w" "topdir w = []" "list_all legalOp ops" "length ops \<le> 429496728" "\<And>xs. mset (ord xs) = mset xs"
  shows "\<exists>db w1 db' w'. Open o0 w = (Inr db, w1) \<and> runSteps (storeStep ord) ops (db, w1) = Some (db', w') \<and>
    (\<forall>k. dbGet db' k = Inr (fold specOp ops Map.empty k)) \<and>
    dbLen db' = int (card (dom (fold specOp ops Map.empty)))"
proof -
  obtain db w1 where o: "Open o0 w = (Inr db, w1)" "calm w1" "dbOk db w1" "dbView db = Map.empty"
    "nextID db = 2" "ssNextID db = 1" "storedEntries db = 0"
    using Open_empty [OF assms(1,2), of o0] by blast
  have "storeInv (length ops + 0) (db, w1)" using o assms(4) by (simp add: storeInv_def hasRoom_def)
  then obtain db' w' where r: "runSteps (storeStep ord) ops (db, w1) = Some (db', w')" "storeInv 0 (db', w')"
    "dbView db' = fold specOp ops Map.empty"
    using store_run [OF _ assms(3,5), of 0 db w1] o(4) by auto
  have "memOk db'" using r(2) dbOk_mem by (auto simp: storeInv_def)
  then show ?thesis using o(1) r(1,3) dbGet_view memOkD(4) by (auto simp: dbLen_def)
qed

theorem store_implements_map_witness:
  "\<exists>db w1 db' w'. Open DefaultOptions \<lparr>topdir = [], sstdir = None, script = [], dead = False\<rparr> = (Inr db, w1) \<and>
     runSteps (storeStep rev) [OpSet 1 [97] (Some [1]), OpSet 2 [98] None, OpDel 3 [97], OpCompact, OpCompactSSTables] (db, w1)
       = Some (db', w') \<and>
     dbGet db' [97] = Inr None \<and> dbGet db' [98] = Inr (Some []) \<and> dbLen db' = 1"
proof -
  let ?ops = "[OpSet 1 [97] (Some [1]), OpSet 2 [98] None, OpDel 3 [97], OpCompact, OpCompactSSTables]"
  have "fold specOp ?ops Map.empty = [[98] \<mapsto> []]" by (auto simp: fun_eq_iff)
  then show ?thesis
    using store_implements_map [of "\<lparr>topdir = [], sstdir = None, script = [], dead = False\<rparr>" ?ops rev DefaultOptions]
    by (auto simp: calm_def keyOk_def maxPrefixLen_def lenOpt_def MaxValueSize_def)
qed

text \<open>
  C6: Durability of every operation: in a state whose directory represents its view, every legal
  operation that neither rolls over nor compacts the log while tables exist succeeds when
  nothing fails and leads to such a state again, with the view updated as specified.
\<close>

theorem operations_keep_durability:
  assumes "calm w" "dbOk db w" "durable db w" "hasRoom 1 db" "legalOp op" "safeOp db op" "\<And>xs. mset (ord xs) = mset xs"
  shows "\<exists>db' w'. applyOp ord op db w = ((None, db'), w') \<and> dbOk db' w' \<and> durable db' w' \<and>
    dbView db' = specOp op (dbView db)"
  using applyOp_durable [OF assms] by blast

theorem operations_keep_durability_witness:
  "\<exists>db w db' w'. Open DefaultOptions \<lparr>topdir = [], sstdir = None, script = [], dead = False\<rparr> = (Inr db, w) \<and>
     applyOp id (OpSet 1 [97] (Some [1])) db w = ((None, db'), w') \<and> durable db' w' \<and> dbView db' = [[97] \<mapsto> [1]]"
proof -
  obtain db w where o: "Open DefaultOptions \<lparr>topdir = [], sstdir = None, script = [], dead = False\<rparr> = (Inr db, w)"
    "calm w" "dbOk db w" "durable db w" "dbView db = Map.empty" "nextID db = 2" "ssNextID db = 1" "storedEntries db = 0" "ssReaders db = []"
    using Open_empty [of "\<lparr>topdir = [], sstdir = None, script = [], dead = False\<rparr>" DefaultOptions] by (auto simp: calm_def)
  then show ?thesis
    using operations_keep_durability [of w db "OpSet 1 [97] (Some [1])" id]
    by (auto simp: hasRoom_def keyOk_def maxPrefixLen_def lenOpt_def MaxValueSize_def)
qed



text \<open>
  C29: A rollover forgets the tables: the manifest it writes lists none, so a restart after it
  opens no table, deletes the table files as orphans, and answers from the log alone.
\<close>

theorem rollover_loses_tables:
  assumes "calm w" "dbOk db w" "unat (nextID db) + 1 < 2 ^ 32" "rolls db"
  shows "\<exists>db1 w1 db2 w2. maybeRollover db w = ((None, db1), w1) \<and> dbView db1 = dbView db \<and>
    Open o0 w1 = (Inr db2, w2) \<and> SSTableCount db2 = 0 \<and>
    (\<forall>k. dbGet db2 k = Inr (overlay (replayLog (logRecords db w)) [] k))"
  using assms by (rule rollover_reopened)

theorem rollover_loses_tables_witness:
  "\<exists>db w db1 w1 db2 w2.
     Open \<lparr>SyncOnWrite = True, MaxSegmentBytes = 1, MaxMemBytes = 0\<rparr>
       (exampleDir [] [\<lparr>Timestamp = 1, Key = [98], Value = Some [2]\<rparr>] [([97], Some [1])]) = (Inr db, w) \<and>
     dbGet db [97] = Inr (Some [1]) \<and> maybeRollover db w = ((None, db1), w1) \<and>
     Open DefaultOptions w1 = (Inr db2, w2) \<and> dbGet db2 [97] = Inr None"
proof -
  let ?B = "[\<lparr>Timestamp = 1, Key = [98], Value = Some [2]\<rparr> :: Record]" and ?es = "[([97], Some [1])] :: entry list"
  let ?o = "\<lparr>SyncOnWrite = True, MaxSegmentBytes = 1, MaxMemBytes = 0\<rparr>"
  have k: "list_all logRecOk ?B" "sstOk ?es"
    by (simp_all add: logRecOk_def keyOk_def maxPrefixLen_def valOk_def lenOpt_def MaxValueSize_def sstOk_def entryOk_def encEntry_def)
  then obtain db w where o: "Open ?o (exampleDir [] ?B ?es) = (Inr db, w)" "calm w" "dbOk db w" "opts db = normalizeOpts ?o"
    "order db = [1, 2]" "nextID db = 3" "recordsAt w 1 = []" "recordsAt w 2 = ?B" "dbView db = overlay (replayLog ([] @ ?B)) [?es]"
    using exampleDir_opened [of "[]" ?B ?es ?o] by auto
  have rolls: "rolls db"
    using activeSeg_last [OF o(3)] o(4,5,8) by (simp add: rolls_def normalizeOpts_def length_encRec Size_def HeaderSize_def)
  have rep: "replayLog ?B [97] = None" using replayLog_snoc [of "[]"] by simp
  have "dbGet db [97] = Inr (Some [1])"
    using dbGet_view [OF dbOk_mem [OF o(3)]] o(9) rep by (simp add: overlay_def)
  moreover have "overlay (replayLog (logRecords db w)) [] [97] = None" using o(5,7,8) rep by (simp add: logRecords_def overlay_def)
  ultimately show ?thesis using rollover_loses_tables [OF o(2,3) _ rolls, of DefaultOptions] o(1,6) by auto
qed

text \<open>
  C30: A log compaction over tables resurrects deleted keys: it drops a tombstone of the merged
  segments although a table still holds an older value, and after a restart that value is back.
\<close>

theorem compact_resurrects_deleted:
  assumes "calm w" "dbOk db w" "unat (nextID db) + 1 < 2 ^ 32" "\<And>xs. mset (ord xs) = mset xs" "butlast (order db) \<noteq> []"
    and "replayLog (concat (map (recordsAt w) (butlast (order db)))) k = Some None"
    and "replayLog (recordsAt w (last (order db))) k = None"
    and "layered (map CompactionIterator (ssReaders db)) k = Some (Some v)"
  shows "\<exists>db1 w1 db2 w2. Compact ord db w = ((None, db1), w1) \<and> (\<forall>x. dbGet db1 x = dbGet db x) \<and>
    Open o0 w1 = (Inr db2, w2) \<and> dbGet db2 k = Inr (Some v)"
proof -
  let ?S = "concat (map (recordsAt w) (butlast (order db)))"
  have "replayLog (mergedRecords ord ?S) k \<noteq> Some (Some x)" for x
    using mergedRecords_replay [OF assms(4), of ?S k] assms(6) by auto
  moreover have "replayLog (mergedRecords ord ?S) k \<noteq> Some None"
    using replayLog_mem [of "mergedRecords ord ?S" k None] by (auto simp: mergedRecords_def IsTombstone_def)
  ultimately have "replayLog (mergedRecords ord ?S) k = None" by (metis not_Some_eq)
  then have none: "replayLog (mergedRecords ord ?S @ recordsAt w (last (order db))) k = None"
    using assms(7) by (simp add: replayLog_append map_add_def)
  have same: "dbGet db1 = dbGet db" if "sameMem db db1" for db1 using that by (auto simp: sameMem_def dbGet_def fun_eq_iff split: option.splits)
  obtain db1 w1 db2 w2 where "Compact ord db w = ((None, db1), w1)" "sameMem db db1" "Open o0 w1 = (Inr db2, w2)"
    "dbGet db2 k = Inr (Some v)"
    using compact_reopened [OF assms(1-5), of o0] assms(8) none by (auto simp: overlay_def)
  then show ?thesis using same by metis
qed

theorem compact_resurrects_deleted_witness:
  "\<exists>db w db1 w1 db2 w2.
     Open DefaultOptions (exampleDir [\<lparr>Timestamp = 1, Key = [97], Value = None\<rparr>] [] [([97], Some [1])]) = (Inr db, w) \<and>
     dbGet db [97] = Inr None \<and> Compact id db w = ((None, db1), w1) \<and>
     Open DefaultOptions w1 = (Inr db2, w2) \<and> dbGet db2 [97] = Inr (Some [1])"
proof -
  let ?A = "[\<lparr>Timestamp = 1, Key = [97], Value = None\<rparr> :: Record]" and ?es = "[([97], Some [1])] :: entry list"
  have k: "list_all logRecOk ?A" "sstOk ?es"
    by (simp_all add: logRecOk_def keyOk_def maxPrefixLen_def valOk_def lenOpt_def MaxValueSize_def sstOk_def entryOk_def encEntry_def)
  then obtain db w where o: "Open DefaultOptions (exampleDir ?A [] ?es) = (Inr db, w)" "calm w" "dbOk db w"
    "order db = [1, 2]" "nextID db = 3" "map CompactionIterator (ssReaders db) = [?es]" "recordsAt w 1 = ?A" "recordsAt w 2 = []"
    "dbView db = overlay (replayLog (?A @ [])) [?es]"
    using exampleDir_opened [of ?A "[]" ?es DefaultOptions] by auto
  have rep: "replayLog ?A [97] = Some None" using replayLog_snoc [of "[]"] by simp
  have "dbGet db [97] = Inr None" using dbGet_view [OF dbOk_mem [OF o(3)]] o(9) rep by (simp add: overlay_def)
  then show ?thesis
    using compact_resurrects_deleted [OF o(2,3), of id "[97]" "[1]" DefaultOptions] o rep by auto
qed

section \<open>Reads\<close>

text \<open>
  C9: Point reads: on a database whose memory is sound, \<open>Get\<close> never fails and returns what the
  memtable and the tables, newest first, together say about the key: a deletion in a newer
  layer hides every older value.
\<close>

theorem get_reads_newest:
  assumes "memOk db"
  shows "dbGet db k = Inr (dbView db k)"
  using assms by (rule dbGet_view)

theorem get_reads_newest_witness:
  "\<exists>db w. Open DefaultOptions (exampleDir [\<lparr>Timestamp = 1, Key = [97], Value = None\<rparr>] [] [([97], Some [1]), ([98], Some [2])]) = (Inr db, w) \<and>
     dbGet db [97] = Inr None \<and> dbGet db [98] = Inr (Some [2])"
proof -
  let ?A = "[\<lparr>Timestamp = 1, Key = [97], Value = None\<rparr> :: Record]" and ?es = "[([97], Some [1]), ([98], Some [2])] :: entry list"
  obtain db w where o: "Open DefaultOptions (exampleDir ?A [] ?es) = (Inr db, w)" "dbOk db w"
    "dbView db = overlay (replayLog (?A @ [])) [?es]"
    using exampleDir_opened [of ?A "[]" ?es DefaultOptions]
    by (auto simp: logRecOk_def keyOk_def maxPrefixLen_def valOk_def lenOpt_def MaxValueSize_def sstOk_def entryOk_def encEntry_def)
  have rep: "replayLog ?A [97] = Some None" "replayLog ?A [98] = None" using replayLog_snoc [of "[]"] by simp_all
  then show ?thesis using get_reads_newest [OF dbOk_mem [OF o(2)]] o(1,3) by (auto simp: overlay_def)
qed



end
