(* ===== verification/Kora_Server.thy ===== *)
theory Kora_Server
  imports Kora_Proto Kora_Durability
begin

text \<open>
  Package server: one connection's read, dispatch and reply loop over the store. A connection
  is what its peer sends before it closes, what it was sent, and how much it will still accept.
  Here a connection has the store for itself; \<open>Kora_Goroutine\<close> runs several of them at once and
  \<open>Kora_Daemon\<close> adds the listener.
  A panic in a handler ends the process, since nothing recovers it.
\<close>

section \<open>The environment\<close>

text \<open>
  What the server takes from its surroundings: the Unicode tables, the texts of errors that
  come from the operating system or are formatted by the store, and the order in which
  \<open>Compact\<close> ranges over its map.
\<close>

record serverEnv =
  uni :: unicodeLib
  sysText :: "err \<Rightarrow> bytes"
  mapOrd :: "Record list \<Rightarrow> Record list"

definition errText :: "serverEnv \<Rightarrow> err \<Rightarrow> bytes" where
  "errText env e =
     (case e of
        ErrCorrupted \<Rightarrow> str ''record: checksum mismatch''
      | ErrKeyTooLarge \<Rightarrow> str ''record: key exceeds MaxKeySize''
      | ErrValueTooLarge \<Rightarrow> str ''record: value exceeds MaxValueSize''
      | ErrPartialTail \<Rightarrow> str ''store: partial trailing record''
      | ErrManifestCorrupt \<Rightarrow> str ''store: manifest corrupt''
      | EOF \<Rightarrow> str ''EOF''
      | UnexpectedEOF \<Rightarrow> str ''unexpected EOF''
      | _ \<Rightarrow> sysText env e)"

definition asciiUpper :: "byte \<Rightarrow> byte" where
  "asciiUpper c = (if 97 \<le> c \<and> c \<le> 122 then c - 32 else c)"

definition goUpper :: "unicodeLib \<Rightarrow> bytes \<Rightarrow> bytes" where
  "goUpper U s = (if isAscii s then map asciiUpper s else uniUpper U s)"

text \<open>\<open>append([]byte(nil), b...)\<close>: the copies \<open>Scan\<close> hands out are nil when \<open>b\<close> is empty.\<close>

definition appendNil :: "bytes \<Rightarrow> bytes option" where
  "appendNil b = (if b = [] then None else Some b)"

section \<open>Commands\<close>

datatype reply = Reply bytes | Crashed

definition errReply :: "serverEnv \<Rightarrow> err \<Rightarrow> reply" where
  "errReply env e = (if e = Panic then Crashed else Reply (WriteError (errText env e)))"

text \<open>The loop of \<open>DEL\<close>; \<open>clock i\<close> is the time \<open>Delete\<close> reads for the \<open>i\<close>-th key.\<close>

fun delLoop :: "(nat \<Rightarrow> u64) \<Rightarrow> nat \<Rightarrow> bytes list \<Rightarrow> int \<Rightarrow> DB \<Rightarrow> world \<Rightarrow> (err + int) \<times> DB \<times> world" where
  "delLoop clock i [] n db w = (Inr n, db, w)"
| "delLoop clock i (key # ks) n db w =
     (case dbGet db key of
        Inl e \<Rightarrow> (Inl e, db, w)
      | Inr v \<Rightarrow>
          let n' = (if v \<noteq> None then n + 1 else n) in
          (case dbDelete (clock i) key db w of
             ((Some e, db1), w1) \<Rightarrow> (Inl e, db1, w1)
           | ((None, db1), w1) \<Rightarrow> delLoop clock (Suc i) ks n' db1 w1))"

definition scanReply :: "(bytes \<times> bytes) list \<Rightarrow> bytes" where
  "scanReply pairs =
     WriteArrayLen (length pairs * 2) @
     concat (map (\<lambda>p. WriteBulkString (appendNil (fst p)) @ WriteBulkString (appendNil (snd p))) pairs)"

text \<open>An optional bound of \<open>SCAN\<close>: absent, nil or empty means unbounded.\<close>

definition scanBound :: "nat \<Rightarrow> bytes option list \<Rightarrow> bytes option" where
  "scanBound i args =
     (if length args \<ge> i + 1 \<and> length (orEmpty (args ! i)) > 0 then args ! i else None)"

definition dispatch ::
  "serverEnv \<Rightarrow> (nat \<Rightarrow> u64) \<Rightarrow> bytes option list \<Rightarrow> DB \<Rightarrow> world \<Rightarrow> reply \<times> DB \<times> world" where
  "dispatch env clock args db w =
     (let cmd = goUpper (uni env) (orEmpty (hd args)) in
      if args = [] then (Crashed, db, w)
      else if cmd = str ''PING'' then
        (if length args > 1 then (Reply (WriteBulkString (args ! 1)), db, w)
         else (Reply (WriteSimpleString (str ''PONG'')), db, w))
      else if cmd = str ''SET'' then
        (if length args \<noteq> 3 then (Reply (WriteError (str ''SET requires 2 arguments: SET key value'')), db, w)
         else case dbSet (clock 0) (orEmpty (args ! 1)) (args ! 2) db w of
                ((Some e, db1), w1) \<Rightarrow> (errReply env e, db1, w1)
              | ((None, db1), w1) \<Rightarrow> (Reply WriteOK, db1, w1))
      else if cmd = str ''GET'' then
        (if length args \<noteq> 2 then (Reply (WriteError (str ''GET requires 1 argument: GET key'')), db, w)
         else case dbGet db (orEmpty (args ! 1)) of
                Inl e \<Rightarrow> (errReply env e, db, w)
              | Inr None \<Rightarrow> (Reply (WriteBulkString None), db, w)
              | Inr (Some v) \<Rightarrow> (Reply (WriteBulkString (Some v)), db, w))
      else if cmd = str ''DEL'' then
        (if length args < 2 then
           (Reply (WriteError (str ''DEL requires at least 1 argument: DEL key [key '' @ [226, 128, 166] @ str '']'')), db, w)
         else case delLoop clock 0 (map orEmpty (tl args)) 0 db w of
                (Inl e, db1, w1) \<Rightarrow> (errReply env e, db1, w1)
              | (Inr n, db1, w1) \<Rightarrow> (Reply (WriteInteger n), db1, w1))
      else if cmd = str ''DBSIZE'' then (Reply (WriteInteger (dbLen db)), db, w)
      else if cmd = str ''SCAN'' then
        (Reply (scanReply (Scan db (scanBound 1 args) (scanBound 2 args))), db, w)
      else if cmd = str ''COMPACT'' then
        (case Compact (mapOrd env) db w of
           ((Some e, db1), w1) \<Rightarrow> (errReply env e, db1, w1)
         | ((None, db1), w1) \<Rightarrow> (Reply WriteOK, db1, w1))
      else if cmd = str ''COMPACT-SST'' then
        (case CompactSSTables db w of
           ((Some e, db1), w1) \<Rightarrow> (errReply env e, db1, w1)
         | ((None, db1), w1) \<Rightarrow>
             (Reply (WriteSimpleString (str ''OK sstables='' @ showNat (SSTableCount db1))), db1, w1))
      else (Reply (WriteError (str ''unknown command '' @ [39] @ cmd @ [39])), db, w))"

section \<open>The connection loop\<close>

record conn =
  incoming :: bytes
  sent :: bytes
  accepts :: "nat option"

text \<open>
  \<open>bw.Flush()\<close> of a reply: the peer takes what it still accepts; the flush fails when that is
  not all of it. (Parts of a long reply may have gone out before, which comes to the same.)
\<close>

definition flushConn :: "bytes \<Rightarrow> conn \<Rightarrow> bool \<times> conn" where
  "flushConn out c =
     (case accepts c of
        None \<Rightarrow> (True, c\<lparr>sent := sent c @ out\<rparr>)
      | Some n \<Rightarrow>
          if length out \<le> n then (True, c\<lparr>sent := sent c @ out, accepts := Some (n - length out)\<rparr>)
          else (False, c\<lparr>sent := sent c @ take n out, accepts := Some 0\<rparr>))"

lemma flushConn_incoming: "flushConn out c = (b, c') \<Longrightarrow> incoming c' = incoming c"
  by (auto simp: flushConn_def split: option.splits if_splits)

lemma ReadCommand_Inr_shorter: "ReadCommand U s = (Inr args, r) \<Longrightarrow> length r < length s"
  using ReadCommand_shorter [of U s "Inr args" r] by (cases s) (auto simp: ReadCommand_def)

text \<open>
  \<open>handle\<close>: whether the process panicked, and the final connection and store. \<open>clock j i\<close> is
  the \<open>i\<close>-th time reading of the \<open>j\<close>-th command.
\<close>

function handle ::
  "serverEnv \<Rightarrow> (nat \<Rightarrow> nat \<Rightarrow> u64) \<Rightarrow> nat \<Rightarrow> conn \<Rightarrow> DB \<Rightarrow> world \<Rightarrow> bool \<times> conn \<times> DB \<times> world" where
  "handle env clock j c db w =
     (case ReadCommand (uni env) (incoming c) of
        (Inl e, r) \<Rightarrow> (e = Panic, c\<lparr>incoming := r\<rparr>, db, w)
      | (Inr args, r) \<Rightarrow>
          if args = [] then handle env clock j (c\<lparr>incoming := r\<rparr>) db w
          else case dispatch env (clock j) args db w of
                 (Crashed, db1, w1) \<Rightarrow> (True, c\<lparr>incoming := r\<rparr>, db1, w1)
               | (Reply out, db1, w1) \<Rightarrow>
                   (case flushConn out (c\<lparr>incoming := r\<rparr>) of
                      (False, c2) \<Rightarrow> (False, c2, db1, w1)
                    | (True, c2) \<Rightarrow> handle env clock (Suc j) c2 db1 w1))"
  by pat_completeness auto
termination
  by (relation "measure (\<lambda>(env, clock, j, c, db, w). length (incoming c))")
    (auto dest!: flushConn_incoming [OF sym] intro: ReadCommand_Inr_shorter [OF sym])

declare handle.simps [simp del]

section \<open>The abstract server\<close>

text \<open>
  The same commands on a finite map: the reply and the next map. The reply to \<open>COMPACT-SST\<close>
  tells the number of tables, which a map does not have; it is an argument.
\<close>

definition cmdOf :: "serverEnv \<Rightarrow> bytes option list \<Rightarrow> bytes" where
  "cmdOf env args = goUpper (uni env) (orEmpty (hd args))"

definition listing :: "(bytes \<rightharpoonup> bytes) \<Rightarrow> bytes option \<Rightarrow> bytes option \<Rightarrow> (bytes \<times> bytes) list" where
  "listing m s e = map (\<lambda>k. (k, the (m k))) (sorted_list_of_set {k \<in> dom m. inRange s e k})"

definition specView :: "serverEnv \<Rightarrow> bytes option list \<Rightarrow> (bytes \<rightharpoonup> bytes) \<Rightarrow> (bytes \<rightharpoonup> bytes)" where
  "specView env args m =
     (if cmdOf env args = str ''SET'' \<and> length args = 3 then m(orEmpty (args ! 1) \<mapsto> orEmpty (args ! 2))
      else if cmdOf env args = str ''DEL'' then m |` (- orEmpty ` set (tl args))
      else m)"

definition specReply :: "serverEnv \<Rightarrow> nat \<Rightarrow> bytes option list \<Rightarrow> (bytes \<rightharpoonup> bytes) \<Rightarrow> bytes" where
  "specReply env tables args m =
     (let cmd = cmdOf env args in
      if cmd = str ''PING'' then
        (if length args > 1 then WriteBulkString (args ! 1) else WriteSimpleString (str ''PONG''))
      else if cmd = str ''SET'' then
        (if length args \<noteq> 3 then WriteError (str ''SET requires 2 arguments: SET key value'') else WriteOK)
      else if cmd = str ''GET'' then
        (if length args \<noteq> 2 then WriteError (str ''GET requires 1 argument: GET key'')
         else WriteBulkString (m (orEmpty (args ! 1))))
      else if cmd = str ''DEL'' then
        (if length args < 2 then
           WriteError (str ''DEL requires at least 1 argument: DEL key [key '' @ [226, 128, 166] @ str '']'')
         else WriteInteger (int (card (orEmpty ` set (tl args) \<inter> dom m))))
      else if cmd = str ''DBSIZE'' then WriteInteger (int (card (dom m)))
      else if cmd = str ''SCAN'' then scanReply (listing m (scanBound 1 args) (scanBound 2 args))
      else if cmd = str ''COMPACT'' then WriteOK
      else if cmd = str ''COMPACT-SST'' then WriteSimpleString (str ''OK sstables='' @ showNat tables)
      else WriteError (str ''unknown command '' @ [39] @ cmd @ [39]))"

text \<open>Keys the tree can hold and values the log can hold; only \<open>SET\<close> and \<open>DEL\<close> are restricted.\<close>

definition legalCmd :: "serverEnv \<Rightarrow> bytes option list \<Rightarrow> bool" where
  "legalCmd env args \<longleftrightarrow> args \<noteq> [] \<and>
     (cmdOf env args = str ''SET'' \<and> length args = 3 \<longrightarrow>
        keyOk (orEmpty (args ! 1)) \<and> orEmpty (args ! 1) \<noteq> [] \<and> lenOpt (args ! 2) \<le> MaxValueSize) \<and>
     (cmdOf env args = str ''DEL'' \<longrightarrow> list_all (\<lambda>a. keyOk (orEmpty a) \<and> orEmpty a \<noteq> []) (tl args))"

section \<open>Refinement\<close>

definition envOk :: "serverEnv \<Rightarrow> bool" where
  "envOk env \<longleftrightarrow> (\<forall>xs. mset (mapOrd env xs) = mset xs)"

definition serverInv :: "nat \<Rightarrow> DB \<times> world \<Rightarrow> bool" where
  "serverInv n s \<longleftrightarrow> storeInv n s \<and> noEmptyKey (fst s)"

lemma serverInv_mem: "serverInv n (db, w) \<Longrightarrow> memOk db \<and> noEmptyKey db"
  using dbOk_mem by (auto simp: serverInv_def storeInv_def)

lemma serverInv_mono: "serverInv n s \<Longrightarrow> m \<le> n \<Longrightarrow> serverInv m s"
  using hasRoom_mono by (auto simp: serverInv_def storeInv_def)

lemma op_served:
  assumes "serverInv (Suc n) (db, w)" "legalOp op" "[] \<notin> opKeys op" "\<And>xs. mset (ord xs) = mset xs"
  shows "\<exists>db' w'. applyOp ord op db w = ((None, db'), w') \<and> serverInv n (db', w') \<and> dbView db' = specOp op (dbView db)"
proof -
  obtain s' where "storeStep ord op (db, w) = Some s'" "storeInv n s'" "dbView (fst s') = specOp op (dbView db)"
    "dbKeys (fst s') \<subseteq> opKeys op \<union> dbKeys db"
    using storeStep_sim [of n "(db, w)" op ord] assms by (auto simp: serverInv_def)
  then show ?thesis
    using assms(1,3) by (cases s') (auto simp: storeStep_def serverInv_def noEmptyKey_dbKeys split: prod.splits option.splits)
qed

lemma Scan_listing:
  assumes "memOk db" "noEmptyKey db"
  shows "Scan db s e = listing (dbView db) s e"
proof (rule sorted_map_of_unique)
  have fin: "finite {k \<in> dom (dbView db). inRange s e k}" using dbView_finite by simp
  show "sorted_wrt (<) (map fst (Scan db s e))" using Scan_view(1) [OF assms] .
  show "sorted_wrt (<) (map fst (listing (dbView db) s e))" by (simp add: listing_def comp_def)
  have "map_of (listing (dbView db) s e) k = (if inRange s e k then dbView db k else None)" for k
    using fin by (auto simp: listing_def map_of_map_restrict restrict_map_def domIff)
  then show "map_of (Scan db s e) = map_of (listing (dbView db) s e)"
    using Scan_view(2) [OF assms] by (simp add: fun_eq_iff)
qed

lemma delLoop_served:
  assumes "serverInv (length ks + n) (db, w)" "list_all (\<lambda>k. keyOk k \<and> k \<noteq> []) ks"
  shows "\<exists>db' w'. delLoop clock i ks c db w = (Inr (c + int (card (set ks \<inter> dom (dbView db)))), db', w') \<and>
    serverInv n (db', w') \<and> dbView db' = dbView db |` (- set ks)"
  using assms
proof (induction ks arbitrary: i c db w)
  case Nil
  then show ?case by (simp add: restrict_map_def)
next
  case (Cons k ks)
  let ?c = "if dbView db k \<noteq> None then c + 1 else c"
  obtain db1 w1 where d: "dbDelete (clock i) k db w = ((None, db1), w1)" "serverInv (length ks + n) (db1, w1)"
    "dbView db1 = (dbView db)(k := None)"
    using op_served [of "length ks + n" db w "OpDel (clock i) k" id] Cons.prems by auto
  obtain db' w' where r: "delLoop clock (Suc i) ks ?c db1 w1 = (Inr (?c + int (card (set ks \<inter> dom (dbView db1)))), db', w')"
    "serverInv n (db', w')" "dbView db' = dbView db1 |` (- set ks)"
    using Cons.IH [OF d(2), of "Suc i" ?c] Cons.prems(2) by (simp only: list.pred_inject) blast
  have g: "dbGet db k = Inr (dbView db k)" using dbGet_view serverInv_mem Cons.prems(1) by blast
  have fin: "finite (set (k # ks) \<inter> dom (dbView db))" by simp
  have "set (k # ks) \<inter> dom (dbView db) =
      (if dbView db k \<noteq> None then insert k (set ks \<inter> dom (dbView db1)) else set ks \<inter> dom (dbView db1))"
    using d(3) by (auto simp: domIff)
  then have "int (card (set (k # ks) \<inter> dom (dbView db))) + c = ?c + int (card (set ks \<inter> dom (dbView db1)))"
    using d(3) fin by (auto simp: card_insert_if)
  moreover have "dbView db1 |` (- set ks) = dbView db |` (- set (k # ks))"
    using d(3) by (auto simp: fun_eq_iff restrict_map_def)
  ultimately show ?case using g d(1) r by (auto simp: Let_def algebra_simps)
qed

text \<open>
  One command refines one command of the abstract server: it never fails, its reply is the
  abstract one and the view of the store moves as the abstract map does.
\<close>

lemma dispatch_served:
  assumes "serverInv (length args + n) (db, w)" "legalCmd env args" "envOk env"
  shows "\<exists>db' w'. dispatch env clock args db w = (Reply (specReply env (SSTableCount db') args (dbView db)), db', w') \<and>
    serverInv n (db', w') \<and> dbView db' = specView env args (dbView db)"
proof -
  have ne: "args \<noteq> []" using assms(2) by (simp add: legalCmd_def)
  then obtain l where l: "length args = Suc l" by (cases args) auto
  have inv: "serverInv (Suc n) (db, w)" "serverInv n (db, w)" using assms(1) serverInv_mono l by simp_all
  note mem = serverInv_mem [OF assms(1)]
  have get: "dbGet db k = Inr (dbView db k)" for k using mem dbGet_view by blast
  have len: "dbLen db = int (card (dom (dbView db)))" using mem memOkD(4) by (simp add: dbLen_def)
  have ord: "mset (mapOrd env xs) = mset xs" for xs using assms(3) by (simp add: envOk_def)
  note simps = dispatch_def specReply_def specView_def cmdOf_def ne
  consider (SET) "cmdOf env args = str ''SET''" "length args = 3" | (DEL) "cmdOf env args = str ''DEL''" "length args \<ge> 2"
    | (COMPACT) "cmdOf env args = str ''COMPACT''" | (SST) "cmdOf env args = str ''COMPACT-SST''"
    | (other) "cmdOf env args = str ''SET'' \<longrightarrow> length args \<noteq> 3" "cmdOf env args = str ''DEL'' \<longrightarrow> length args < 2"
        "cmdOf env args \<noteq> str ''COMPACT''" "cmdOf env args \<noteq> str ''COMPACT-SST''"
    by linarith
  then show ?thesis
  proof cases
    case SET
    then have "legalOp (OpSet (clock 0) (orEmpty (args ! 1)) (args ! 2))" "orEmpty (args ! 1) \<noteq> []"
      using assms(2) by (auto simp: legalCmd_def)
    then obtain db' w' where "dbSet (clock 0) (orEmpty (args ! 1)) (args ! 2) db w = ((None, db'), w')" "serverInv n (db', w')"
      "dbView db' = (dbView db)(orEmpty (args ! 1) \<mapsto> orEmpty (args ! 2))"
      using op_served [OF inv(1), of "OpSet (clock 0) (orEmpty (args ! 1)) (args ! 2)" id] by auto
    then show ?thesis using SET by (simp add: simps)
  next
    case DEL
    then have "list_all (\<lambda>k. keyOk k \<and> k \<noteq> []) (map orEmpty (tl args))"
      using assms(2) by (simp add: legalCmd_def list_all_iff)
    moreover have "serverInv (length (map orEmpty (tl args)) + n) (db, w)" using assms(1) serverInv_mono l by simp
    ultimately obtain db' w' where "delLoop clock 0 (map orEmpty (tl args)) 0 db w =
        (Inr (int (card (set (map orEmpty (tl args)) \<inter> dom (dbView db)))), db', w')" "serverInv n (db', w')"
      "dbView db' = dbView db |` (- set (map orEmpty (tl args)))"
      using delLoop_served [of "map orEmpty (tl args)" n db w clock 0 0] by auto
    then show ?thesis using DEL by (simp add: simps)
  next
    case COMPACT
    obtain db' w' where "Compact (mapOrd env) db w = ((None, db'), w')" "serverInv n (db', w')" "dbView db' = dbView db"
      using op_served [OF inv(1), of OpCompact "mapOrd env"] ord by auto
    then show ?thesis using COMPACT by (simp add: simps)
  next
    case SST
    obtain db' w' where "CompactSSTables db w = ((None, db'), w')" "serverInv n (db', w')" "dbView db' = dbView db"
      using op_served [OF inv(1), of OpCompactSSTables "mapOrd env"] ord by auto
    then show ?thesis using SST by (simp add: simps)
  next
    case other
    have "tl args = []" if "cmdOf env args = str ''DEL''" using other(2) that l by (cases args) auto
    then show ?thesis using other inv(2) get len mem Scan_listing [of db]
      by (auto simp: simps Let_def restrict_map_def split: option.splits)
  qed
qed

section \<open>Serving a connection\<close>

definition wireOk :: "bytes option list \<Rightarrow> bool" where
  "wireOk args \<longleftrightarrow> args \<noteq> [] \<and> list_all bulkOk args \<and> int (length args) * 24 \<le> maxAlloc"

definition encCmd :: "bytes option list \<Rightarrow> bytes" where
  "encCmd args = WriteArrayLen (length args) @ concat (map WriteBulkString args)"

lemma ReadCommand_encCmd:
  assumes "wireOk args"
  shows "ReadCommand U (encCmd args @ rest) = (Inr args, rest)"
  using assms ReadCommand_array [of args U rest] by (simp add: wireOk_def encCmd_def)

lemma handle_command:
  assumes "wireOk args" "incoming c = encCmd args @ rest" "accepts c = None"
    and "dispatch env (clock j) args db w = (Reply out, db1, w1)"
  shows "handle env clock j c db w =
    handle env clock (Suc j) (c\<lparr>incoming := rest, sent := sent c @ out\<rparr>) db1 w1"
  using assms ReadCommand_encCmd [OF assms(1), of "uni env" rest]
  by (subst handle.simps) (simp add: flushConn_def wireOk_def)

lemma handle_end: "incoming c = [] \<Longrightarrow> handle env clock j c db w = (False, c, db, w)"
  by (subst handle.simps) (simp add: ReadCommand_def)

text \<open>A sequence of commands on the abstract server; \<open>ts\<close> are the table counts reported.\<close>

fun specServe :: "serverEnv \<Rightarrow> nat list \<Rightarrow> bytes option list list \<Rightarrow> (bytes \<rightharpoonup> bytes) \<Rightarrow> bytes \<times> (bytes \<rightharpoonup> bytes)" where
  "specServe env ts [] m = ([], m)"
| "specServe env ts (args # cmds) m =
     (case specServe env (tl ts) cmds (specView env args m) of
        (out, m') \<Rightarrow> (specReply env (hd ts) args m @ out, m'))"

lemma handle_served:
  assumes "serverInv (sum_list (map length cmds) + n) (db, w)" "list_all (legalCmd env) cmds" "list_all wireOk cmds" "envOk env"
    and "incoming c = concat (map encCmd cmds)" "accepts c = None"
  shows "\<exists>ts db' w'. handle env clock j c db w =
      (False, c\<lparr>incoming := [], sent := sent c @ fst (specServe env ts cmds (dbView db))\<rparr>, db', w') \<and>
    serverInv n (db', w') \<and> dbView db' = snd (specServe env ts cmds (dbView db))"
  using assms
proof (induction cmds arbitrary: j c db w)
  case Nil
  then show ?case by (simp add: handle_end)
next
  case (Cons args cmds)
  obtain db1 w1 where d: "dispatch env (clock j) args db w = (Reply (specReply env (SSTableCount db1) args (dbView db)), db1, w1)"
    "serverInv (sum_list (map length cmds) + n) (db1, w1)" "dbView db1 = specView env args (dbView db)"
    using dispatch_served [of args "sum_list (map length cmds) + n" db w env "clock j"] Cons.prems by (auto simp: add.assoc)
  let ?out = "specReply env (SSTableCount db1) args (dbView db)"
  let ?c = "c\<lparr>incoming := concat (map encCmd cmds), sent := sent c @ ?out\<rparr>"
  obtain ts db' w' where r: "handle env clock (Suc j) ?c db1 w1 =
      (False, ?c\<lparr>incoming := [], sent := sent ?c @ fst (specServe env ts cmds (dbView db1))\<rparr>, db', w')"
    "serverInv n (db', w')" "dbView db' = snd (specServe env ts cmds (dbView db1))"
    using Cons.IH [OF d(2), of ?c "Suc j"] Cons.prems by auto
  have "handle env clock j c db w = handle env clock (Suc j) ?c db1 w1"
    using Cons.prems d(1) by (intro handle_command) auto
  then show ?case using r d(3)
    by (intro exI [of _ "SSTableCount db1 # ts"]) (auto split: prod.splits)
qed

section \<open>A fresh server\<close>

lemma layered_card:
  "finite (dom (layered ls)) \<and> card (dom (layered ls)) \<le> sum_list (map length ls)"
proof (induction ls)
  case (Cons es ls)
  have "dom (layered (es # ls)) = set (map fst es) \<union> dom (layered ls)" by (simp add: layered_dom)
  moreover have "card (set (map fst es)) \<le> length es" using card_length [of "map fst es"] by simp
  moreover have "card (set (map fst es) \<union> dom (layered ls)) \<le> card (set (map fst es)) + card (dom (layered ls))"
    by (rule card_Un_le)
  ultimately show ?case using Cons by (simp del: layered.simps)
qed simp

lemma dbKeys_card: "finite (dbKeys db) \<and> card (dbKeys db) \<le> storedEntries db"
  using layered_card [of "layers db"] by (simp add: dbKeys_def layers_def storedEntries_def tableEntries_def)

lemma fresh_served:
  assumes "calm w" "topdir w = []" "n \<le> 429496728"
  shows "\<exists>db w1. Open o0 w = (Inr db, w1) \<and> serverInv n (db, w1) \<and> dbView db = Map.empty"
proof -
  obtain db w1 where o: "Open o0 w = (Inr db, w1)" "calm w1" "dbOk db w1" "dbView db = Map.empty"
    "nextID db = 2" "ssNextID db = 1" "storedEntries db = 0"
    using Open_empty [OF assms(1,2), of o0] by blast
  moreover have "dbKeys db = {}" using dbKeys_card [of db] o(7) by auto
  ultimately show ?thesis using assms(3) by (simp add: serverInv_def storeInv_def hasRoom_def noEmptyKey_dbKeys)
qed

text \<open>A concrete environment and directory for the examples.\<close>

definition plainEnv :: serverEnv where
  "plainEnv = \<lparr>uni = \<lparr>uniFields = \<lambda>s. [s], uniUpper = id, uniLower = id, uniTrim = id, uniQuote = id\<rparr>,
     sysText = \<lambda>e. str ''i/o error'', mapOrd = id\<rparr>"

definition emptyDir :: world where
  "emptyDir = \<lparr>topdir = [], sstdir = None, script = [], dead = False\<rparr>"

lemma emptyDir_simps [simp]: "calm emptyDir" "topdir emptyDir = []" "envOk plainEnv"
  by (simp_all add: calm_def emptyDir_def envOk_def plainEnv_def)

section \<open>Properties\<close>



text \<open>
  Oversized requests are refused: a key beyond 64 KiB or a value beyond 1 GiB gets an error
  reply and changes nothing.
\<close>

theorem oversized_set_refused:
  assumes "cmdOf env args = str ''SET''" "length args = 3"
    and "length (orEmpty (args ! 1)) > MaxKeySize \<or> length (orEmpty (args ! 2)) > MaxValueSize"
  shows "\<exists>msg. dispatch env clock args db w = (Reply (WriteError msg), db, w)"
proof -
  have "args \<noteq> []" using assms(2) by auto
  moreover have "\<exists>e. e \<in> {ErrKeyTooLarge, ErrValueTooLarge} \<and>
      dbSet (clock 0) (orEmpty (args ! 1)) (args ! 2) db w = ((Some e, db), w)"
    using assms(3) by (auto simp: dbSet_def Encode_def EncodeAt_def Let_def lenOpt_def)
  ultimately show ?thesis using assms(1,2) by (auto simp: dispatch_def cmdOf_def errReply_def)
qed

theorem oversized_set_refused_witness:
  "\<exists>msg. dispatch plainEnv (\<lambda>_. 0) [Some (str ''SET''), Some (replicate 65537 97), Some []] (freshDB DefaultOptions) emptyDir =
     (Reply (WriteError msg), freshDB DefaultOptions, emptyDir)"
  using oversized_set_refused [of plainEnv "[Some (str ''SET''), Some (replicate 65537 97), Some []]"]
  by (simp add: cmdOf_def goUpper_def isAscii_def asciiUpper_def MaxKeySize_def)

end
