(* ===== verification/Kora_Client.thy ===== *)
theory Kora_Client
  imports Kora_Server
begin

text \<open>
  Package client: the calls of the Go client over one connection. Byte slices a caller passes
  may be nil, so they are \<open>bytes option\<close>. What is behind the connection is a link: given the
  bytes of a flushed request it returns the bytes that come back (none when the flush fails).
  The client is then composed with the server of this repository.
\<close>

section \<open>The client\<close>

record Client =
  inbox :: bytes

type_synonym 's link = "bytes \<Rightarrow> 's \<Rightarrow> (bytes \<times> 's) option"

text \<open>\<open>Dial\<close>: a fresh connection with nothing buffered.\<close>

definition Dial :: Client where
  "Dial = \<lparr>inbox = []\<rparr>"

definition writeCmd :: "bytes \<Rightarrow> bytes option list \<Rightarrow> bytes" where
  "writeCmd cmd args =
     WriteArrayLen (1 + length args) @ WriteBulkString (Some cmd) @ concat (map WriteBulkString args)"

text \<open>What every call does under its mutex: write, flush, read one reply.\<close>

definition exchange :: "'s link \<Rightarrow> bytes \<Rightarrow> (bytes \<Rightarrow> 'a parse) \<Rightarrow> Client \<times> 's \<Rightarrow> (err + 'a) \<times> Client \<times> 's" where
  "exchange link req rd st =
     (case link req (snd st) of
        None \<Rightarrow> (Inl ErrIO, st)
      | Some (resp, s') \<Rightarrow>
          (case rd (inbox (fst st) @ resp) of (r, rest) \<Rightarrow> (r, ((fst st)\<lparr>inbox := rest\<rparr>, s'))))"

text \<open>\<open>_, err := c.r.ReadSimpleString(); return err\<close>\<close>

definition errOnly :: "(err + 'a) \<times> 'c \<Rightarrow> err option \<times> 'c" where
  "errOnly r = ((case fst r of Inl e \<Rightarrow> Some e | Inr _ \<Rightarrow> None), snd r)"

definition clientPing :: "'s link \<Rightarrow> Client \<times> 's \<Rightarrow> err option \<times> Client \<times> 's" where
  "clientPing link st = errOnly (exchange link (writeCmd (str ''PING'') []) ReadSimpleString st)"

definition clientSet :: "'s link \<Rightarrow> bytes option \<Rightarrow> bytes option \<Rightarrow> Client \<times> 's \<Rightarrow> err option \<times> Client \<times> 's" where
  "clientSet link key value st = errOnly (exchange link (writeCmd (str ''SET'') [key, value]) ReadSimpleString st)"

text \<open>\<open>None\<close> is \<open>ok = false\<close>.\<close>

definition clientGet :: "'s link \<Rightarrow> bytes option \<Rightarrow> Client \<times> 's \<Rightarrow> (err + bytes option) \<times> Client \<times> 's" where
  "clientGet link key st = exchange link (writeCmd (str ''GET'') [key]) ReadBulkString st"

definition clientDelete :: "'s link \<Rightarrow> bytes option list \<Rightarrow> Client \<times> 's \<Rightarrow> (err + int) \<times> Client \<times> 's" where
  "clientDelete link ks st = exchange link (writeCmd (str ''DEL'') ks) ReadInteger st"

definition clientDBSize :: "'s link \<Rightarrow> Client \<times> 's \<Rightarrow> (err + int) \<times> Client \<times> 's" where
  "clientDBSize link st = exchange link (writeCmd (str ''DBSIZE'') []) ReadInteger st"

definition clientScan ::
  "'s link \<Rightarrow> bytes option \<Rightarrow> bytes option \<Rightarrow> Client \<times> 's \<Rightarrow> (err + (bytes option \<times> bytes option) list) \<times> Client \<times> 's" where
  "clientScan link start end st =
     (let s = (if start = None then Some [] else start); e = (if end = None then Some [] else end)
      in exchange link (writeCmd (str ''SCAN'') [s, e]) ReadPairs st)"

definition clientCompact :: "'s link \<Rightarrow> Client \<times> 's \<Rightarrow> err option \<times> Client \<times> 's" where
  "clientCompact link st = errOnly (exchange link (writeCmd (str ''COMPACT'') []) ReadSimpleString st)"

definition clientCompactSST :: "'s link \<Rightarrow> Client \<times> 's \<Rightarrow> err option \<times> Client \<times> 's" where
  "clientCompactSST link st = errOnly (exchange link (writeCmd (str ''COMPACT-SST'') []) ReadSimpleString st)"

section \<open>The server as the other end\<close>

text \<open>
  The server's side of the connection: commands served so far, the store and its directory;
  \<open>None\<close> once the process is gone, after which every flush fails.
\<close>

type_synonym serverSide = "(nat \<times> DB \<times> world) option"

definition serverLink :: "serverEnv \<Rightarrow> (nat \<Rightarrow> nat \<Rightarrow> u64) \<Rightarrow> serverSide link" where
  "serverLink env clock req s =
     (case s of
        None \<Rightarrow> None
      | Some (j, db, w) \<Rightarrow>
          (case handle env clock j \<lparr>incoming = req, sent = [], accepts = None\<rparr> db w of
             (crashed, c, db', w') \<Rightarrow> Some (sent c, if crashed then None else Some (Suc j, db', w'))))"

section \<open>Calls as data\<close>

datatype call = CPing | CSet "bytes option" "bytes option" | CGet "bytes option" | CDelete "bytes option list"
  | CDBSize | CScan "bytes option" "bytes option" | CCompact | CCompactSST

datatype result = ROk | RErr err | RValue "bytes option" | RCount int | RPairs "(bytes option \<times> bytes option) list"

definition ofErr :: "err option \<times> 'c \<Rightarrow> result \<times> 'c" where
  "ofErr r = ((case fst r of None \<Rightarrow> ROk | Some e \<Rightarrow> RErr e), snd r)"

definition ofSum :: "('a \<Rightarrow> result) \<Rightarrow> (err + 'a) \<times> 'c \<Rightarrow> result \<times> 'c" where
  "ofSum f r = ((case fst r of Inl e \<Rightarrow> RErr e | Inr x \<Rightarrow> f x), snd r)"

fun callClient :: "'s link \<Rightarrow> call \<Rightarrow> Client \<times> 's \<Rightarrow> result \<times> Client \<times> 's" where
  "callClient link CPing st = ofErr (clientPing link st)"
| "callClient link (CSet k v) st = ofErr (clientSet link k v st)"
| "callClient link (CGet k) st = ofSum RValue (clientGet link k st)"
| "callClient link (CDelete ks) st = ofSum RCount (clientDelete link ks st)"
| "callClient link CDBSize st = ofSum RCount (clientDBSize link st)"
| "callClient link (CScan s e) st = ofSum RPairs (clientScan link s e st)"
| "callClient link CCompact st = ofErr (clientCompact link st)"
| "callClient link CCompactSST st = ofErr (clientCompactSST link st)"

fun runCalls :: "'s link \<Rightarrow> call list \<Rightarrow> Client \<times> 's \<Rightarrow> result list \<times> Client \<times> 's" where
  "runCalls link [] st = ([], st)"
| "runCalls link (x # xs) st =
     (case callClient link x st of (r, st1) \<Rightarrow>
      case runCalls link xs st1 of (rs, st2) \<Rightarrow> (r # rs, st2))"

text \<open>What the caller of a map would see. An empty bound of a scan means no bound.\<close>

definition boundOf :: "bytes option \<Rightarrow> bytes option" where
  "boundOf b = (if orEmpty b = [] then None else b)"

fun specResult :: "call \<Rightarrow> (bytes \<rightharpoonup> bytes) \<Rightarrow> result" where
  "specResult (CGet k) m = RValue (m (orEmpty k))"
| "specResult (CDelete ks) m =
     (if ks = [] then RErr (ErrServer (str ''ERR DEL requires at least 1 argument: DEL key [key '' @ [226, 128, 166] @ str '']''))
      else RCount (int (card (orEmpty ` set ks \<inter> dom m))))"
| "specResult CDBSize m = RCount (int (card (dom m)))"
| "specResult (CScan s e) m = RPairs (map (\<lambda>p. (appendNil (fst p), appendNil (snd p))) (listing m (boundOf s) (boundOf e)))"
| "specResult _ m = ROk"

fun specCall :: "call \<Rightarrow> (bytes \<rightharpoonup> bytes) \<Rightarrow> (bytes \<rightharpoonup> bytes)" where
  "specCall (CSet k v) m = m(orEmpty k \<mapsto> orEmpty v)"
| "specCall (CDelete ks) m = m |` (- orEmpty ` set ks)"
| "specCall _ m = m"

fun specCalls :: "call list \<Rightarrow> (bytes \<rightharpoonup> bytes) \<Rightarrow> result list \<times> (bytes \<rightharpoonup> bytes)" where
  "specCalls [] m = ([], m)"
| "specCalls (x # xs) m = (case specCalls xs (specCall x m) of (rs, m') \<Rightarrow> (specResult x m # rs, m'))"

fun legalCall :: "call \<Rightarrow> bool" where
  "legalCall (CSet k v) \<longleftrightarrow> keyOk (orEmpty k) \<and> orEmpty k \<noteq> [] \<and> lenOpt v \<le> MaxValueSize"
| "legalCall (CGet k) \<longleftrightarrow> bulkOk k"
| "legalCall (CDelete ks) \<longleftrightarrow> list_all (\<lambda>k. keyOk (orEmpty k) \<and> orEmpty k \<noteq> []) ks \<and> length ks < 2 ^ 40"
| "legalCall (CScan s e) \<longleftrightarrow> bulkOk s \<and> bulkOk e"
| "legalCall _ \<longleftrightarrow> True"

fun argsOf :: "call \<Rightarrow> bytes option list" where
  "argsOf CPing = [Some (str ''PING'')]"
| "argsOf (CSet k v) = [Some (str ''SET''), k, v]"
| "argsOf (CGet k) = [Some (str ''GET''), k]"
| "argsOf (CDelete ks) = Some (str ''DEL'') # ks"
| "argsOf CDBSize = [Some (str ''DBSIZE'')]"
| "argsOf (CScan s e) = [Some (str ''SCAN''), if s = None then Some [] else s, if e = None then Some [] else e]"
| "argsOf CCompact = [Some (str ''COMPACT'')]"
| "argsOf CCompactSST = [Some (str ''COMPACT-SST'')]"

section \<open>The composition\<close>

lemma writeCmd_encCmd: "writeCmd cmd args = encCmd (Some cmd # args)"
  by (simp add: writeCmd_def encCmd_def)

lemma serverLink_served:
  assumes "serverInv (length args + n) (db, w)" "legalCmd env args" "wireOk args" "envOk env"
  shows "\<exists>db' w'. serverLink env clock (encCmd args) (Some (j, db, w)) =
      Some (specReply env (SSTableCount db') args (dbView db), Some (Suc j, db', w')) \<and>
    serverInv n (db', w') \<and> dbView db' = specView env args (dbView db)"
proof -
  obtain db' w' where d: "dispatch env (clock j) args db w = (Reply (specReply env (SSTableCount db') args (dbView db)), db', w')"
    "serverInv n (db', w')" "dbView db' = specView env args (dbView db)"
    using dispatch_served [OF assms(1,2,4)] by blast
  let ?c = "\<lparr>incoming = encCmd args, sent = [], accepts = None\<rparr>"
  have "handle env clock j ?c db w = (False, ?c\<lparr>incoming := [], sent := specReply env (SSTableCount db') args (dbView db)\<rparr>, db', w')"
    using handle_command [OF assms(3), of ?c "[]"] d(1) by (simp add: handle_end)
  then show ?thesis using d(2,3) by (auto simp: serverLink_def)
qed

lemma cmdOf_upper:
  assumes "isAscii cmd" "list_all (\<lambda>c. \<not> (97 \<le> c \<and> c \<le> 122)) cmd"
  shows "cmdOf env (Some cmd # args) = cmd"
  using assms by (auto simp: cmdOf_def goUpper_def asciiUpper_def list_all_iff intro!: map_idI)

lemma cmdOf_names [simp]:
  "cmdOf env (Some (str ''PING'') # as) = str ''PING''" "cmdOf env (Some (str ''SET'') # as) = str ''SET''"
  "cmdOf env (Some (str ''GET'') # as) = str ''GET''" "cmdOf env (Some (str ''DEL'') # as) = str ''DEL''"
  "cmdOf env (Some (str ''DBSIZE'') # as) = str ''DBSIZE''" "cmdOf env (Some (str ''SCAN'') # as) = str ''SCAN''"
  "cmdOf env (Some (str ''COMPACT'') # as) = str ''COMPACT''" "cmdOf env (Some (str ''COMPACT-SST'') # as) = str ''COMPACT-SST''"
  by (rule cmdOf_upper; simp add: isAscii_def)+

text \<open>What a store holds fits into a reply.\<close>

lemma layered_mem: "layered ls k = Some v \<Longrightarrow> \<exists>es \<in> set ls. (k, v) \<in> set es"
  by (induction ls) (auto split: option.splits dest: map_of_SomeD)

lemma stored_fits:
  assumes "serverInv n (db, w)" "dbView db k = Some v"
  shows "bulkOk (Some k)" "bulkOk (Some v)"
proof -
  have mem: "memOk db" and len: "length (Iterator (memtable db)) \<le> 429496728"
    using assms(1) dbOk_mem by (auto simp: serverInv_def storeInv_def hasRoom_def storedEntries_def)
  have "layered (layers db) k = Some (Some v)" using assms(2) by (auto simp: dbView_def bind_eq_Some_conv)
  then obtain es where es: "es \<in> set (layers db)" "(k, Some v) \<in> set es" using layered_mem by blast
  have "sstOk es"
    using es(1) sstOk_memtable [OF mem len] memOkD(2) [OF mem] readerOk_cases(1) by (auto simp: layers_def list_all_iff)
  then have "entryOk (k, Some v)" using es(2) by (auto simp: sstOk_def list_all_iff)
  then show "bulkOk (Some k)" "bulkOk (Some v)" by (simp_all add: entryOk_def bulkOk_def maxAlloc_def)
qed

lemma stored_count:
  assumes "serverInv n (db, w)"
  shows "card (dom (dbView db)) \<le> 429496728"
proof -
  have "card (dom (dbView db)) \<le> card (dbKeys db)"
    using dbKeys_card dbView_dom by (intro card_mono) (auto simp: dbKeys_def)
  also have "\<dots> \<le> storedEntries db" using dbKeys_card by blast
  also have "\<dots> \<le> 429496728" using assms by (auto simp: serverInv_def storeInv_def hasRoom_def)
  finally show ?thesis .
qed

lemma listing_fits:
  assumes "serverInv n (db, w)"
  shows "list_all (\<lambda>p. bulkOk (fst p) \<and> bulkOk (snd p)) (map (\<lambda>p. (appendNil (fst p), appendNil (snd p))) (listing (dbView db) s e))"
    and "length (listing (dbView db) s e) \<le> 429496728"
proof -
  have fin: "finite {k \<in> dom (dbView db). inRange s e k}" using dbView_finite by simp
  have b: "bulkOk (appendNil x)" if "bulkOk (Some x)" for x using that by (simp add: appendNil_def bulkOk_def)
  have "bulkOk (appendNil (fst p)) \<and> bulkOk (appendNil (snd p))" if "p \<in> set (listing (dbView db) s e)" for p
    using that fin stored_fits [OF assms] b by (auto simp: listing_def)
  then show "list_all (\<lambda>p. bulkOk (fst p) \<and> bulkOk (snd p)) (map (\<lambda>p. (appendNil (fst p), appendNil (snd p))) (listing (dbView db) s e))"
    by (simp add: list_all_iff)
  have "length (listing (dbView db) s e) = card {k \<in> dom (dbView db). inRange s e k}" by (simp add: listing_def)
  also have "\<dots> \<le> card (dom (dbView db))" using dbView_finite by (intro card_mono) auto
  also have "\<dots> \<le> 429496728" by (rule stored_count [OF assms])
  finally show "length (listing (dbView db) s e) \<le> 429496728" .
qed

lemma scanBound_args:
  "scanBound 1 [c, if s = None then Some [] else s, if e = None then Some [] else e] = boundOf s"
  "scanBound 2 [c, if s = None then Some [] else s, if e = None then Some [] else e] = boundOf e"
  by (auto simp: scanBound_def boundOf_def)

lemma scanReply_pairs:
  "scanReply ps = WriteArrayLen (length ps * 2) @ concat (map writePair (map (\<lambda>p. (appendNil (fst p), appendNil (snd p))) ps))"
  by (simp add: scanReply_def writePair_def comp_def)

text \<open>Each call sends one command, and reads the reply of the abstract server as its result.\<close>

lemma legal_args:
  assumes "legalCall x"
  shows "legalCmd env (argsOf x)" "wireOk (argsOf x)"
proof -
  have k: "bulkOk a" if "keyOk (orEmpty a)" for a using that by (cases a) (auto simp: keyOk_def maxPrefixLen_def bulkOk_def maxAlloc_def)
  have v: "bulkOk a" if "lenOpt a \<le> MaxValueSize" for a
    using that by (cases a) (auto simp: lenOpt_def MaxValueSize_def bulkOk_def maxAlloc_def)
  have c: "bulkOk (Some (str s))" if "length s < 100" for s using that by (simp add: bulkOk_def maxAlloc_def)
  have e: "bulkOk (Some [])" by (simp add: bulkOk_def maxAlloc_def)
  show "legalCmd env (argsOf x)" using assms by (cases x) (simp_all add: legalCmd_def str_inj del: str_simps)
  show "wireOk (argsOf x)"
    using assms k v c e by (cases x) (auto simp: wireOk_def list_all_iff maxAlloc_def simp del: str_simps)
qed

lemma exchange_call:
  assumes "serverLink env clock (encCmd args) (Some s) = Some (reply, Some s')"
    and "\<And>rest. rd (reply @ rest) = (r, rest)"
  shows "exchange (serverLink env clock) (encCmd args) rd (Dial, Some s) = (r, Dial, Some s')"
  using assms(1) assms(2) [of "[]"] by (simp add: exchange_def Dial_def)

lemma call_served:
  assumes "serverInv (length (argsOf x) + n) (db, w)" "legalCall x" "envOk env"
  shows "\<exists>db' w'. callClient (serverLink env clock) x (Dial, Some (j, db, w)) = (specResult x (dbView db), Dial, Some (Suc j, db', w')) \<and>
    serverInv n (db', w') \<and> dbView db' = specCall x (dbView db)"
proof -
  obtain db' w' where l: "serverLink env clock (encCmd (argsOf x)) (Some (j, db, w)) =
      Some (specReply env (SSTableCount db') (argsOf x) (dbView db), Some (Suc j, db', w'))"
    "serverInv n (db', w')" "dbView db' = specView env (argsOf x) (dbView db)"
    using serverLink_served [OF assms(1) legal_args [OF assms(2)] assms(3)] by blast
  have view: "dbView db' = specCall x (dbView db)"
    using l(3) by (cases x) (auto simp: specView_def str_inj simp del: str_simps)
  note ex = exchange_call [OF l(1)]
  have ok: "lineOk (str ''OK'')" "lineOk (str ''PONG'')" "lineOk (str ''OK sstables='' @ showNat t)" for t
    using lineOk_number [of 61 t] by (auto simp: lineOk_def)
  note simps = specReply_def str_inj writeCmd_encCmd
  have "callClient (serverLink env clock) x (Dial, Some (j, db, w)) = (specResult x (dbView db), Dial, Some (Suc j, db', w'))"
  proof (cases x)
    case CPing
    then show ?thesis using ex [of ReadSimpleString "Inr (str ''PONG'')"] ok
      by (simp add: simps clientPing_def errOnly_def ofErr_def ReadSimpleString_write del: str_simps)
  next
    case (CSet k v)
    then show ?thesis using ex [of ReadSimpleString "Inr (str ''OK'')"] ok
      by (simp add: simps clientSet_def errOnly_def ofErr_def ReadSimpleString_write WriteOK_simple del: str_simps)
  next
    case (CGet k)
    have "bulkOk (dbView db (orEmpty k))"
      using stored_fits(2) [OF assms(1)] by (cases "dbView db (orEmpty k)") (auto simp: bulkOk_def)
    then show ?thesis using CGet ex [of ReadBulkString "Inr (dbView db (orEmpty k))"]
      by (simp add: simps clientGet_def ofSum_def del: str_simps)
  next
    case (CDelete ks)
    have "card (orEmpty ` set ks \<inter> dom (dbView db)) \<le> card (dom (dbView db))"
      using dbView_finite by (intro card_mono) auto
    then have "card (orEmpty ` set ks \<inter> dom (dbView db)) \<le> 429496728" using stored_count [OF assms(1)] by linarith
    then have n: "ReadInteger (WriteInteger (int (card (orEmpty ` set ks \<inter> dom (dbView db)))) @ rest) =
        (Inr (int (card (orEmpty ` set ks \<inter> dom (dbView db)))), rest)" for rest
      by (intro ReadInteger_write) auto
    show ?thesis
    proof (cases "ks = []")
      case True
      let ?msg = "str ''DEL requires at least 1 argument: DEL key [key '' @ [226, 128, 166] @ str '']''"
      have "lineOk ?msg" "?msg \<noteq> []"
        "str ''ERR DEL requires at least 1 argument: DEL key [key '' @ [226, 128, 166] @ str '']'' = str ''ERR '' @ ?msg"
        by (simp_all add: lineOk_def)
      then show ?thesis
        using CDelete True ex [of ReadInteger "Inl (ErrServer (str ''ERR '' @ ?msg))"] readers_on_error(3) [of ?msg]
        by (simp add: simps clientDelete_def ofSum_def del: str_simps append.simps)
    next
      case False
      then have "\<not> length (argsOf x) < 2" using CDelete by (cases ks) auto
      then show ?thesis using CDelete False n ex [of ReadInteger "Inr (int (card (orEmpty ` set ks \<inter> dom (dbView db))))"]
        by (simp add: simps clientDelete_def ofSum_def del: str_simps)
    qed
  next
    case CDBSize
    have "ReadInteger (WriteInteger (int (card (dom (dbView db)))) @ rest) = (Inr (int (card (dom (dbView db)))), rest)" for rest
      using stored_count [OF assms(1)] by (intro ReadInteger_write) auto
    then show ?thesis using CDBSize ex [of ReadInteger "Inr (int (card (dom (dbView db))))"]
      by (simp add: simps clientDBSize_def ofSum_def del: str_simps)
  next
    case (CScan s e)
    let ?ps = "map (\<lambda>p. (appendNil (fst p), appendNil (snd p))) (listing (dbView db) (boundOf s) (boundOf e))"
    have "ReadPairs (scanReply (listing (dbView db) (boundOf s) (boundOf e)) @ rest) = (Inr ?ps, rest)" for rest
      using ReadPairs_write [of ?ps rest] listing_fits [OF assms(1), of "boundOf s" "boundOf e"]
      unfolding scanReply_pairs by (simp add: maxAlloc_def)
    then show ?thesis using CScan ex [of ReadPairs "Inr ?ps"] scanBound_args [of _ s e]
      by (simp add: simps clientScan_def ofSum_def del: str_simps)
  next
    case CCompact
    then show ?thesis using ex [of ReadSimpleString "Inr (str ''OK'')"] ok
      by (simp add: simps clientCompact_def errOnly_def ofErr_def ReadSimpleString_write WriteOK_simple del: str_simps)
  next
    case CCompactSST
    then show ?thesis using ex [of ReadSimpleString "Inr (str ''OK sstables='' @ showNat (SSTableCount db'))"] ok(3) [of "SSTableCount db'"]
      by (simp add: simps clientCompactSST_def errOnly_def ofErr_def ReadSimpleString_write del: str_simps)
  qed
  then show ?thesis using l(2) view by blast
qed

lemma runCalls_served:
  assumes "serverInv (sum_list (map (length \<circ> argsOf) xs) + n) (db, w)" "list_all legalCall xs" "envOk env"
  shows "\<exists>j' db' w'. runCalls (serverLink env clock) xs (Dial, Some (j, db, w)) =
      (fst (specCalls xs (dbView db)), Dial, Some (j', db', w')) \<and>
    serverInv n (db', w') \<and> dbView db' = snd (specCalls xs (dbView db))"
  using assms
proof (induction xs arbitrary: j db w)
  case (Cons x xs)
  obtain db1 w1 where c: "callClient (serverLink env clock) x (Dial, Some (j, db, w)) = (specResult x (dbView db), Dial, Some (Suc j, db1, w1))"
    "serverInv (sum_list (map (length \<circ> argsOf) xs) + n) (db1, w1)" "dbView db1 = specCall x (dbView db)"
    using call_served [of x "sum_list (map (length \<circ> argsOf) xs) + n" db w env clock j] Cons.prems by (auto simp: add.assoc comp_def)
  then show ?case using Cons.IH [OF c(2), of "Suc j"] Cons.prems by (fastforce split: prod.splits)
qed simp

section \<open>Properties\<close>



end
