(* ===== verification/Kora_Repl.thy ===== *)
theory Kora_Repl
  imports Kora_Server
begin

text \<open>
  Command kora: the interactive shell over an embedded store. Standard input is a byte string
  cut into lines the way \<open>bufio.Scanner\<close> cuts it; standard output is the byte string printed.
\<close>

section \<open>What the command uses of Go\<close>

definition asciiLower :: "byte \<Rightarrow> byte" where
  "asciiLower c = (if 65 \<le> c \<and> c \<le> 90 then c + 32 else c)"

definition goLower :: "unicodeLib \<Rightarrow> bytes \<Rightarrow> bytes" where
  "goLower U s = (if isAscii s then map asciiLower s else uniLower U s)"

definition trimSpace :: "unicodeLib \<Rightarrow> bytes \<Rightarrow> bytes" where
  "trimSpace U s =
     (if isAscii s then rev (dropWhile isSpace (rev (dropWhile isSpace s))) else uniTrim U s)"

text \<open>\<open>strings.SplitN(s, " ", n)\<close> for a positive \<open>n\<close>.\<close>

fun splitN :: "nat \<Rightarrow> bytes \<Rightarrow> bytes list" where
  "splitN (Suc (Suc n)) s =
     (case dropWhile (\<lambda>c. c \<noteq> 32) s of
        [] \<Rightarrow> [s]
      | _ # rest \<Rightarrow> takeWhile (\<lambda>c. c \<noteq> 32) s # splitN (Suc n) rest)"
| "splitN _ s = [s]"

text \<open>The verb \<open>%q\<close>.\<close>

definition hexDigit :: "byte \<Rightarrow> byte" where
  "hexDigit d = (if d < 10 then 48 + d else 87 + d)"

definition quoteByte :: "byte \<Rightarrow> bytes" where
  "quoteByte c =
     (if c = 34 \<or> c = 92 then [92, c]
      else if c = 7 then [92, 97]
      else if c = 8 then [92, 98]
      else if c = 12 then [92, 102]
      else if c = 10 then [92, 110]
      else if c = 13 then [92, 114]
      else if c = 9 then [92, 116]
      else if c = 11 then [92, 118]
      else if c < 32 \<or> c = 127 then [92, 120, hexDigit (drop_bit 4 c), hexDigit (c AND 15)]
      else [c])"

definition goQuote :: "unicodeLib \<Rightarrow> bytes \<Rightarrow> bytes" where
  "goQuote U s = (if isAscii s then [34] @ concat (map quoteByte s) @ [34] else uniQuote U s)"

definition println :: "bytes \<Rightarrow> bytes" where
  "println s = s @ [10]"

section \<open>One command line\<close>

datatype replStatus = Continue | Quit | Died

definition replErr :: "serverEnv \<Rightarrow> err \<Rightarrow> bytes \<times> replStatus" where
  "replErr env e = (if e = Panic then ([], Died) else (println (str ''ERR '' @ errText env e), Continue))"

definition scanOutput :: "unicodeLib \<Rightarrow> (bytes \<times> bytes) list \<Rightarrow> bytes" where
  "scanOutput U ps =
     concat (map (\<lambda>p. println (goQuote U (fst p) @ str '' -> '' @ goQuote U (snd p))) ps) @
     println (str ''('' @ showNat (length ps) @ str '' keys)'')"

definition statsLine :: "int \<Rightarrow> nat \<Rightarrow> nat \<Rightarrow> nat \<Rightarrow> bytes" where
  "statsLine n segs ssts disk =
     println (str ''keys='' @ showInt n @ str '' segments='' @ showNat segs @
       str '' sstables='' @ showNat ssts @ str '' disk='' @ showNat disk @ str '' bytes'')"

definition helpLine :: bytes where
  "helpLine = println (str ''commands: set <k> <v> | get <k> | del <k> | scan <start> [end] | keys | compact | compact-sst | stats | help | exit'')"

definition replDispatch ::
  "serverEnv \<Rightarrow> u64 \<Rightarrow> bytes \<Rightarrow> DB \<Rightarrow> world \<Rightarrow> (bytes \<times> replStatus) \<times> DB \<times> world" where
  "replDispatch env now line db w =
     (let parts = splitN 3 line; cmd = goLower (uni env) (hd parts) in
      if cmd = str ''set'' then
        (if length parts < 3 then ((println (str ''usage: set <key> <value>''), Continue), db, w)
         else case dbSet now (parts ! 1) (Some (parts ! 2)) db w of
                ((Some e, db1), w1) \<Rightarrow> (replErr env e, db1, w1)
              | ((None, db1), w1) \<Rightarrow> ((println (str ''OK''), Continue), db1, w1))
      else if cmd = str ''get'' then
        (if length parts < 2 then ((println (str ''usage: get <key>''), Continue), db, w)
         else case dbGet db (parts ! 1) of
                Inl e \<Rightarrow> (replErr env e, db, w)
              | Inr None \<Rightarrow> ((println (str ''(nil)''), Continue), db, w)
              | Inr (Some v) \<Rightarrow> ((println (goQuote (uni env) v), Continue), db, w))
      else if cmd = str ''del'' \<or> cmd = str ''delete'' then
        (if length parts < 2 then ((println (str ''usage: del <key>''), Continue), db, w)
         else case dbDelete now (parts ! 1) db w of
                ((Some e, db1), w1) \<Rightarrow> (replErr env e, db1, w1)
              | ((None, db1), w1) \<Rightarrow> ((println (str ''OK''), Continue), db1, w1))
      else if cmd = str ''keys'' then ((println (showInt (dbLen db)), Continue), db, w)
      else if cmd = str ''scan'' then
        (if length parts < 2 then ((println (str ''usage: scan <start> [end]''), Continue), db, w)
         else let end = (if length parts \<ge> 3 then Some (parts ! 2) else None)
              in ((scanOutput (uni env) (Scan db (Some (parts ! 1)) end), Continue), db, w))
      else if cmd = str ''compact'' then
        (case Compact (mapOrd env) db w of
           ((Some e, db1), w1) \<Rightarrow> (replErr env e, db1, w1)
         | ((None, db1), w1) \<Rightarrow> ((println (str ''OK''), Continue), db1, w1))
      else if cmd = str ''compact-sst'' then
        (case CompactSSTables db w of
           ((Some e, db1), w1) \<Rightarrow> (replErr env e, db1, w1)
         | ((None, db1), w1) \<Rightarrow>
             ((println (str ''OK (sstables='' @ showNat (SSTableCount db1) @ str '')''), Continue), db1, w1))
      else if cmd = str ''stats'' then
        ((statsLine (dbLen db) (SegmentCount db) (SSTableCount db) (DiskUsage db), Continue), db, w)
      else if cmd = str ''help'' then ((helpLine, Continue), db, w)
      else if cmd = str ''exit'' \<or> cmd = str ''quit'' then (([], Quit), db, w)
      else ((println (str ''unknown command '' @ goQuote (uni env) cmd @ str '' (try '' @ [39] @ str ''help'' @ [39] @ str '')''),
             Continue), db, w))"

section \<open>The loop\<close>

text \<open>
  \<open>sc.Scan()\<close> with the default line splitter: the next line without its newline and one
  trailing carriage return, an unterminated last line, the end, or a line that does not fit
  into the scanner's 64 KiB.
\<close>

datatype scanned = Line bytes bytes | NoMore | TooLong

definition dropCR :: "bytes \<Rightarrow> bytes" where
  "dropCR s = (if s \<noteq> [] \<and> last s = 13 then butlast s else s)"

definition scanLine :: "bytes \<Rightarrow> scanned" where
  "scanLine s =
     (if 10 \<in> set (take 65536 s) then
        Line (dropCR (takeWhile (\<lambda>c. c \<noteq> 10) s)) (tl (dropWhile (\<lambda>c. c \<noteq> 10) s))
      else if length s \<ge> 65536 then TooLong
      else if s = [] then NoMore
      else Line (dropCR s) [])"

lemma scanLine_shorter: "scanLine s = Line l r \<Longrightarrow> length r < length s"
proof -
  assume "scanLine s = Line l r"
  then consider "r = tl (dropWhile (\<lambda>c. c \<noteq> 10) s)" "10 \<in> set (take 65536 s)" | "r = []" "s \<noteq> []"
    by (auto simp: scanLine_def split: if_splits)
  then show ?thesis
  proof cases
    case 1
    then have "s \<noteq> []" by auto
    moreover have "length (dropWhile (\<lambda>c. c \<noteq> 10) s) \<le> length s" by (rule length_dropWhile_le)
    ultimately show ?thesis using 1(1) by (cases "dropWhile (\<lambda>c. c \<noteq> 10) s") auto
  qed auto
qed

text \<open>
  The loop of \<open>main\<close>: output, whether the scanner gave up on a long line, whether the process
  died, and the store. \<open>clock j\<close> is the time the \<open>j\<close>-th command reads.
\<close>

function replLoop ::
  "serverEnv \<Rightarrow> (nat \<Rightarrow> u64) \<Rightarrow> nat \<Rightarrow> bytes \<Rightarrow> DB \<Rightarrow> world \<Rightarrow> (bytes \<times> bool \<times> bool) \<times> DB \<times> world" where
  "replLoop env clock j input db w =
     (case scanLine input of
        NoMore \<Rightarrow> (([], False, False), db, w)
      | TooLong \<Rightarrow> (([], True, False), db, w)
      | Line l rest \<Rightarrow>
          let line = trimSpace (uni env) l in
          if line = [] then
            (case replLoop env clock j rest db w of
               ((out, tl', d), s) \<Rightarrow> ((str ''> '' @ out, tl', d), s))
          else
            (case replDispatch env (clock j) line db w of
               ((o1, Died), db1, w1) \<Rightarrow> ((o1, False, True), db1, w1)
             | ((o1, Quit), db1, w1) \<Rightarrow> ((o1, False, False), db1, w1)
             | ((o1, Continue), db1, w1) \<Rightarrow>
                 (case replLoop env clock (Suc j) rest db1 w1 of
                    ((out, tl', d), s) \<Rightarrow> ((o1 @ str ''> '' @ out, tl', d), s))))"
  by pat_completeness auto
termination
  by (relation "measure (\<lambda>(env, clock, j, input, db, w). length input)") (auto intro: scanLine_shorter)

declare replLoop.simps [simp del]

record process =
  stdout :: bytes
  stderr :: bytes
  exitCode :: nat

definition replMain ::
  "serverEnv \<Rightarrow> (nat \<Rightarrow> u64) \<Rightarrow> bytes \<Rightarrow> bool \<Rightarrow> int \<Rightarrow> bytes \<Rightarrow> world \<Rightarrow> process \<times> world" where
  "replMain env clock dirName noSync seg input w =
     (case Open \<lparr>SyncOnWrite = \<not> noSync, MaxSegmentBytes = seg, MaxMemBytes = 0\<rparr> w of
        (Inl e, w1) \<Rightarrow>
          if e = Panic then (\<lparr>stdout = [], stderr = [], exitCode = 2\<rparr>, w1)
          else (\<lparr>stdout = [], stderr = println (str ''open: '' @ errText env e), exitCode = 1\<rparr>, w1)
      | (Inr db, w1) \<Rightarrow>
          let banner = println (str ''Kora REPL '' @ [226, 128, 148] @ str '' dir='' @ dirName @ str '' sync='' @
                (if noSync then str ''false'' else str ''true'') @ str ''. Type '' @ [39] @ str ''help'' @ [39] @
                str '' for commands.'')
          in (case replLoop env clock 0 input db w1 of
                ((out, tooLong, died), db2, w2) \<Rightarrow>
                  (\<lparr>stdout = banner @ str ''> '' @ out,
                    stderr = (if tooLong then println (str ''input: bufio.Scanner: token too long'') else []),
                    exitCode = (if died then 2 else 0)\<rparr>,
                   snd (dbClose db2 w2))))"

section \<open>The abstract shell\<close>

definition lineParts :: "bytes \<Rightarrow> bytes list" where
  "lineParts line = splitN 3 line"

definition lineCmd :: "serverEnv \<Rightarrow> bytes \<Rightarrow> bytes" where
  "lineCmd env line = goLower (uni env) (hd (lineParts line))"

definition lineView :: "serverEnv \<Rightarrow> bytes \<Rightarrow> (bytes \<rightharpoonup> bytes) \<Rightarrow> (bytes \<rightharpoonup> bytes)" where
  "lineView env line m =
     (let parts = lineParts line; cmd = lineCmd env line in
      if cmd = str ''set'' \<and> length parts \<ge> 3 then m(parts ! 1 \<mapsto> parts ! 2)
      else if (cmd = str ''del'' \<or> cmd = str ''delete'') \<and> length parts \<ge> 2 then m(parts ! 1 := None)
      else m)"

text \<open>
  What a line prints, given the map before it and the database after it; the latter only
  supplies the counters of \<open>stats\<close> and \<open>compact-sst\<close>.
\<close>

definition lineOut :: "serverEnv \<Rightarrow> DB \<Rightarrow> bytes \<Rightarrow> (bytes \<rightharpoonup> bytes) \<Rightarrow> bytes" where
  "lineOut env db line m =
     (let parts = lineParts line; cmd = lineCmd env line in
      if cmd = str ''set'' then println (if length parts < 3 then str ''usage: set <key> <value>'' else str ''OK'')
      else if cmd = str ''get'' then
        println (if length parts < 2 then str ''usage: get <key>''
                 else case m (parts ! 1) of None \<Rightarrow> str ''(nil)'' | Some v \<Rightarrow> goQuote (uni env) v)
      else if cmd = str ''del'' \<or> cmd = str ''delete'' then
        println (if length parts < 2 then str ''usage: del <key>'' else str ''OK'')
      else if cmd = str ''keys'' then println (showInt (int (card (dom m))))
      else if cmd = str ''scan'' then
        (if length parts < 2 then println (str ''usage: scan <start> [end]'')
         else scanOutput (uni env) (listing m (Some (parts ! 1)) (if length parts \<ge> 3 then Some (parts ! 2) else None)))
      else if cmd = str ''compact'' then println (str ''OK'')
      else if cmd = str ''compact-sst'' then println (str ''OK (sstables='' @ showNat (SSTableCount db) @ str '')'')
      else if cmd = str ''stats'' then
        statsLine (int (card (dom m))) (SegmentCount db) (SSTableCount db) (DiskUsage db)
      else if cmd = str ''help'' then helpLine
      else if cmd = str ''exit'' \<or> cmd = str ''quit'' then []
      else println (str ''unknown command '' @ goQuote (uni env) cmd @ str '' (try '' @ [39] @ str ''help'' @ [39] @ str '')''))"

definition legalLine :: "serverEnv \<Rightarrow> bytes \<Rightarrow> bool" where
  "legalLine env line \<longleftrightarrow>
     (let parts = lineParts line; cmd = lineCmd env line in
      (cmd = str ''set'' \<and> length parts \<ge> 3 \<longrightarrow>
         keyOk (parts ! 1) \<and> parts ! 1 \<noteq> [] \<and> length (parts ! 2) \<le> MaxValueSize) \<and>
      ((cmd = str ''del'' \<or> cmd = str ''delete'') \<and> length parts \<ge> 2 \<longrightarrow> keyOk (parts ! 1) \<and> parts ! 1 \<noteq> []))"

definition lineStatus :: "serverEnv \<Rightarrow> bytes \<Rightarrow> replStatus" where
  "lineStatus env line = (if lineCmd env line = str ''exit'' \<or> lineCmd env line = str ''quit'' then Quit else Continue)"

lemma replDispatch_served:
  assumes "serverInv (Suc n) (db, w)" "legalLine env line" "envOk env"
  shows "\<exists>db' w'. replDispatch env now line db w = ((lineOut env db' line (dbView db), lineStatus env line), db', w') \<and>
    serverInv n (db', w') \<and> dbView db' = lineView env line (dbView db)"
proof -
  let ?p = "lineParts line" and ?c = "lineCmd env line"
  have inv: "serverInv n (db, w)" using assms(1) serverInv_mono by simp
  note mem = serverInv_mem [OF assms(1)]
  have get: "dbGet db k = Inr (dbView db k)" for k using mem dbGet_view by blast
  have len: "dbLen db = int (card (dom (dbView db)))" using mem memOkD(4) by (simp add: dbLen_def)
  have ord: "mset (mapOrd env xs) = mset xs" for xs using assms(3) by (simp add: envOk_def)
  note simps = replDispatch_def lineOut_def lineView_def lineStatus_def lineCmd_def lineParts_def str_inj
  consider (Put) "?c = str ''set''" "length ?p \<ge> 3" | (Del) "?c = str ''del'' \<or> ?c = str ''delete''" "length ?p \<ge> 2"
    | (Cmp) "?c = str ''compact''" | (Sst) "?c = str ''compact-sst''"
    | (other) "?c = str ''set'' \<longrightarrow> length ?p < 3" "?c = str ''del'' \<or> ?c = str ''delete'' \<longrightarrow> length ?p < 2"
        "?c \<noteq> str ''compact''" "?c \<noteq> str ''compact-sst''"
    by linarith
  then show ?thesis
  proof cases
    case Put
    then have "legalOp (OpSet now (?p ! 1) (Some (?p ! 2)))" "?p ! 1 \<noteq> []"
      using assms(2) by (auto simp: legalLine_def Let_def lenOpt_def)
    then obtain db' w' where "dbSet now (?p ! 1) (Some (?p ! 2)) db w = ((None, db'), w')" "serverInv n (db', w')"
      "dbView db' = (dbView db)(?p ! 1 \<mapsto> ?p ! 2)"
      using op_served [OF assms(1), of "OpSet now (?p ! 1) (Some (?p ! 2))" id] by auto
    then show ?thesis using Put by (simp add: simps Let_def del: str_simps)
  next
    case Del
    then have "legalOp (OpDel now (?p ! 1))" "?p ! 1 \<noteq> []" using assms(2) by (auto simp: legalLine_def Let_def)
    then obtain db' w' where "dbDelete now (?p ! 1) db w = ((None, db'), w')" "serverInv n (db', w')"
      "dbView db' = (dbView db)(?p ! 1 := None)"
      using op_served [OF assms(1), of "OpDel now (?p ! 1)" id] by auto
    then show ?thesis using Del by (auto simp: simps Let_def simp del: str_simps)
  next
    case Cmp
    obtain db' w' where "Compact (mapOrd env) db w = ((None, db'), w')" "serverInv n (db', w')" "dbView db' = dbView db"
      using op_served [OF assms(1), of OpCompact "mapOrd env"] ord by auto
    then show ?thesis using Cmp by (simp add: simps Let_def del: str_simps)
  next
    case Sst
    obtain db' w' where "CompactSSTables db w = ((None, db'), w')" "serverInv n (db', w')" "dbView db' = dbView db"
      using op_served [OF assms(1), of OpCompactSSTables "mapOrd env"] ord by auto
    then show ?thesis using Sst by (simp add: simps Let_def del: str_simps)
  next
    case other
    then show ?thesis using inv get len mem Scan_listing [of db]
      by (auto simp: simps Let_def simp del: str_simps split: option.splits)
  qed
qed

section \<open>Properties\<close>



end
