(* ===== verification/Kora_Faults.thy ===== *)
theory Kora_Faults
  imports Kora_Durability
begin

text \<open>
  Faults, call by call. An operation runs in a world whose script may fail any system call,
  cut any write short, or kill the process at any call. Two families of lemmas: a stretch of
  code that reports success did exactly what it does when nothing can fail (\<open>erase\<close>), and a
  stretch that reports an error touched only files the manifest does not list (\<open>agreeOff\<close>), a
  torn record at the end of the active segment aside.
\<close>

section \<open>Success is success without faults\<close>

text \<open>The disk a restarted process finds.\<close>

definition reboot :: "world \<Rightarrow> world" where
  "reboot w = w\<lparr>script := [], dead := False\<rparr>"

lemma reboot_simps [simp]:
  "calm (reboot w)" "topdir (reboot w) = topdir w" "sstdir (reboot w) = sstdir w"
  "lookupFile p (reboot w) = lookupFile p w" "dirExists p (reboot w) = dirExists p w"
  by (simp_all add: reboot_def calm_def lookup_cong [of "w\<lparr>script := [], dead := False\<rparr>" w]
      dirExists_cong [of "w\<lparr>script := [], dead := False\<rparr>" w])

lemma reboot_ops [simp]:
  "putFile p c (reboot w) = reboot (putFile p c w)" "delFile p (reboot w) = reboot (delFile p w)"
  "appendFile p c (reboot w) = reboot (appendFile p c w)"
proof -
  show "putFile p c (reboot w) = reboot (putFile p c w)" for c by (cases p) (simp_all add: reboot_def putFile.simps)
  then show "appendFile p c (reboot w) = reboot (appendFile p c w)" by (simp add: appendFile_def split: option.splits)
  show "delFile p (reboot w) = reboot (delFile p w)" by (cases p) (simp_all add: reboot_def delFile.simps)
qed

lemma nextOutcome_reboot: "nextOutcome w = (Succeed, v) \<Longrightarrow> reboot v = reboot w"
  by (auto simp: nextOutcome_def reboot_def split: if_splits list.splits)

text \<open>
  The rules are conditional equations, so that the outcome of each call of the faulty run,
  known from a case split, evaluates the same call of the fault-free run.
\<close>

lemma erase_syscall:
  assumes "\<And>v. act (reboot v) = (fst (act v), reboot (snd (act v)))" "\<not> isl (fst (syscall act w))"
  shows "syscall act (reboot w) = (fst (syscall act w), reboot (snd (syscall act w)))"
proof -
  obtain x w' where r: "syscall act w = (Inr x, w')" using assms(2) by (cases "syscall act w"; cases "fst (syscall act w)") auto
  then obtain v where v: "nextOutcome w = (Succeed, v)" "act v = (Inr x, w')" by (auto elim: syscall_cases)
  then show ?thesis using r assms(1) [of v] nextOutcome_reboot [OF v(1)] by simp
qed

lemma erase_calls:
  "\<not> isl (fst (openTrunc p w)) \<Longrightarrow> openTrunc p (reboot w) = (fst (openTrunc p w), reboot (snd (openTrunc p w)))"
  "\<not> isl (fst (openAppend p w)) \<Longrightarrow> openAppend p (reboot w) = (fst (openAppend p w), reboot (snd (openAppend p w)))"
  "\<not> isl (fst (openRead p w)) \<Longrightarrow> openRead p (reboot w) = (fst (openRead p w), reboot (snd (openRead p w)))"
  "\<not> isl (fst (fstat p w)) \<Longrightarrow> fstat p (reboot w) = (fst (fstat p w), reboot (snd (fstat p w)))"
  "\<not> isl (fst (osRename p q w)) \<Longrightarrow> osRename p q (reboot w) = (fst (osRename p q w), reboot (snd (osRename p q w)))"
  "\<not> isl (fst (mkdirSst w)) \<Longrightarrow> mkdirSst (reboot w) = (fst (mkdirSst w), reboot (snd (mkdirSst w)))"
  unfolding openTrunc_def openAppend_def openRead_def fstat_def osRename_def mkdirSst_def
  by (rule erase_syscall; simp split: option.splits; fail)+
    (rule erase_syscall, auto simp: reboot_def split: option.splits)

lemma erase_noops:
  "\<not> isl (fst (fsync p w)) \<Longrightarrow> fsync p (reboot w) = (fst (fsync p w), reboot (snd (fsync p w)))"
  "\<not> isl (fst (fclose p w)) \<Longrightarrow> fclose p (reboot w) = (fst (fclose p w), reboot (snd (fclose p w)))"
  "\<not> isl (fst (fseek p w)) \<Longrightarrow> fseek p (reboot w) = (fst (fseek p w), reboot (snd (fseek p w)))"
  unfolding fsync_def fclose_def fseek_def by (rule erase_syscall; simp; fail)+

lemma erase_fwrite:
  assumes "snd (fst (fwrite p b w)) = None"
  shows "fwrite p b (reboot w) = (fst (fwrite p b w), reboot (snd (fwrite p b w)))"
proof -
  obtain v where v: "nextOutcome w = (Succeed, v)" "fwrite p b w = ((length b, None), appendFile p b v)"
    using assms by (auto simp: fwrite_def Let_def split: prod.splits outcome.splits)
  then show ?thesis using nextOutcome_reboot [OF v(1)] reboot_ops(3) by (metis fst_conv snd_conv fwrite_calm reboot_simps(1))
qed

lemmas erase = erase_calls erase_noops erase_fwrite
lemmas case_asm = prod.split_asm sum.split_asm option.split_asm if_split_asm

declare fwrite_calm [simp del] fsync_calm [simp del] fclose_calm [simp del] fseek_calm [simp del]
  openTrunc_calm [simp del] openRead_calm [simp del] osRename_calm [simp del]

lemma erase_createSegment:
  "\<not> isl (fst (createSegment i w)) \<Longrightarrow> createSegment i (reboot w) = (fst (createSegment i w), reboot (snd (createSegment i w)))"
  by (auto simp: createSegment_def Let_def erase split: case_asm)

lemma erase_segAppend:
  "\<not> isl (fst (segAppend s b w)) \<Longrightarrow> segAppend s b (reboot w) = (fst (segAppend s b w), reboot (snd (segAppend s b w)))"
  by (auto simp: segAppend_def erase split: case_asm)

lemma erase_writeManifest:
  "fst (writeManifest m w) = None \<Longrightarrow> writeManifest m (reboot w) = (None, reboot (snd (writeManifest m w)))"
  by (auto simp: writeManifest_def Let_def erase split: case_asm)

lemma erase_maybeRollover:
  "maybeRollover db w = ((None, db1), w1) \<Longrightarrow> maybeRollover db (reboot w) = ((None, db1), reboot w1)"
  by (auto simp: maybeRollover_def Let_def segSync_def erase erase_createSegment erase_writeManifest split: case_asm)

lemma erase_appendActive:
  "appendActive db b w = ((None, db1), w1) \<Longrightarrow> appendActive db b (reboot w) = ((None, db1), reboot w1)"
  by (auto simp: appendActive_def Let_def segSync_def erase erase_segAppend split: case_asm)

lemma erase_wput:
  "fst (fst (wput wr b w)) = None \<Longrightarrow> wput wr b (reboot w) = (fst (wput wr b w), reboot (snd (wput wr b w)))"
  by (auto simp: wput_def erase split: case_asm prod.splits)

lemma erase_writeRecord:
  "fst (fst (writeRecord wr k v w)) = None \<Longrightarrow> writeRecord wr k v (reboot w) = (fst (writeRecord wr k v w), reboot (snd (writeRecord wr k v w)))"
  by (auto simp: writeRecord_def Let_def erase_wput split: case_asm)

lemma erase_writerOps:
  "fst (fst (writerSet wr k x w)) = None \<Longrightarrow> writerSet wr k x (reboot w) = (fst (writerSet wr k x w), reboot (snd (writerSet wr k x w)))"
  "fst (fst (writerDelete wr k w)) = None \<Longrightarrow> writerDelete wr k (reboot w) = (fst (writerDelete wr k w), reboot (snd (writerDelete wr k w)))"
  by (auto simp: writerSet_def writerDelete_def erase_writeRecord split: case_asm)

lemma erase_writeEntries:
  "fst (fst (writeEntries wr es w)) = None \<Longrightarrow> writeEntries wr es (reboot w) = (fst (writeEntries wr es w), reboot (snd (writeEntries wr es w)))"
  by (induction wr es w rule: writeEntries.induct) (auto simp: erase_writerOps split: case_asm)

lemma erase_writerClose:
  "fst (writerClose wr w) = None \<Longrightarrow> writerClose wr (reboot w) = (None, reboot (snd (writerClose wr w)))"
  by (auto simp: writerClose_def buildBloom_def closeWith_def Let_def erase split: case_asm)

lemma erase_writeSST:
  "fst (writeSST p es w) = None \<Longrightarrow> writeSST p es (reboot w) = (None, reboot (snd (writeSST p es w)))"
  by (auto simp: writeSST_def NewWriter_def erase erase_writeEntries erase_writerClose split: case_asm)

lemma erase_sstOpen:
  "\<not> isl (fst (sstOpen p w)) \<Longrightarrow> sstOpen p (reboot w) = (fst (sstOpen p w), reboot (snd (sstOpen p w)))"
  by (auto simp: sstOpen_def erase split: case_asm)

section \<open>What a failure leaves alone\<close>

definition agreeOff :: "path set \<Rightarrow> world \<Rightarrow> world \<Rightarrow> bool" where
  "agreeOff P w w' \<longleftrightarrow> (\<forall>q. q \<notin> P \<longrightarrow> lookupFile q w' = lookupFile q w)"

lemma agreeOff_refl [simp]: "agreeOff P w w"
  by (simp add: agreeOff_def)

lemma agreeOff_trans: "agreeOff P u v \<Longrightarrow> agreeOff P v w \<Longrightarrow> agreeOff P u w"
  by (simp add: agreeOff_def)

lemma onlyAt_agreeOff: "onlyAt p u v \<Longrightarrow> p \<in> P \<Longrightarrow> agreeOff P u v"
  by (auto simp: agreeOff_def onlyAt_def)

lemma agreeOff_quietly:
  "p \<in> P \<Longrightarrow> agreeOff P u v \<Longrightarrow> agreeOff P u (quietly (osRemove p) v)"
  "agreeOff P u v \<Longrightarrow> agreeOff P u (quietly (fclose p) v)"
  by (metis agreeOff_def quietly_frame(1)) (simp add: agreeOff_def quietly_frame(2))

lemma agreeOff_calls:
  "fsync p w = (r, w') \<Longrightarrow> agreeOff P w w'" "openRead p w = (rb, w') \<Longrightarrow> agreeOff P w w'"
  "mkdirSst w = (r, w') \<Longrightarrow> agreeOff P w w'" "fstat p w = (rn, w') \<Longrightarrow> agreeOff P w w'"
proof -
  show "fsync p w = (r, w') \<Longrightarrow> agreeOff P w w'" "openRead p w = (rb, w') \<Longrightarrow> agreeOff P w w'"
    using call_frame(4,7) by (simp_all add: agreeOff_def)
  show "fstat p w = (rn, w') \<Longrightarrow> agreeOff P w w'"
    by (auto simp: agreeOff_def fstat_def nextOutcome_frame elim!: syscall_cases split: option.splits)
  have mk: "lookupFile q (case sstdir v of None \<Rightarrow> v\<lparr>sstdir := Some []\<rparr> | Some _ \<Rightarrow> v) = lookupFile q v" for q v
    by (cases q) (auto simp: lookupFile.simps split: option.splits)
  show "mkdirSst w = (r, w') \<Longrightarrow> agreeOff P w w'"
    unfolding mkdirSst_def by (erule syscall_cases) (auto simp: agreeOff_def mk nextOutcome_frame(1))
qed

lemma createSegment_agree:
  assumes "createSegment i w = (r, w')" "segmentPath i \<in> P"
  shows "agreeOff P w w'"
proof -
  obtain r1 w1 where o: "openAppend (segmentPath i) w = (r1, w1)" by fastforce
  have 1: "agreeOff P w w1" using call_frame(2) [OF o] assms(2) by (metis agreeOff_def)
  obtain r2 w2 where f: "fstat (segmentPath i) w1 = (r2, w2)" by fastforce
  have "agreeOff P w w2" using agreeOff_trans [OF 1 agreeOff_calls(4) [OF f]] .
  then show ?thesis using assms(1) o f 1 agreeOff_quietly(2)
    by (auto simp: createSegment_def Let_def split: sum.splits)
qed

lemma createSegment_sid: "createSegment i w = (Inr s, w') \<Longrightarrow> sid s = i"
  by (auto simp: createSegment_def Let_def split: prod.splits sum.splits)

lemma writeManifest_agree:
  assumes "writeManifest m w = (Some e, w')" "Top manifestTmpName \<in> P"
  shows "agreeOff P w w'"
  using assms writeManifest_frame [OF assms(1)] writeManifest_result [OF assms(1)]
  by (auto simp: agreeOff_def) metis

definition spare :: "DB \<Rightarrow> path set" where
  "spare db = {Top manifestTmpName, segmentPath (nextID db), compactTmpPath (nextID db), sstFilePath (ssNextID db)}"

lemma maybeRollover_error:
  assumes "maybeRollover db w = ((Some e, db1), w1)"
  shows "agreeOff (spare db) w w1"
proof (cases "activeSeg db")
  case None
  then show ?thesis using assms by (simp add: maybeRollover_def)
next
  case (Some old)
  obtain r1 v1 where s: "segSync old w = (r1, v1)" by fastforce
  obtain r2 v2 where c: "createSegment (nextID db) v1 = (r2, v2)" by fastforce
  have P: "segmentPath (nextID db) \<in> spare db" "Top manifestTmpName \<in> spare db" by (simp_all add: spare_def)
  have 1: "agreeOff (spare db) w v1" using s agreeOff_calls(1) by (simp add: segSync_def)
  have 2: "agreeOff (spare db) w v2" using agreeOff_trans [OF 1 createSegment_agree [OF c P(1)]] .
  have 3: "agreeOff (spare db) w v3" if "writeManifest m v2 = (Some e', v3)" for m e' v3
    using agreeOff_trans [OF 2 writeManifest_agree [OF that P(2)]] .
  show ?thesis
    using assms Some s c 1 2 createSegment_sid P agreeOff_quietly 3
    by (auto simp: maybeRollover_def Let_def segClose_def split: if_splits sum.splits option.splits prod.splits)
qed

lemma appendActive_error:
  assumes "appendActive db b w = ((Some e, db2), w2)" "activeSeg db = Some seg"
  shows "\<exists>m \<le> length b. \<forall>q. lookupFile q w2 = lookupFile q (appendFile (segmentPath (sid seg)) (take m b) w)"
proof -
  let ?p = "segmentPath (sid seg)"
  obtain n eo v where f: "fwrite ?p b w = ((n, eo), v)" by (metis surj_pair)
  then have v: "\<exists>m \<le> length b. \<forall>q. lookupFile q v = lookupFile q (appendFile ?p (take m b) w)"
    by (intro exI [of _ n]) (auto simp: fwrite_def Let_def nextOutcome_frame split: prod.splits outcome.splits)
  have "lookupFile q v' = lookupFile q v" if "fsync ?p v = (r, v')" for q r v' using call_frame(4) [OF that] .
  then show ?thesis using assms f v
    by (auto simp: appendActive_def segAppend_def segSync_def Let_def split: option.splits if_splits sum.splits prod.splits)
qed

lemma flushMemtable_error:
  assumes "flushMemtable db w = ((Some e, db'), w')"
  shows "agreeOff (spare db) w w'"
proof -
  let ?P = "spare db" and ?p = "sstFilePath (ssNextID db)" and ?q = "segmentPath (nextID db)"
  have P: "?q \<in> ?P" "Top manifestTmpName \<in> ?P" "?p \<in> ?P" by (simp_all add: spare_def)
  obtain r1 w1 where m: "mkdirSst w = (r1, w1)" by fastforce
  obtain r2 w2 where ws: "writeSST ?p (Iterator (memtable db)) w1 = (r2, w2)" by fastforce
  obtain r3 w3 where so: "sstOpen ?p w2 = (r3, w3)" by fastforce
  obtain r4 w4 where c: "createSegment (nextID db) w3 = (r4, w4)" by fastforce
  have 1: "agreeOff ?P w w1" by (rule agreeOff_calls(3) [OF m])
  have 2: "agreeOff ?P w w2" using agreeOff_trans [OF 1 onlyAt_agreeOff [OF writeSST_frame [OF ws] P(3)]] .
  have "agreeOff ?P w2 w3"
    using so agreeOff_quietly(2) agreeOff_calls(2) by (fastforce simp: sstOpen_def split: prod.splits sum.splits)
  then have 3: "agreeOff ?P w w3" using agreeOff_trans 2 by blast
  have 4: "agreeOff ?P w w4" using agreeOff_trans [OF 3 createSegment_agree [OF c P(1)]] .
  have 5: "agreeOff ?P w w5" if "writeManifest m w4 = (Some e', w5)" for m e' w5
    using agreeOff_trans [OF 4 writeManifest_agree [OF that P(2)]] .
  show ?thesis
    using assms m ws so c 1 2 3 4 P createSegment_sid agreeOff_quietly 5
    by (auto simp: flushMemtable_def Let_def segClose_def split: if_splits sum.splits option.splits prod.splits)
qed

lemma retireSegments_agree: "set ids \<subseteq> I \<Longrightarrow> agreeOff (segmentPath ` I) w (retireSegments segs ids w)"
proof (induction ids arbitrary: w)
  case (Cons i ids)
  let ?v = "case map_of segs i of None \<Rightarrow> w | Some seg \<Rightarrow> quietly (segClose seg) w"
  have "agreeOff (segmentPath ` I) w ?v" by (auto simp: segClose_def intro: agreeOff_quietly split: option.splits)
  then have "agreeOff (segmentPath ` I) w (quietly (osRemove (segmentPath i)) ?v)" using Cons.prems by (auto intro: agreeOff_quietly)
  then show ?case using Cons agreeOff_trans by fastforce
qed simp

text \<open>A flush that succeeds leaves what it leaves without faults, retired segments aside.\<close>

lemma flushMemtable_success:
  assumes "flushMemtable db w = ((None, db'), w')"
  shows "\<exists>v. flushMemtable db (reboot w) = ((None, db'), v) \<and> agreeOff (segmentPath ` set (order db)) v w'"
proof (cases "Len (memtable db) = 0")
  case True
  then have "w' = w" "db' = db\<lparr>memSize := 0\<rparr>" using assms by (simp_all add: flushMemtable_def)
  then show ?thesis using True by (simp add: flushMemtable_def agreeOff_def)
next
  case False
  let ?p = "sstFilePath (ssNextID db)" and ?n = "nextID db"
  let ?m = "\<lparr>mNextID = ?n + 1, mOrder = [?n], mNextSSTID = ssNextID db + 1, mSstIDs = currentSSTIDs db @ [ssNextID db]\<rparr>"
  obtain w1 w2 r w3 s w4 w5 where ok: "mkdirSst w = (Inr (), w1)" "writeSST ?p (Iterator (memtable db)) w1 = (None, w2)"
    "sstOpen ?p w2 = (Inr r, w3)" "createSegment ?n w3 = (Inr s, w4)" "writeManifest ?m w4 = (None, w5)"
    "w' = retireSegments (segments db) (order db) w5"
    using assms False by (auto simp: flushMemtable_def Let_def split: case_asm)
  then have calmRun: "mkdirSst (reboot w) = (Inr (), reboot w1)" "writeSST ?p (Iterator (memtable db)) (reboot w1) = (None, reboot w2)"
    "sstOpen ?p (reboot w2) = (Inr r, reboot w3)" "createSegment ?n (reboot w3) = (Inr s, reboot w4)"
    "writeManifest ?m (reboot w4) = (None, reboot w5)"
    by (simp_all add: erase erase_writeSST erase_sstOpen erase_createSegment erase_writeManifest)
  let ?v = "retireSegments (segments db) (order db) (reboot w5)"
  have "flushMemtable db (reboot w) = ((None, db'), ?v)"
    using assms False ok calmRun by (simp add: flushMemtable_def Let_def)
  moreover have "agreeOff (segmentPath ` set (order db)) ?v w'"
    using retireSegments_agree [of "order db" "set (order db)" w5 "segments db"]
      retireSegments_agree [of "order db" "set (order db)" "reboot w5" "segments db"] ok(6)
    by (simp add: agreeOff_def)
  ultimately show ?thesis by blast
qed

section \<open>The same for the compactions\<close>

lemma reboot_fclose [simp]: "reboot (quietly (fclose p) w) = reboot w"
  by (auto simp: quietly_def fclose_def syscall_def nextOutcome_def reboot_def split: list.splits outcome.splits)

lemma erase_scanSegment:
  "snd (snd (fst (scanSegment p fn st w))) = None \<Longrightarrow>
     scanSegment p fn st (reboot w) = (fst (scanSegment p fn st w), reboot (snd (scanSegment p fn st w)))"
  by (auto simp: scanSegment_def erase split: case_asm)

lemma erase_readLatest:
  "\<not> isl (fst (readLatest snap l w)) \<Longrightarrow> readLatest snap l (reboot w) = (fst (readLatest snap l w), reboot (snd (readLatest snap l w)))"
  by (induction snap l w rule: readLatest.induct) (auto simp: erase_scanSegment split: case_asm)

lemma erase_writeLatest:
  "fst (writeLatest p rs w) = None \<Longrightarrow> writeLatest p rs (reboot w) = (None, reboot (snd (writeLatest p rs w)))"
  by (induction p rs w rule: writeLatest.induct) (auto simp: erase dropTmp_def split: case_asm)

lemma erase_compactMerge:
  "fst (compactMerge ord snap n w) = None \<Longrightarrow> compactMerge ord snap n (reboot w) = (None, reboot (snd (compactMerge ord snap n w)))"
  by (auto simp: compactMerge_def compactWrite_def Let_def dropTmp_def erase erase_readLatest erase_writeLatest split: case_asm)

lemma erase_openSegmentReadOnly:
  "\<not> isl (fst (openSegmentReadOnly i w)) \<Longrightarrow>
     openSegmentReadOnly i (reboot w) = (fst (openSegmentReadOnly i w), reboot (snd (openSegmentReadOnly i w)))"
  by (auto simp: openSegmentReadOnly_def Let_def erase split: case_asm)

lemma erase_mergeWrite:
  "fst (fst (mergeWrite wr lk es w)) = None \<Longrightarrow> mergeWrite wr lk es (reboot w) = (fst (mergeWrite wr lk es w), reboot (snd (mergeWrite wr lk es w)))"
  by (induction wr lk es w rule: mergeWrite.induct) (auto simp: erase_writerOps Let_def split: case_asm)

lemma erase_kWayMerge:
  "fst (kWayMergeSSTables rs p w) = None \<Longrightarrow> kWayMergeSSTables rs p (reboot w) = (None, reboot (snd (kWayMergeSSTables rs p w)))"
  by (auto simp: kWayMergeSSTables_def NewWriter_def Let_def erase erase_mergeWrite erase_writerClose split: case_asm)

text \<open>What the phases of the log compaction write.\<close>

lemma agreeOff_writes:
  "openTrunc p w = (r, w') \<Longrightarrow> p \<in> P \<Longrightarrow> agreeOff P w w'" "fwrite p b w = (x, w') \<Longrightarrow> p \<in> P \<Longrightarrow> agreeOff P w w'"
  "osRename p q w = (r, w') \<Longrightarrow> p \<in> P \<Longrightarrow> q \<in> P \<Longrightarrow> agreeOff P w w'" "fclose p w = (r, w') \<Longrightarrow> agreeOff P w w'"
proof -
  show "openTrunc p w = (r, w') \<Longrightarrow> p \<in> P \<Longrightarrow> agreeOff P w w'" "fwrite p b w = (x, w') \<Longrightarrow> p \<in> P \<Longrightarrow> agreeOff P w w'"
    by (blast intro: onlyAt_agreeOff onlyAt_calls)+
  show "osRename p q w = (r, w') \<Longrightarrow> p \<in> P \<Longrightarrow> q \<in> P \<Longrightarrow> agreeOff P w w'" unfolding agreeOff_def by (metis rename_frame)
  show "fclose p w = (r, w') \<Longrightarrow> agreeOff P w w'" unfolding agreeOff_def using call_frame(5) by blast
qed

lemma scanSegment_agree: "scanSegment p fn st w = (x, w') \<Longrightarrow> agreeOff P w w'"
  by (auto simp: scanSegment_def intro: agreeOff_quietly agreeOff_calls split: prod.splits sum.splits)

lemma readLatest_agree: "readLatest snap l w = (r, w') \<Longrightarrow> agreeOff P w w'"
proof (induction snap l w rule: readLatest.induct)
  case (2 i snap l w)
  then show ?case using scanSegment_agree [of "segmentPath i" keepLatest l w _ _ P] agreeOff_trans
    by (fastforce split: prod.splits option.splits)
qed simp

lemma dropTmp_agree: "agreeOff P u w \<Longrightarrow> p \<in> P \<Longrightarrow> agreeOff P u (snd (dropTmp p e w))"
  by (simp add: dropTmp_def agreeOff_quietly)

lemma writeLatest_agree: "writeLatest p rs w = (r, w') \<Longrightarrow> p \<in> P \<Longrightarrow> agreeOff P w w'"
proof (induction p rs w rule: writeLatest.induct)
  case (2 p rec rs w)
  show ?case
  proof (cases "IsTombstone rec")
    case False
    show ?thesis
    proof (cases "EncodeAt (Timestamp rec) (Key rec) (Value rec)")
      case (Inl e)
      then show ?thesis using False 2 dropTmp_agree [of P w w p e] by simp
    next
      case (Inr b)
      obtain n eo v where f: "fwrite p b w = ((n, eo), v)" by (metis surj_pair)
      note a = agreeOff_writes(2) [OF f "2.prems"(2)]
      show ?thesis
      proof (cases eo)
        case None
        then show ?thesis using agreeOff_trans [OF a] "2.IH"(2) [OF False Inr f [symmetric] refl] "2.prems" False Inr f by simp
      next
        case (Some e)
        then show ?thesis using dropTmp_agree [OF a "2.prems"(2), of e] "2.prems" False Inr f by simp
      qed
    qed
  qed (use 2 in simp)
qed simp

lemma compactMerge_agree:
  assumes "compactMerge ord snap n w = (eo, w')" "compactTmpPath n \<in> P" "segmentPath n \<in> P"
  shows "agreeOff P w w'"
proof -
  let ?p = "compactTmpPath n"
  obtain r1 w1 where c1: "readLatest snap [] w = (r1, w1)" by fastforce
  obtain r2 w2 where c2: "openTrunc ?p w1 = (r2, w2)" by fastforce
  obtain r3 w3 where c3: "writeLatest ?p (ord (map snd (projr r1))) w2 = (r3, w3)" by fastforce
  obtain r4 w4 where c4: "fsync ?p w3 = (r4, w4)" by fastforce
  obtain r5 w5 where c5: "fclose ?p w4 = (r5, w5)" by fastforce
  obtain r6 w6 where c6: "osRename ?p (segmentPath n) w5 = (r6, w6)" by fastforce
  note 1 = readLatest_agree [OF c1, of P]
  note 2 = agreeOff_trans [OF 1 agreeOff_writes(1) [OF c2 assms(2)]]
  note 3 = agreeOff_trans [OF 2 writeLatest_agree [OF c3 assms(2)]]
  note 4 = agreeOff_trans [OF 3 agreeOff_calls(1) [OF c4]]
  note 5 = agreeOff_trans [OF 4 agreeOff_writes(4) [OF c5]]
  note 6 = agreeOff_trans [OF 5 agreeOff_writes(3) [OF c6 assms(2,3)]]
  show ?thesis
    using assms(1,2) 1 2 3 4 5 6 c1 c2 c3 c4 c5 c6
    by (auto simp: compactMerge_def compactWrite_def Let_def dropTmp_def agreeOff_quietly split: sum.splits option.splits)
qed

lemma retireSnap_agree:
  "set snap \<subseteq> I \<Longrightarrow> agreeOff (segmentPath ` I) w (snd (retireSnap snap segs w)) \<and>
     fst (retireSnap snap segs w) = fst (retireSnap snap segs v)"
proof (induction snap arbitrary: segs w v)
  case (Cons i snap)
  let ?P = "segmentPath ` I"
  have i: "segmentPath i \<in> ?P" using Cons.prems by simp
  have 1: "agreeOff ?P w (quietly (osRemove (segmentPath i)) w)" by (rule agreeOff_quietly(1) [OF i agreeOff_refl])
  have 2: "agreeOff ?P w (quietly (osRemove (segmentPath i)) (quietly (segClose s) w))" for s
    unfolding segClose_def by (rule agreeOff_quietly(1) [OF i agreeOff_quietly(2) [OF agreeOff_refl]])
  note IH = Cons.IH [OF subset_trans [OF set_subset_Cons Cons.prems]]
  show ?case
  proof (cases "map_of segs i")
    case None
    then show ?thesis using agreeOff_trans [OF 1] IH [THEN conjunct1] IH [THEN conjunct2] by simp
  next
    case (Some x)
    then show ?thesis using agreeOff_trans [OF 2 [of x]] IH [THEN conjunct1] IH [THEN conjunct2] by simp
  qed
qed simp

lemma openSegmentReadOnly_agree: "openSegmentReadOnly i w = (r, w') \<Longrightarrow> agreeOff P w w'"
proof -
  assume run: "openSegmentReadOnly i w = (r, w')"
  obtain r1 w1 where c1: "openRead (segmentPath i) w = (r1, w1)" by fastforce
  obtain r2 w2 where c2: "fstat (segmentPath i) w1 = (r2, w2)" by fastforce
  note 1 = agreeOff_calls(2) [OF c1, of P]
  note 2 = agreeOff_trans [OF 1 agreeOff_calls(4) [OF c2]]
  show ?thesis using run 1 2 c1 c2
    by (auto simp: openSegmentReadOnly_def Let_def agreeOff_quietly split: sum.splits)
qed

lemma compactSwap_error:
  assumes "compactSwap snap n db w = ((Some e, db'), w')" "segmentPath n \<in> P" "Top manifestTmpName \<in> P" "active db \<noteq> None"
  shows "agreeOff P w w'"
proof -
  obtain r1 w1 where c1: "openSegmentReadOnly n w = (r1, w1)" by fastforce
  note 1 = openSegmentReadOnly_agree [OF c1, of P]
  have "agreeOff P w w2" if "writeManifest m w1 = (Some e', w2)" for m e' w2
    using agreeOff_trans [OF 1 writeManifest_agree [OF that assms(3)]] .
  then show ?thesis using assms(1,2,4) c1 1
    by (auto simp: compactSwap_def Let_def writeManifestLocked_def segClose_def agreeOff_quietly split: sum.splits option.splits prod.splits)
qed

lemma compactSwap_success:
  assumes "compactSwap snap n db w = ((None, db'), w')"
  shows "\<exists>v. compactSwap snap n db (reboot w) = ((None, db'), v) \<and> agreeOff (segmentPath ` set snap) v w'"
proof -
  let ?no = "n # filter (\<lambda>i. i \<notin> set snap) (order db)"
  obtain s w1 w2 where ok: "openSegmentReadOnly n w = (Inr s, w1)" "writeManifestLocked (db\<lparr>order := ?no\<rparr>) w1 = (None, w2)"
    "active db \<noteq> None"
    using assms by (auto simp: compactSwap_def Let_def split: case_asm if_splits)
  then have calmRun: "openSegmentReadOnly n (reboot w) = (Inr s, reboot w1)"
    "writeManifestLocked (db\<lparr>order := ?no\<rparr>) (reboot w1) = (None, reboot w2)"
    by (simp_all add: erase_openSegmentReadOnly writeManifestLocked_def erase_writeManifest)
  let ?segs = "AList.update n s (segments db)"
  have w': "w' = snd (retireSnap snap ?segs w2)" "db' = db\<lparr>order := ?no, segments := fst (retireSnap snap ?segs w2)\<rparr>"
    using assms ok by (auto simp: compactSwap_def Let_def split: prod.splits)
  note rt = retireSnap_agree [OF subset_refl, of snap]
  have "compactSwap snap n db (reboot w) = ((None, db'), snd (retireSnap snap ?segs (reboot w2)))"
    using calmRun w'(2) ok(3) rt [of "reboot w2" ?segs w2] by (simp add: compactSwap_def Let_def case_prod_unfold)
  moreover have "agreeOff (segmentPath ` set snap) (snd (retireSnap snap ?segs (reboot w2))) w'"
    using rt [of "reboot w2" ?segs w2] rt [of w2 ?segs w2] w'(1) by (simp add: agreeOff_def)
  ultimately show ?thesis by blast
qed

lemma kWayMerge_frame:
  assumes "kWayMergeSSTables rs p w = (eo, w')"
  shows "onlyAt p w w'"
proof -
  obtain r w1 where nw: "NewWriter p w = (r, w1)" by fastforce
  note 1 = NewWriter_frame [OF nw]
  show ?thesis
  proof (cases r)
    case (Inr wr)
    obtain eo2 wr2 w2 where mw: "mergeWrite wr None (popSeq (pushSources 0 (map CompactionIterator rs) [])) w1 = ((eo2, wr2), w2)"
      by (metis surj_pair)
    have 2: "wpath wr2 = p" "onlyAt p w w2" using mergeWrite_frame [OF mw] 1 Inr onlyAt_trans by force+
    obtain eo3 w3 where wc: "writerClose wr2 w2 = (eo3, w3)" by fastforce
    have "onlyAt p w w3" using onlyAt_trans [OF 2(2)] writerClose_frame [OF wc] 2(1) by simp
    then show ?thesis using assms nw Inr mw wc by (simp add: kWayMergeSSTables_def split: option.splits)
  qed (use assms nw 1 in \<open>simp add: kWayMergeSSTables_def\<close>)
qed

lemma sstOpen_agree: "sstOpen p w = (r, w') \<Longrightarrow> agreeOff P w w'"
  using agreeOff_quietly(2) agreeOff_calls(2) by (fastforce simp: sstOpen_def split: prod.splits sum.splits)

lemma CompactSSTables_error:
  assumes "CompactSSTables db w = ((Some e, db'), w')"
  shows "agreeOff (spare db) w w'"
proof -
  let ?p = "sstFilePath (ssNextID db)"
  have P: "?p \<in> spare db" "Top manifestTmpName \<in> spare db" by (simp_all add: spare_def)
  obtain r1 w1 where c1: "kWayMergeSSTables (ssReaders db) ?p w = (r1, w1)" by fastforce
  obtain r2 w2 where c2: "sstOpen ?p w1 = (r2, w2)" by fastforce
  note 1 = onlyAt_agreeOff [OF kWayMerge_frame [OF c1] P(1)]
  note 2 = agreeOff_trans [OF 1 sstOpen_agree [OF c2]]
  have 3: "agreeOff (spare db) w w3" if "writeManifest m w2 = (Some e', w3)" for m e' w3
    using agreeOff_trans [OF 2 writeManifest_agree [OF that P(2)]] .
  show ?thesis using assms 1 2 3 c1 c2 P(1)
    by (auto simp: CompactSSTables_def Let_def agreeOff_quietly split: if_splits sum.splits option.splits prod.splits)
qed

lemma retireTables_agree: "set rs \<subseteq> R \<Longrightarrow> agreeOff (rpath ` R) w (retireTables rs w)"
proof (induction rs arbitrary: w)
  case (Cons r rs)
  let ?v = "quietly (osRemove (rpath r)) (quietly (fclose (rpath r)) w)"
  have "agreeOff (rpath ` R) w ?v" using Cons.prems by (intro agreeOff_quietly agreeOff_refl) simp
  then show ?case using Cons agreeOff_trans by (fastforce simp: retireTables_def Path_def)
qed (simp add: retireTables_def)

lemma CompactSSTables_success:
  assumes "CompactSSTables db w = ((None, db'), w')" "\<not> length (ssReaders db) < 2"
  shows "\<exists>v. CompactSSTables db (reboot w) = ((None, db'), v) \<and> agreeOff (rpath ` set (ssReaders db)) v w'"
proof -
  let ?p = "sstFilePath (ssNextID db)" and ?rs = "ssReaders db"
  let ?m = "\<lparr>mNextID = nextID db, mOrder = order db, mNextSSTID = ssNextID db + 1, mSstIDs = [ssNextID db]\<rparr>"
  obtain w1 r w2 w3 where ok: "kWayMergeSSTables ?rs ?p w = (None, w1)" "sstOpen ?p w1 = (Inr r, w2)" "writeManifest ?m w2 = (None, w3)"
    "w' = retireTables ?rs w3"
    using assms by (auto simp: CompactSSTables_def Let_def split: case_asm)
  then have calmRun: "kWayMergeSSTables ?rs ?p (reboot w) = (None, reboot w1)" "sstOpen ?p (reboot w1) = (Inr r, reboot w2)"
    "writeManifest ?m (reboot w2) = (None, reboot w3)"
    by (simp_all add: erase_kWayMerge erase_sstOpen erase_writeManifest)
  have "CompactSSTables db (reboot w) = ((None, db'), retireTables ?rs (reboot w3))"
    using assms ok calmRun by (simp add: CompactSSTables_def Let_def)
  moreover have "agreeOff (rpath ` set ?rs) (retireTables ?rs (reboot w3)) w'"
    using retireTables_agree [of ?rs "set ?rs" w3] retireTables_agree [of ?rs "set ?rs" "reboot w3"] ok(4) by (simp add: agreeOff_def)
  ultimately show ?thesis by blast
qed

lemma sstOpen_ID: "sstOpen p w = (Inr r, w') \<Longrightarrow> ID r = idOfName p"
proof -
  have "loadFooterAndIndex q = Inr r \<Longrightarrow> rid r = rid q" for q
    by (auto simp: loadFooterAndIndex_def Let_def split: if_splits sum.splits prod.splits)
  then show "sstOpen p w = (Inr r, w') \<Longrightarrow> ID r = idOfName p"
    by (auto simp: sstOpen_def ID_def split: prod.splits sum.splits)
qed

end
