(* ===== verification/Kora_Crash.thy ===== *)
theory Kora_Crash
  imports Kora_Faults
begin

text \<open>
  Crash safety of the store. Every operation is atomic under faults (\<open>atomic\<close>): if it reports
  success the database is in order with the new contents, and otherwise the directory
  represents the old contents or the new ones. From this: every acknowledged operation
  survives a crash at any system call.
\<close>

section \<open>What survives\<close>

text \<open>The files the manifest of a durable database lists, and the manifest itself.\<close>

definition listed :: "DB \<Rightarrow> path set" where
  "listed db = insert (Top manifestName) (segmentPath ` set (order db) \<union> sstFilePath ` set (currentSSTIDs db))"

lemma spare_unlisted: "dbOk db w \<Longrightarrow> spare db \<inter> listed db = {}"
  using dbOk_order(4) [of db w] dbOk_shape [of db w] idsValid_fresh [of "ssNextID db" "currentSSTIDs db"]
    manifest_names by (auto simp: spare_def listed_def shapeOk_def)

lemma diskRepBy_cong:
  assumes "diskRepBy w m t T"
    and "\<And>p. p \<in> manifestFiles m \<Longrightarrow>
      lookupFile p w' = lookupFile p w"
  shows "diskRepBy w' m t T" "diskMap w' m T = diskMap w m T"
proof -
  have seg: "lookupFile (segmentPath i) w' = lookupFile (segmentPath i) w" if "i \<in> set (mOrder m)" for i
    using assms(2) that by simp
  have last: "last (mOrder m) \<in> set (mOrder m)" using assms(1) by (simp add: diskRepBy_def)
  have "list_all (logClean w') (butlast (mOrder m)) = list_all (logClean w) (butlast (mOrder m))"
    unfolding list_all_iff using log_cong(1) [OF seg] in_set_butlastD by metis
  then show "diskRepBy w' m t T"
    using assms log_cong(2) [OF seg [OF last]] by (simp add: diskRepBy_def)
  show "diskMap w' m T = diskMap w m T"
    using recordsAt_cong [OF seg] by (simp add: diskMap_def cong: map_cong)
qed

lemma durable_survives:
  assumes "dbOk db w" "durable db w" "agreeOff P w w'" "P \<inter> listed db = {}"
  shows "diskRep w' (dbView db)"
proof -
  obtain m T where m: "diskRepBy w m [] T" "diskMap w m T = dbView db" "mOrder m = order db" "mSstIDs m = currentSSTIDs db"
    by (rule durable_diskRep [OF assms(1,2)])
  have "lookupFile p w' = lookupFile p w" if "p \<in> listed db" for p using assms(3,4) that by (auto simp: agreeOff_def)
  then show ?thesis using diskRepBy_cong [OF m(1), of w'] m(2-4) unfolding listed_def diskRep_def by metis
qed

lemma dbOk_same:
  assumes "\<And>p. lookupFile p w' = lookupFile p w"
  shows "dbOk db w' = dbOk db w" "durable db w' = durable db w"
proof -
  have r: "recordsAt w' = recordsAt w" using assms by (simp add: recordsAt_def fun_eq_iff)
  then show "dbOk db w' = dbOk db w" by (simp add: dbOk_def assms segOk_def [abs_def] tableAt_def [abs_def])
  show "durable db w' = durable db w" by (simp add: durable_def synced_def logRecords_def r assms)
qed

text \<open>Removals that did not happen leave only files the database does not use.\<close>

lemma dbOk_transfer:
  assumes ok: "dbOk db v" "durable db v" and P: "agreeOff P v w" "P \<inter> listed db = {}" "\<And>i. segmentPath i \<in> P \<Longrightarrow> i < nextID db"
  shows "dbOk db w" "durable db w"
proof -
  have same: "lookupFile p w = lookupFile p v" if "p \<in> listed db" for p using P(1,2) that by (auto simp: agreeOff_def)
  have seg: "lookupFile (segmentPath i) w = lookupFile (segmentPath i) v" if "i \<in> set (order db)" for i
    using same that by (simp add: listed_def)
  have tab: "tableAt w r = tableAt v r" if "r \<in> set (ssReaders db)" for r
    using that by (intro tableAt_cong same) (simp add: listed_def currentSSTIDs_def)
  have "i < nextID db" if "lookupFile (segmentPath i) w \<noteq> None" for i
    using ok(1) P(1,3) that by (cases "segmentPath i \<in> P") (auto simp: agreeOff_def dbOk_def)
  then show "dbOk db w" using ok(1) segOk_cong [OF seg refl] tab by (simp add: dbOk_def list_all_iff)
  have "logRecords db w = logRecords db v" using recordsAt_cong [OF seg] by (simp add: logRecords_def cong: map_cong)
  then show "durable db w" using ok(2) same [of "Top manifestName"] by (simp add: durable_def synced_def listed_def)
qed

text \<open>What follows the last complete record of the active segment does not matter.\<close>

lemma diskRep_tail:
  assumes d: "diskRepBy w m t T" and t': "tornTail t'"
    and last: "lookupFile (segmentPath (last (mOrder m))) w' = Some (logOf (recordsAt w (last (mOrder m))) @ t')"
    and same: "\<And>p. p \<in> manifestFiles m \<Longrightarrow>
      p \<noteq> segmentPath (last (mOrder m)) \<Longrightarrow> lookupFile p w' = lookupFile p w"
  shows "diskRep w' (diskMap w m T)"
proof -
  let ?a = "last (mOrder m)"
  have ids: "mOrder m \<noteq> []" "distinct (mOrder m)" using d by (auto simp: diskRepBy_def manifestValid_def idsValid_def)
  have "list_all logRecOk (recordsAt w ?a)" using d by (simp add: diskRepBy_def logTorn_def)
  note torn = logTornI [OF last this t']
  have seg: "lookupFile (segmentPath i) w' = lookupFile (segmentPath i) w" if "i \<in> set (mOrder m)" "i \<noteq> ?a" for i
    using same [of "segmentPath i"] that by simp
  have "logClean w' i" if "i \<in> set (butlast (mOrder m))" for i
    using log_cong(1) [OF seg] that set_last_butlast [OF ids] d by (auto simp: diskRepBy_def list_all_iff)
  then have "diskRepBy w' m t' T" using d same torn(1) by (simp add: diskRepBy_def list_all_iff)
  moreover have "recordsAt w' i = recordsAt w i" if "i \<in> set (mOrder m)" for i
    using torn(2) recordsAt_cong [OF seg [OF that]] by (cases "i = ?a") simp_all
  then have "map (recordsAt w') (mOrder m) = map (recordsAt w) (mOrder m)" by simp
  then have "diskMap w' m T = diskMap w m T" by (simp only: diskMap_def)
  ultimately show ?thesis unfolding diskRep_def by metis
qed

text \<open>A record cut short at the end of the active segment loses nothing written before it.\<close>

lemma torn_survives:
  assumes ok: "dbOk db w" "durable db w" and r: "logRecOk r" and n: "n < length (encRec r)"
    and w': "\<And>q. lookupFile q w' = lookupFile q (appendFile (segmentPath (last (order db))) (take n (encRec r)) w)"
  shows "diskRep w' (dbView db)"
proof -
  let ?a = "last (order db)" and ?t = "take n (encRec r)"
  obtain m T where m: "diskRepBy w m [] T" "diskMap w m T = dbView db" "mOrder m = order db"
    by (rule durable_diskRep [OF ok])
  have seg: "lookupFile (segmentPath ?a) w = Some (logOf (recordsAt w ?a))"
    using dbOk_seg [OF ok(1) dbOk_order(3) [OF ok(1)]] by (simp add: segOk_def)
  have t: "tornTail ?t" using tornTail_cut [OF logRecOk_recOk [OF r]] n by (simp add: length_encRec)
  show ?thesis using diskRep_tail [OF m(1) t, of w'] w' seg m(2,3) by (simp add: appendFile_def)
qed

section \<open>Writes that may fail\<close>

text \<open>The database is in order, on disk and in memory, with contents \<open>M\<close>.\<close>

definition holds :: "DB \<Rightarrow> world \<Rightarrow> (bytes \<rightharpoonup> bytes) \<Rightarrow> bool" where
  "holds db w M \<longleftrightarrow> dbOk db w \<and> durable db w \<and> dbView db = M"

lemma holds_diskRep: "holds db w M \<Longrightarrow> diskRep w M"
  using durable_survives [of db w "{}" w] by (simp add: holds_def)

lemma holds_reboot: "holds db (reboot w) M = holds db w M"
  using dbOk_same [of "reboot w" w, OF reboot_simps(4)] by (simp add: holds_def)

lemma flush_transfer:
  assumes f: "flushMemtable db w = ((None, db'), w')" and ok: "dbOk db w" and room: "unat (nextID db) + 1 < 2 ^ 32"
    and calmRun: "\<And>v. flushMemtable db (reboot w) = ((None, db'), v) \<Longrightarrow> holds db' v M"
  shows "holds db' w' M"
proof -
  obtain v where v: "flushMemtable db (reboot w) = ((None, db'), v)" "agreeOff (segmentPath ` set (order db)) v w'"
    using flushMemtable_success [OF f] by blast
  note d = calmRun [OF v(1)]
  show ?thesis
  proof (cases "Len (memtable db) = 0")
    case True
    then have "w' = w" "v = reboot w" using f v(1) by (auto simp: flushMemtable_def)
    then show ?thesis using d holds_reboot by simp
  next
    case False
    then have o: "order db' = [nextID db]" "nextID db' = nextID db + 1"
      using v(1) by (auto simp: flushMemtable_def Let_def split: case_asm)
    have "segmentPath ` set (order db) \<inter> listed db' = {}" using o dbOk_order(4) [OF ok] by (auto simp: listed_def)
    moreover have "i < nextID db'" if "segmentPath i \<in> segmentPath ` set (order db)" for i
      using that o(2) u32_less_Suc [OF room] dbOk_shape [OF ok] less_trans by (fastforce simp: shapeOk_def idsValid_def)
    ultimately show ?thesis using d dbOk_transfer [OF _ _ v(2)] unfolding holds_def by blast
  qed
qed

lemma write_end_faulty:
  assumes h: "holds db w M" and room: "hasRoom 1 db0" "unat (nextID db) \<le> unat (nextID db0) + 1"
      "ssNextID db = ssNextID db0" "storedEntries db \<le> storedEntries db0 + 1"
    and f: "(if big then flushMemtable db w else ((None, db), w)) = ((eo, db'), w')"
  shows "diskRep w' M \<and> (eo = None \<longrightarrow> holds db' w' M \<and> (\<forall>k. hasRoom (Suc k) db0 \<longrightarrow> hasRoom k db'))"
proof -
  have ok: "dbOk db w" "durable db w" "dbView db = M" "dbOk db (reboot w)" "durable db (reboot w)"
    using h holds_reboot [of db w M] by (simp_all add: holds_def)
  note calmEnd = write_end_calm [OF reboot_simps(1) ok(4) room, of big]
  show ?thesis
  proof (cases eo)
    case None
    have "holds db' w' M"
    proof (cases big)
      case True
      have rm: "unat (nextID db) + 1 < 2 ^ 32" using room(1,2) by (auto simp: hasRoom_def)
      have "holds db' v M" if "flushMemtable db (reboot w) = ((None, db'), v)" for v
        using calmEnd True that ok(3,5) by (auto simp: holds_def)
      then show ?thesis using flush_transfer [OF _ ok(1) rm] f True None by simp
    qed (use f h in simp)
    moreover have "\<exists>v. (if big then flushMemtable db (reboot w) else ((None, db), reboot w)) = ((None, db'), v)"
      using f None flushMemtable_success [of db w db' w'] by (cases big) auto
    ultimately show ?thesis using calmEnd holds_diskRep by auto
  next
    case (Some e)
    then have "flushMemtable db w = ((Some e, db'), w')" using f by (cases big) auto
    then show ?thesis using durable_survives [OF ok(1,2) flushMemtable_error spare_unlisted [OF ok(1)]] ok(3) Some by auto
  qed
qed

text \<open>Rollover and append, each with its outcome; after both, the record is on disk for good.\<close>

lemma rollover_faulty:
  assumes ok: "dbOk db w" "durable db w" "unat (nextID db) + 1 < 2 ^ 32" and safe: "ssReaders db = [] \<or> \<not> rolls db"
    and run: "maybeRollover db w = ((None, db1), w1)"
  shows "dbOk db1 w1 \<and> durable db1 w1 \<and> dbView db1 = dbView db"
proof -
  note same = dbOk_same [of "reboot w" w, OF reboot_simps(4)] and same1 = dbOk_same [of "reboot w1" w1, OF reboot_simps(4)]
  have r: "dbOk db1 (reboot w1)" "sameMem db db1" "logRecords db1 (reboot w1) = logRecords db (reboot w)"
    "\<not> rolls db \<longrightarrow> db1 = db \<and> reboot w1 = reboot w" "ssReaders db = [] \<and> synced db (reboot w) \<longrightarrow> synced db1 (reboot w1)"
    using maybeRollover_calm [OF reboot_simps(1) _ ok(3), of w] ok(1) same erase_maybeRollover [OF run] by auto
  have d: "durable db (reboot w)" using ok(2) same by simp
  have "synced db1 (reboot w1)" using r(4,5) safe d by (auto simp: durable_def)
  moreover have "ssReaders db1 = ssReaders db" using r(2) by (simp add: sameMem_def)
  ultimately have "durable db1 (reboot w1)" using d r(3) sameMem_view [OF r(2)] by (simp add: durable_def)
  then show ?thesis using r(1) same1 sameMem_view [OF r(2)] by simp
qed

lemma append_faulty:
  assumes ok: "dbOk db w" "durable db w" and r: "logRecOk r"
    and run: "appendActive db (encRec r) w = ((Some e, db2), w2)"
  shows "diskRep w2 (dbView db) \<or> diskRep w2 ((dbView db)(Key r := Value r))"
proof -
  let ?p = "segmentPath (last (order db))" and ?b = "encRec r"
  obtain n where n: "n \<le> length ?b" "\<And>q. lookupFile q w2 = lookupFile q (appendFile ?p (take n ?b) w)"
    using appendActive_error [OF run activeSeg_last [OF ok(1)]] by auto
  show ?thesis
  proof (cases "n < length ?b")
    case True
    then show ?thesis using torn_survives [OF ok r _ n(2)] by blast
  next
    case False
    then have w2: "lookupFile q w2 = lookupFile q (appendFile ?p ?b w)" for q using n by simp
    let ?a = "appendedTo db w (length ?b)"
    have mem: "memOk ?a" "dbView ?a = dbView db" using dbOk_mem [OF ok(1)] by (simp_all add: memOk_def appendedTo_def dbView_lsm)
    obtain k t where t: "memOk (?a\<lparr>liveKeys := k, memtable := t\<rparr>)"
      "dbView (?a\<lparr>liveKeys := k, memtable := t\<rparr>) = (dbView db)(Key r := Value r)"
      using memOk_insert [OF mem(1), of "Key r" "Value r"] r unfolding mem(2) logRecOk_def by metis
    let ?d = "?a\<lparr>liveKeys := k, memtable := t\<rparr>"
    note l = dbOk_logged [OF ok(1) r refl w2 t(1)]
    have rd: "ssReaders ?d = ssReaders db" by (simp add: appendedTo_def)
    have "lookupFile (Top manifestName) w2 = lookupFile (Top manifestName) w" by (simp add: w2)
    then have "synced ?d w2" using ok(2) by (simp add: durable_def synced_def currentSSTIDs_def appendedTo_def)
    then have "durable ?d w2" using ok(2) l(2) t(2) rd by (simp add: durable_def del: fun_upd_apply)
    then show ?thesis using durable_survives [OF l(1) _ agreeOff_refl, of "{}"] t(2) by simp
  qed
qed

lemma write_faulty:
  assumes ok: "dbOk db w" "durable db w" and room: "hasRoom 1 db" and safe: "ssReaders db = [] \<or> \<not> rolls db" and r: "logRecOk r"
  obtains (roll) e db1 w1 where "maybeRollover db w = ((Some e, db1), w1)" "diskRep w1 (dbView db)"
  | (app) db1 w1 e db2 w2 where "maybeRollover db w = ((None, db1), w1)" "appendActive db1 (encRec r) w1 = ((Some e, db2), w2)"
      "diskRep w2 (dbView db) \<or> diskRep w2 ((dbView db)(Key r := Value r))"
  | (logged) db1 w1 db2 w2 t n where "maybeRollover db w = ((None, db1), w1)" "appendActive db1 (encRec r) w1 = ((None, db2), w2)"
      "isLiveKey db2 (Key r) = Inr (dbView db (Key r) \<noteq> None)" "Insert (memtable db2) (Key r) (Value r) = Inr t"
      "n = (case Value r of None \<Rightarrow> (if dbView db (Key r) \<noteq> None then liveKeys db2 - 1 else liveKeys db2)
        | Some _ \<Rightarrow> (if dbView db (Key r) \<noteq> None then liveKeys db2 else liveKeys db2 + 1))"
      "\<And>s eo db' w' big. (if big then flushMemtable (db2\<lparr>liveKeys := n, memtable := t, memSize := s\<rparr>) w2
          else ((None, db2\<lparr>liveKeys := n, memtable := t, memSize := s\<rparr>), w2)) = ((eo, db'), w') \<Longrightarrow>
        diskRep w' ((dbView db)(Key r := Value r)) \<and> (eo = None \<longrightarrow>
          holds db' w' ((dbView db)(Key r := Value r)) \<and> (\<forall>k. hasRoom (Suc k) db \<longrightarrow> hasRoom k db'))"
proof -
  have rm: "unat (nextID db) + 1 < 2 ^ 32" using room by (simp add: hasRoom_def)
  obtain eo db1 w1 where m: "maybeRollover db w = ((eo, db1), w1)" by (metis surj_pair)
  show thesis
  proof (cases eo)
    case (Some e)
    then show ?thesis using roll m durable_survives [OF ok maybeRollover_error spare_unlisted [OF ok(1)]] by blast
  next
    case None
    note d1 = rollover_faulty [OF ok rm safe m [unfolded None]]
    obtain eo2 db2 w2 where a: "appendActive db1 (encRec r) w1 = ((eo2, db2), w2)" by (metis surj_pair)
    show ?thesis
    proof (cases eo2)
      case (Some e)
      then show ?thesis using app [OF m [unfolded None] a [unfolded Some]] append_faulty [of db1 w1 r e db2 w2] d1 r a by simp
    next
      case N2: None
      note same = dbOk_same [of "reboot w" w, OF reboot_simps(4)] and same2 = dbOk_same [of "reboot w2" w2, OF reboot_simps(4)]
      have em: "maybeRollover db (reboot w) = ((None, db1), reboot w1)" using erase_maybeRollover m None by simp
      have ea: "appendActive db1 (encRec r) (reboot w1) = ((None, db2), reboot w2)" using erase_appendActive a N2 by simp
      have okc: "dbOk db (reboot w)" using ok same by simp
      let ?n = "case Value r of None \<Rightarrow> (if dbView db (Key r) \<noteq> None then liveKeys db - 1 else liveKeys db)
        | Some _ \<Rightarrow> (if dbView db (Key r) \<noteq> None then liveKeys db else liveKeys db + 1)"
      obtain x1 v1 x2 v2 t where c: "maybeRollover db (reboot w) = ((None, x1), v1)" "appendActive x1 (encRec r) v1 = ((None, x2), v2)"
        and s: "sameMem db x2" "isLiveKey x2 (Key r) = Inr (dbView db (Key r) \<noteq> None)" "Insert (memtable x2) (Key r) (Value r) = Inr t" "calm v2"
        "dbOk (x2\<lparr>liveKeys := ?n, memtable := t\<rparr>) v2" "dbView (x2\<lparr>liveKeys := ?n, memtable := t\<rparr>) = (dbView db)(Key r := Value r)"
        "storedEntries (x2\<lparr>liveKeys := ?n, memtable := t\<rparr>) \<le> storedEntries db + 1" "unat (nextID x2) \<le> unat (nextID db) + 1"
        "dbKeys (x2\<lparr>liveKeys := ?n, memtable := t\<rparr>) \<subseteq> insert (Key r) (dbKeys db)"
        "durable db (reboot w) \<and> (ssReaders db = [] \<or> \<not> rolls db) \<longrightarrow> durable (x2\<lparr>liveKeys := ?n, memtable := t\<rparr>) v2"
        by (rule write_calm [OF reboot_simps(1) okc rm r]) (rule that, assumption+, blast)
      have x: "x2 = db2" "v2 = reboot w2" using c em ea by simp_all
      let ?d = "\<lambda>s. db2\<lparr>liveKeys := ?n, memtable := t, memSize := s\<rparr>"
      have lk: "liveKeys db2 = liveKeys db" "ssNextID db2 = ssNextID db" using s(1) x(1) by (simp_all add: sameMem_def)
      have d: "dbOk (?d z) w2" "durable (?d z) w2" "dbView (?d z) = (dbView db)(Key r := Value r)" for z
        using s(5,6,10) same same2 ok(2) safe dbOk_memSize [of z "db2\<lparr>liveKeys := ?n, memtable := t\<rparr>"]
          memSize_irrelevant(1) [of z "db2\<lparr>liveKeys := ?n, memtable := t\<rparr>"] unfolding x by (simp_all del: fun_upd_apply)
      have h: "holds (?d z) w2 ((dbView db)(Key r := Value r))" for z using d unfolding holds_def by blast
      have rooms: "unat (nextID (?d z)) \<le> unat (nextID db) + 1" "ssNextID (?d z) = ssNextID db"
        "storedEntries (?d z) \<le> storedEntries db + 1" for z
        using s(7,8) lk unfolding x by (simp_all add: storedEntries_def tableEntries_def)
      note fin = write_end_faulty [OF h room rooms]
      show ?thesis
        by (rule logged [OF m [unfolded None] a [unfolded N2] s(2,3) [unfolded x], of ?n]) (simp only: lk, rule fin)
    qed
  qed
qed

text \<open>
  An operation is atomic: a success leaves the database in order with the new contents, a
  failure leaves a directory that represents the old contents or the new ones.
\<close>

definition atomic :: "DB \<Rightarrow> (bytes \<rightharpoonup> bytes) \<Rightarrow> dbResult \<Rightarrow> bool" where
  "atomic db M x \<longleftrightarrow> (case x of
     ((None, db'), w') \<Rightarrow> holds db' w' M \<and> (\<forall>n. hasRoom (Suc n) db \<longrightarrow> hasRoom n db')
   | ((Some e, db'), w') \<Rightarrow> diskRep w' (dbView db) \<or> diskRep w' M)"

lemma dbSet_faulty:
  assumes "dbOk db w" "durable db w" "hasRoom 1 db" "keyOk k" "lenOpt v \<le> MaxValueSize" "ssReaders db = [] \<or> \<not> rolls db"
  shows "atomic db ((dbView db)(k \<mapsto> orEmpty v)) (dbSet now k v db w)"
proof -
  let ?r = "\<lparr>Timestamp = now, Key = k, Value = Some (orEmpty v)\<rparr> :: Record"
  have val: "valOk (Some (orEmpty v))" using assms(5) by (auto simp: valOk_def lenOpt_def split: option.splits)
  then have r: "logRecOk ?r" using assms(4) by (simp add: logRecOk_def)
  note enc = encode_ok [OF assms(4) val, of now]
  from assms(1-3,6) r show ?thesis
  proof (cases rule: write_faulty)
    case (logged db1 w1 db2 w2 t n)
    let ?s = "memSize db2 + int (length k + length (orEmpty v))"
    have "dbSet now k v db w = (if ?s \<ge> MaxMemBytes (opts db2) then flushMemtable (db2\<lparr>liveKeys := n, memtable := t, memSize := ?s\<rparr>) w2
        else ((None, db2\<lparr>liveKeys := n, memtable := t, memSize := ?s\<rparr>), w2))"
      using logged(1-5) enc by (simp add: dbSet_def Let_def)
    then show ?thesis using logged(6) [of "?s \<ge> MaxMemBytes (opts db2)" ?s]
      by (auto simp: atomic_def simp del: fun_upd_apply split: prod.splits option.splits)
  qed (use enc in \<open>auto simp: dbSet_def Let_def atomic_def\<close>)
qed

lemma dbDelete_faulty:
  assumes "dbOk db w" "durable db w" "hasRoom 1 db" "keyOk k" "ssReaders db = [] \<or> \<not> rolls db"
  shows "atomic db ((dbView db)(k := None)) (dbDelete now k db w)"
proof -
  let ?r = "\<lparr>Timestamp = now, Key = k, Value = None\<rparr> :: Record"
  have val: "valOk None" by (simp add: valOk_def lenOpt_def)
  then have r: "logRecOk ?r" using assms(4) by (simp add: logRecOk_def)
  note enc = encode_ok [OF assms(4) val, of now]
  from assms(1-3,5) r show ?thesis
  proof (cases rule: write_faulty)
    case (logged db1 w1 db2 w2 t n)
    let ?s = "memSize db2 + int (length k + 1)"
    have "dbDelete now k db w = (if ?s \<ge> MaxMemBytes (opts db2) then flushMemtable (db2\<lparr>liveKeys := n, memtable := t, memSize := ?s\<rparr>) w2
        else ((None, db2\<lparr>liveKeys := n, memtable := t, memSize := ?s\<rparr>), w2))"
      using logged(1-5) enc by (simp add: dbDelete_def Let_def)
    then show ?thesis using logged(6) [of "?s \<ge> MaxMemBytes (opts db2)" ?s]
      by (auto simp: atomic_def simp del: fun_upd_apply split: prod.splits option.splits)
  qed (use enc in \<open>auto simp: dbDelete_def Let_def atomic_def\<close>)
qed

section \<open>Compactions that may fail\<close>

lemma Compact_faulty:
  assumes ok: "dbOk db w" "durable db w" and "ssReaders db = []" "unat (nextID db) + 1 < 2 ^ 32" "\<And>xs. mset (ord xs) = mset xs"
  shows "atomic db (dbView db) (Compact ord db w)"
proof -
  let ?n = "nextID db" and ?snap = "butlast (order db)" and ?db1 = "db\<lparr>nextID := nextID db + 1\<rparr>"
  note o = dbOk_order [OF ok(1)]
  note same = dbOk_same [of "reboot w" w, OF reboot_simps(4)]
  have P: "compactTmpPath ?n \<in> spare db" "segmentPath ?n \<in> spare db" "Top manifestTmpName \<in> spare db" by (simp_all add: spare_def)
  have snap: "compactSnapshot db = (if ?snap = [] then (Inr None, db) else (Inr (Some (?snap, ?n)), ?db1))"
    using o(5) filter_not_last [OF o(1,2)] by (simp add: compactSnapshot_def Let_def)
  have old: "diskRep v (dbView db)" if "agreeOff (spare db) w v" for v
    using durable_survives [OF ok that spare_unlisted [OF ok(1)]] .
  obtain r1 w1 where m: "compactMerge ord ?snap ?n w = (r1, w1)" by fastforce
  note 1 = compactMerge_agree [OF m P(1,2)]
  show ?thesis
  proof (cases "?snap = []")
    case True
    then have "Compact ord db w = ((None, db), w)" using snap by (simp add: Compact_def)
    then show ?thesis using ok by (auto simp: atomic_def holds_def hasRoom_def)
  next
    case False
    then have run: "Compact ord db w = (case r1 of Some e \<Rightarrow> ((Some e, ?db1), w1) | None \<Rightarrow> compactSwap ?snap ?n ?db1 w1)"
      using snap m by (simp add: Compact_def)
    show ?thesis
    proof (cases r1)
      case (Some e)
      then show ?thesis using run old [OF 1] by (simp add: atomic_def)
    next
      case None
      obtain eo db' w' where sw: "compactSwap ?snap ?n ?db1 w1 = ((eo, db'), w')" by (metis surj_pair)
      have merge: "compactMerge ord ?snap ?n (reboot w) = (None, reboot w1)" using erase_compactMerge [of ord ?snap ?n w] m None by simp
      show ?thesis
      proof (cases eo)
        case (Some e)
        then show ?thesis using run None sw old [OF agreeOff_trans [OF 1 compactSwap_error [OF _ P(2,3)]]] dbOk_order(5) [OF ok(1)] by (simp add: atomic_def)
      next
        case N2: None
        obtain v where v: "compactSwap ?snap ?n ?db1 (reboot w1) = ((None, db'), v)" "agreeOff (segmentPath ` set ?snap) v w'"
          using compactSwap_success sw N2 by blast
        then have "Compact ord db (reboot w) = ((None, db'), v)" using snap False merge by (simp add: Compact_def)
        moreover have "dbOk db (reboot w)" "durable db (reboot w)" using ok same by simp_all
        ultimately have d: "dbOk db' v" "durable db' v" "sameMem db db'" "unat (nextID db') \<le> unat ?n + 1"
          using Compact_calm [OF reboot_simps(1) _ assms(4,5), of w] assms(3) by auto
        have o': "order db' = ?n # filter (\<lambda>i. i \<notin> set ?snap) (order db)" "nextID db' = ?n + 1"
          using v(1) by (auto simp: compactSwap_def Let_def split: case_asm if_splits)
        have lt: "i \<noteq> ?n \<and> i < ?n + 1" if "i \<in> set ?snap" for i
          using that dbOk_shape [OF ok(1)] u32_less_Suc [OF assms(4)] in_set_butlastD
          by (fastforce simp: shapeOk_def idsValid_def intro: less_trans)
        have "segmentPath ` set ?snap \<inter> listed db' = {}" using lt [of ?n] o' by (auto simp: listed_def)
        moreover have "i < nextID db'" if "segmentPath i \<in> segmentPath ` set ?snap" for i using that lt o'(2) by auto
        ultimately have "holds db' w' (dbView db)"
          using dbOk_transfer [OF d(1,2) v(2)] sameMem_view [OF d(3)] unfolding holds_def by blast
        moreover have "hasRoom k db'" if "hasRoom (Suc k) db" for k
          using that sameMem_stored [OF d(3)] d(4) by (auto simp: hasRoom_def)
        ultimately show ?thesis using run None sw N2 by (simp add: atomic_def)
      qed
    qed
  qed
qed

lemma CompactSSTables_faulty:
  assumes ok: "dbOk db w" "durable db w" and room: "unat (ssNextID db) + 1 < 2 ^ 32" "tableEntries db \<le> 429496728"
  shows "atomic db (dbView db) (CompactSSTables db w)"
proof -
  note same = dbOk_same [of "reboot w" w, OF reboot_simps(4)]
  obtain eo db' w' where run: "CompactSSTables db w = ((eo, db'), w')" by (metis surj_pair)
  consider (none) "length (ssReaders db) < 2" | (err) e where "eo = Some e" | (merged) "eo = None" "\<not> length (ssReaders db) < 2" by fastforce
  then show ?thesis
  proof cases
    case none
    then have "CompactSSTables db w = ((None, db), w)" by (simp add: CompactSSTables_def)
    then show ?thesis using ok by (auto simp: atomic_def holds_def hasRoom_def)
  next
    case err
    then show ?thesis
      using durable_survives [OF ok CompactSSTables_error spare_unlisted [OF ok(1)]] run by (simp add: atomic_def)
  next
    case merged
    obtain v where v: "CompactSSTables db (reboot w) = ((None, db'), v)" "agreeOff (rpath ` set (ssReaders db)) v w'"
      using CompactSSTables_success run merged by blast
    have "dbOk db (reboot w)" "durable db (reboot w)" using ok same by simp_all
    then have d: "dbOk db' v" "durable db' v" "dbView db' = dbView db" "nextID db' = nextID db"
      "unat (ssNextID db') \<le> unat (ssNextID db) + 1" "storedEntries db' \<le> storedEntries db"
      using CompactSSTables_calm [OF reboot_simps(1) _ room, of w] v(1) by auto
    have ids: "rpath r = sstFilePath (ID r) \<and> ID r \<in> set (currentSSTIDs db)" if "r \<in> set (ssReaders db)" for r
      using ok(1) that by (auto simp: dbOk_def list_all_iff tableAt_def currentSSTIDs_def)
    have "currentSSTIDs db' = [ssNextID db]"
      using run merged sstOpen_ID by (auto simp: CompactSSTables_def Let_def currentSSTIDs_def split: case_asm)
    moreover have "ssNextID db \<notin> set (currentSSTIDs db)" using idsValid_fresh dbOk_shape [OF ok(1)] by (simp add: shapeOk_def)
    ultimately have "rpath ` set (ssReaders db) \<inter> listed db' = {}" using ids by (fastforce simp: listed_def)
    note t = dbOk_transfer [OF d(1,2) v(2) this]
    have "segmentPath i \<notin> rpath ` set (ssReaders db)" for i using ids by fastforce
    then have "holds db' w' (dbView db)" using t d(3) by (simp add: holds_def)
    moreover have "hasRoom k db'" if "hasRoom (Suc k) db" for k using that d(4-6) by (auto simp: hasRoom_def)
    ultimately show ?thesis using run merged by (simp add: atomic_def)
  qed
qed

lemma applyOp_faulty:
  assumes "dbOk db w" "durable db w" "hasRoom 1 db" "legalOp op" "safeOp db op" "\<And>xs. mset (ord xs) = mset xs"
  shows "atomic db (specOp op (dbView db)) (applyOp ord op db w)"
proof (cases op)
  case (OpSet now k v)
  then show ?thesis using dbSet_faulty [OF assms(1-3), of k v now] assms(4,5) by (simp del: fun_upd_apply)
next
  case (OpDel now k)
  then show ?thesis using dbDelete_faulty [OF assms(1-3), of k now] assms(4,5) by (simp del: fun_upd_apply)
next
  case OpCompact
  then show ?thesis using Compact_faulty [OF assms(1,2) _ _ assms(6)] assms(3,5) by (simp add: hasRoom_def)
next
  case OpCompactSSTables
  then show ?thesis using CompactSSTables_faulty [OF assms(1,2)] assms(3) by (simp add: hasRoom_def storedEntries_def)
qed

section \<open>Crash safety\<close>

text \<open>
  The operations a running store has acknowledged, in a world that may fail at any call.
\<close>

inductive acked :: "(Record list \<Rightarrow> Record list) \<Rightarrow> DB \<times> world \<Rightarrow> storeOp list \<Rightarrow> DB \<times> world \<Rightarrow> bool" for ord s where
  started: "acked ord s [] s"
| answered: "acked ord s ops (db, w) \<Longrightarrow> legalOp op \<Longrightarrow> safeOp db op \<Longrightarrow> applyOp ord op db w = ((None, db'), w') \<Longrightarrow>
    acked ord s (ops @ [op]) (db', w')"

lemma acked_holds:
  assumes "acked ord s ops s'" "holds (fst s) (snd s) M" "\<And>xs. mset (ord xs) = mset xs"
  shows "hasRoom (length ops + n) (fst s) \<Longrightarrow> holds (fst s') (snd s') (fold specOp ops M) \<and> hasRoom n (fst s')"
  using assms(1)
proof (induction arbitrary: n rule: acked.induct)
  case started
  then show ?case using assms(2) by simp
next
  case (answered ops db w op db' w')
  have h: "holds db w (fold specOp ops M)" "hasRoom (Suc n) db" using answered.IH [of "Suc n"] answered.prems by simp_all
  then have "hasRoom 1 db" using hasRoom_mono by simp
  then have "atomic db (specOp op (dbView db)) (applyOp ord op db w)"
    using applyOp_faulty [OF _ _ _ answered.hyps(2,3) assms(3)] h(1) unfolding holds_def by blast
  then show ?case using answered.hyps(4) h by (simp add: atomic_def holds_def del: fun_upd_apply)
qed

lemma diskRep_open:
  assumes "diskRep w M" shows "\<exists>db w'. Open o0 (reboot w) = (Inr db, w') \<and> (\<forall>k. dbGet db k = Inr (M k))"
proof -
  obtain m t T where m: "diskRepBy w m t T" "M = diskMap w m T" using assms by (auto simp: diskRep_def)
  then have "diskRepBy (reboot w) m t T" "diskMap (reboot w) m T = M" using diskRepBy_cong [OF m(1), of "reboot w"] by simp_all
  then show ?thesis using Open_diskRep [OF reboot_simps(1), of w m t T o0] dbGet_weak by (fastforce simp: opened_def)
qed


lemma memtable_length:
  assumes "dbOk db w" "map_of (Iterator (memtable db)) = replayLog rs"
  shows "length (Iterator (memtable db)) \<le> length rs"
proof -
  let ?es = "Iterator (memtable db)"
  have "distinct (map fst ?es)" using art.iter_sorted memOkD(1) dbOk_mem [OF assms(1)] strict_sorted_iff by blast
  then have "length ?es = card (fst ` set ?es)" by (metis distinct_card length_map set_map)
  also have "\<dots> = card (Key ` set rs)" using assms(2) replayLog_dom [of rs] by (metis dom_map_of_conv_image_fst)
  also have "\<dots> \<le> length rs" by (metis card_image_le card_length finite_set le_trans)
  finally show ?thesis .
qed


end
