(* ===== verification/Kora_Restart.thy ===== *)
theory Kora_Restart
  imports Kora_Crash
begin

text \<open>
  Recovery that is itself interrupted. \<open>Open\<close> reads, removes files the manifest does not list,
  and cuts a torn record off the active segment; whatever call fails or kills it, the
  directory represents the same contents as before, so the next attempt can succeed.
\<close>

section \<open>What recovery leaves alone\<close>

text \<open>
  The listed files are as they were, except that the torn tail of the active segment may be
  gone.
\<close>

definition intact :: "world \<Rightarrow> manifest \<Rightarrow> bytes \<Rightarrow> world \<Rightarrow> bool" where
  "intact w m t w' \<longleftrightarrow>
     (\<forall>p \<in> manifestFiles m.
        p \<noteq> segmentPath (last (mOrder m)) \<longrightarrow> lookupFile p w' = lookupFile p w) \<and>
     (lookupFile (segmentPath (last (mOrder m))) w' = Some (logOf (recordsAt w (last (mOrder m))) @ t) \<or>
      lookupFile (segmentPath (last (mOrder m))) w' = Some (logOf (recordsAt w (last (mOrder m)))))"

lemma intact_refl: "diskRepBy w m t T \<Longrightarrow> intact w m t w"
  by (simp add: intact_def diskRepBy_def logTorn_def)

lemma intact_agree:
  assumes "intact w m t u" "agreeOff P u v" "P \<inter> manifestFiles m = {}"
    and "mOrder m \<noteq> []"
  shows "intact w m t v"
proof -
  have same: "lookupFile p v = lookupFile p u" if "p \<in> manifestFiles m" for p
    using assms(2,3) that by (auto simp: agreeOff_def)
  have "last (mOrder m) \<in> set (mOrder m)" using assms(4) by simp
  then show ?thesis using assms(1) same by (simp add: intact_def)
qed

lemma intact_same: "intact w m t u \<Longrightarrow> agreeOff {} u v \<Longrightarrow> mOrder m \<noteq> [] \<Longrightarrow> intact w m t v"
  using intact_agree [of w m t u "{}" v] by simp

lemma intact_diskRep:
  assumes "diskRepBy w m t T" "intact w m t w'"
  shows "diskRep w' (diskMap w m T)"
proof -
  let ?a = "segmentPath (last (mOrder m))" and ?log = "logOf (recordsAt w (last (mOrder m)))"
  have t: "tornTail t" using assms(1) by (simp add: diskRepBy_def logTorn_def)
  have same: "p \<in> manifestFiles m \<Longrightarrow>
      p \<noteq> ?a \<Longrightarrow> lookupFile p w' = lookupFile p w" for p
    using assms(2) unfolding intact_def by blast
  from assms(2) have "lookupFile ?a w' = Some (?log @ t) \<or> lookupFile ?a w' = Some (?log @ [])" by (simp add: intact_def)
  then show ?thesis using diskRep_tail [OF assms(1) t _ same] diskRep_tail [OF assms(1) tornTail_Nil _ same] by blast
qed

section \<open>The steps of \<open>Open\<close>\<close>

lemma closeReaders_agree: "agreeOff P w (closeReaders rs w)"
proof (induction rs arbitrary: w)
  case (Cons r rs)
  have "agreeOff P w (quietly (fclose (rpath r)) w)" by (intro agreeOff_quietly agreeOff_refl)
  then show ?case using Cons.IH agreeOff_trans by (fastforce simp: closeReaders_def)
qed (simp add: closeReaders_def)

lemma closeSegments_agree: "agreeOff P w (snd (closeSegments segs w))"
proof (induction segs arbitrary: w)
  case (Cons x segs)
  obtain i s where x: "x = (i, s)" by (cases x)
  obtain r v where c: "segClose s w = (r, v)" by fastforce
  have "agreeOff P w v" using c agreeOff_writes(4) by (simp add: segClose_def)
  then show ?case using x c Cons.IH [of v] agreeOff_trans by (fastforce split: sum.splits)
qed simp

lemma openTables_agree: "openTables ids rs w = (r, w') \<Longrightarrow> agreeOff P w w'"
proof (induction ids rs w rule: openTables.induct)
  case (2 i ids rs w)
  obtain x v where s: "sstOpen (sstFilePath i) w = (x, v)" by fastforce
  note a = sstOpen_agree [OF s, of P]
  show ?case
  proof (cases x)
    case (Inl e)
    then show ?thesis using "2.prems" s agreeOff_trans [OF a closeReaders_agree] by auto
  next
    case (Inr y)
    then show ?thesis using "2.IH" [OF s [symmetric] Inr] "2.prems" s agreeOff_trans [OF a] by simp
  qed
qed simp

lemma removeAll_agree: "set ps \<subseteq> P \<Longrightarrow> agreeOff P w (removeAll ps w)"
proof (induction ps arbitrary: w)
  case (Cons p ps)
  have "agreeOff P w (quietly (osRemove p) w)" using Cons.prems by (intro agreeOff_quietly agreeOff_refl) simp
  then show ?case using Cons agreeOff_trans by (fastforce simp: removeAll_def)
qed (simp add: removeAll_def)

lemma readDir_agree: "readDirTop w = (r, w') \<Longrightarrow> agreeOff P w w'" "readDirSst w = (r', w') \<Longrightarrow> agreeOff P w w'"
  by (auto simp: agreeOff_def readDirTop_def readDirSst_def nextOutcome_frame elim!: syscall_cases split: option.splits)

lemma cleanupOrphanedSSTs_agree: "agreeOff {p. \<exists>n. p = Sst n \<and> isOrphan ids n} w (cleanupOrphanedSSTs ids w)"
proof -
  let ?P = "{p. \<exists>n. p = Sst n \<and> isOrphan ids n}"
  obtain r v where d: "readDirSst w = (r, v)" by fastforce
  note a = readDir_agree(2) [OF d, of ?P]
  have "agreeOff ?P v (removeAll (map Sst (filter (isOrphan ids) ns)) v)" for ns by (rule removeAll_agree) auto
  then show ?thesis using d a agreeOff_trans [OF a] by (auto simp: cleanupOrphanedSSTs_def split: sum.splits)
qed

lemma orphan_unlisted: "isOrphan ids n \<Longrightarrow> Sst n = sstFilePath i \<Longrightarrow> i \<notin> set ids"
  using sscanfId_sstName by (auto simp: isOrphan_def sstFilePath_def split: sum.splits)

lemma cleanupLeakedSegments_agree: "agreeOff (segmentPath ` (- set (order db))) w (cleanupLeakedSegments db w)"
proof -
  let ?P = "segmentPath ` (- set (order db))"
  obtain r v where d: "listSegmentIDs w = (r, v)" by fastforce
  have a: "agreeOff ?P w v" using d readDir_agree(1) by (fastforce simp: listSegmentIDs_def split: prod.splits sum.splits)
  have "agreeOff ?P v (removeAll (map segmentPath (filter (\<lambda>i. i \<notin> set (order db)) ids)) v)" for ids by (rule removeAll_agree) auto
  then show ?thesis using d a agreeOff_trans [OF a] by (auto simp: cleanupLeakedSegments_def split: sum.splits)
qed

lemma openAppend_existing:
  assumes "openAppend p w = (r, w')" "lookupFile p w \<noteq> None"
  shows "agreeOff P w w'"
  using assms by (auto simp: agreeOff_def openAppend_def nextOutcome_frame elim!: syscall_cases split: option.splits if_splits)

lemma createSegment_same:
  assumes "createSegment i w = (r, w')" "lookupFile (segmentPath i) w \<noteq> None"
  shows "agreeOff P w w'"
proof -
  obtain r1 w1 where o: "openAppend (segmentPath i) w = (r1, w1)" by fastforce
  obtain r2 w2 where f: "fstat (segmentPath i) w1 = (r2, w2)" by fastforce
  note 1 = openAppend_existing [OF o assms(2), of P]
  note 2 = agreeOff_trans [OF 1 agreeOff_calls(4) [OF f]]
  show ?thesis using assms(1) o f 1 2 agreeOff_quietly(2) by (auto simp: createSegment_def Let_def split: sum.splits)
qed

text \<open>A scan in a faulty world either fails to open the file or sees all of it.\<close>

lemma scanSegment_outcome:
  assumes "scanSegment p fn st w = (x, w')" "lookupFile p w = Some c"
  shows "(\<exists>e. x = (st, 0, Some e) \<and> e \<noteq> ErrPartialTail) \<or> x = scanLoop fn c 0 st"
proof -
  obtain r v where o: "openRead p w = (r, v)" by fastforce
  have "r = Inl ErrIO \<or> r = Inr c" using o assms(2) by (auto simp: openRead_def nextOutcome_frame elim!: syscall_cases split: option.splits)
  then show ?thesis using assms(1) o by (auto simp: scanSegment_def)
qed

lemma ftruncate_outcome:
  assumes "ftruncate p n w = (r, w')" "lookupFile p w = Some c" "n \<le> length c"
  shows "agreeOff {} w w' \<or> (\<forall>q. lookupFile q w' = (if q = p then Some (take n c) else lookupFile q w))"
proof -
  have d: "dirExists p w" using assms(2) by (rule lookup_dirExists)
  show ?thesis using assms d by (auto simp: ftruncate_def agreeOff_def nextOutcome_frame elim!: syscall_cases split: option.splits)
qed

text \<open>The last segment: no change, or the cut of the torn record.\<close>

lemma openLast_faulty:
  assumes d: "diskRepBy w m t T" and same: "\<And>p. p \<in> manifestFiles m \<Longrightarrow> lookupFile p u = lookupFile p w"
    and mem: "memOk (memOnly db)" and run: "openAndScanLoop [last (mOrder m)] db u = ((eo, db'), u')"
  shows "intact w m t u'"
proof -
  let ?a = "last (mOrder m)"
  let ?q = "segmentPath ?a" and ?rs = "recordsAt w ?a"
  have ne: "mOrder m \<noteq> []" and lt: "logTorn w ?a t" using d by (simp_all add: diskRepBy_def)
  have c: "lookupFile ?q u = Some (logOf ?rs @ t)" "list_all logRecOk ?rs" "tornTail t"
    using lt same [of ?q] ne by (simp_all add: logTorn_def)
  have u: "intact w m t u" using same c(1) ne by (auto simp: intact_def)
  obtain r1 w1 where c1: "createSegment ?a u = (r1, w1)" by fastforce
  have 1: "intact w m t w1" "lookupFile ?q w1 = Some (logOf ?rs @ t)"
    using createSegment_same [OF c1, of "{}"] c(1) intact_same [OF u _ ne] by (auto simp: agreeOff_def)
  show ?thesis
  proof (cases r1)
    case (Inl e)
    then show ?thesis using run c1 1(1) by simp
  next
    case (Inr seg)
    let ?db1 = "db\<lparr>segments := AList.update ?a seg (segments db)\<rparr>"
    have m1: "memOk (memOnly ?db1)" using mem by (simp add: memOk_def dbView_lsm)
    obtain db2 off serr w2 where sc: "scanSegment ?q replayRecord ?db1 w1 = ((db2, off, serr), w2)" by (metis surj_pair)
    have 2: "intact w m t w2" "lookupFile ?q w2 = Some (logOf ?rs @ t)"
      using scanSegment_agree [OF sc, of "{}"] intact_same [OF 1(1) _ ne] 1(2) by (auto simp: agreeOff_def)
    have off: "off = length (logOf ?rs)" if "serr = Some ErrPartialTail"
      using scanSegment_outcome [OF sc 1(2)] replay_segment [OF m1 c(2,3)] that by (auto split: if_splits)
    obtain r3 w3 where tr: "ftruncate ?q off w2 = (r3, w3)" by fastforce
    have "intact w m t w3" if "serr = Some ErrPartialTail"
    proof -
      have "agreeOff {} w2 w3 \<or> (\<forall>q. lookupFile q w3 = (if q = ?q then Some (logOf ?rs) else lookupFile q w2))"
        using ftruncate_outcome [OF tr 2(2)] off [OF that] by auto
      then show ?thesis using intact_same [OF 2(1) _ ne] 2(1) by (auto simp: intact_def)
    qed
    then show ?thesis using run c1 Inr sc tr 2(1) by (auto simp: Let_def split: if_splits sum.splits option.splits)
  qed
qed

lemma openAndScanLoop_faulty:
  assumes d: "diskRepBy w m t T"
  shows "openAndScanLoop ids db u = ((eo, db'), u') \<Longrightarrow> mOrder m = pre @ ids \<Longrightarrow> ids \<noteq> [] \<Longrightarrow>
    \<forall>p \<in> manifestFiles m. lookupFile p u = lookupFile p w \<Longrightarrow> memOk (memOnly db) \<Longrightarrow> intact w m t u'"
proof (induction ids arbitrary: db u pre)
  case (Cons i ids)
  show ?case
  proof (cases "ids = []")
    case True
    then show ?thesis using openLast_faulty [OF d, of u db eo db' u'] Cons.prems by simp
  next
    case False
    have ne: "mOrder m \<noteq> []" "distinct (mOrder m)" using d by (auto simp: diskRepBy_def manifestValid_def idsValid_def)
    let ?q = "segmentPath i" and ?rs = "recordsAt w i"
    have "i \<in> set (butlast (mOrder m))" using Cons.prems(2) False by (simp add: butlast_append)
    then have c: "lookupFile ?q u = Some (logOf ?rs)" "list_all logRecOk ?rs"
      using d Cons.prems(2,4) by (auto simp: diskRepBy_def list_all_iff logClean_def)
    have u: "intact w m t u" using Cons.prems(4) d by (auto simp: intact_def diskRepBy_def logTorn_def)
    obtain r1 w1 where c1: "openSegmentReadOnly i u = (r1, w1)" by fastforce
    note a1 = openSegmentReadOnly_agree [OF c1, of "{}"]
    show ?thesis
    proof (cases r1)
      case (Inl e)
      then show ?thesis using Cons.prems(1) c1 intact_same [OF u a1 ne(1)] False by auto
    next
      case (Inr seg)
      let ?db1 = "db\<lparr>segments := AList.update i seg (segments db)\<rparr>"
      have m1: "memOk (memOnly ?db1)" using Cons.prems(5) by (simp add: memOk_def dbView_lsm)
      obtain db2 off serr w2 where sc: "scanSegment ?q replayRecord ?db1 w1 = ((db2, off, serr), w2)" by (metis surj_pair)
      note a2 = agreeOff_trans [OF a1 scanSegment_agree [OF sc]]
      note i2 = intact_same [OF u a2 ne(1)]
      have f1: "lookupFile ?q w1 = Some (logOf ?rs)" using a1 c(1) by (simp add: agreeOff_def)
      show ?thesis
      proof (cases serr)
        case (Some e)
        then show ?thesis using Cons.prems(1) c1 Inr sc i2 False by (auto simp: Let_def split: if_splits)
      next
        case None
        then have "memOk (memOnly db2)"
          using scanSegment_outcome [OF sc f1] replay_segment [OF m1 c(2) tornTail_Nil] by auto
        then have "memOk (memOnly (db2\<lparr>segments := AList.update i (seg\<lparr>ssize := off\<rparr>) (segments db2)\<rparr>))" by (simp add: memOk_def dbView_lsm)
        moreover have "\<forall>p \<in> manifestFiles m. lookupFile p w2 = lookupFile p w" using a2 Cons.prems(4) by (simp add: agreeOff_def)
        moreover have "openAndScanLoop ids (db2\<lparr>segments := AList.update i (seg\<lparr>ssize := off\<rparr>) (segments db2)\<rparr>) w2 = ((eo, db'), u')"
          using Cons.prems(1) c1 Inr sc None False by (simp add: Let_def)
        ultimately show ?thesis using Cons.IH [of _ w2 "pre @ [i]"] Cons.prems(2) False by simp
      qed
    qed
  qed
qed simp

section \<open>Interrupted recovery\<close>

lemma load_faulty:
  assumes d: "diskRepBy w m t T" and same: "agreeOff {} w u" and run: "load (freshDB o0) u = ((eo, db'), u')"
  shows "intact w m t u'"
proof -
  have m: "mOrder m \<noteq> []" "manifestValid m" "lookupFile (Top manifestName) w = Some (manifestBytes m)" using d by (auto simp: diskRepBy_def)
  have u: "intact w m t u" by (rule intact_same [OF intact_refl [OF d] same m(1)])
  obtain r1 w1 where c1: "readManifest u = (r1, w1)" by fastforce
  have a1: "agreeOff {} w w1"
    using c1 agreeOff_calls(2) agreeOff_trans [OF same] by (fastforce simp: readManifest_def split: prod.splits sum.splits)
  have r1: "r1 = Inl ErrIO \<or> r1 = Inr m"
  proof -
    have "lookupFile (Top manifestName) u = Some (manifestBytes m)" using same m(3) by (simp add: agreeOff_def)
    moreover have "decodeManifest (manifestBytes m) = Inr m"
      using decodeManifest_bytes [of m] m(2) idsValid_length [of "mNextID m" "mOrder m"] idsValid_length [of "mNextSSTID m" "mSstIDs m"]
      by (simp add: manifestValid_def)
    ultimately show ?thesis using c1
      by (auto simp: readManifest_def openRead_def nextOutcome_frame elim!: syscall_cases split: prod.splits sum.splits option.splits)
  qed
  show ?thesis
  proof (cases "r1 = Inr m")
    case False
    then show ?thesis using run c1 r1 intact_same [OF intact_refl [OF d] a1 m(1)] by (auto simp: load_def)
  next
    case True
    let ?db1 = "(freshDB o0)\<lparr>ssNextID := (if mNextSSTID m = 0 then 1 else mNextSSTID m)\<rparr>"
    obtain eo2 db2 w2 where c2: "openSSTables (mSstIDs m) ?db1 w1 = ((eo2, db2), w2)" by (metis surj_pair)
    have a2: "agreeOff {} w w2"
      using c2 agreeOff_trans [OF a1] openTables_agree a1 by (fastforce simp: openSSTables_def split: if_splits prod.splits sum.splits)
    show ?thesis
    proof (cases eo2)
      case (Some e)
      then show ?thesis using run c1 True c2 m(1) intact_same [OF intact_refl [OF d] a2 m(1)] by (simp add: load_def Let_def)
    next
      case None
      let ?w3 = "cleanupOrphanedSSTs (mSstIDs m) w2"
      obtain eo3 db3 w4 where c3: "openAndScan (mOrder m) db2 ?w3 = ((eo3, db3), w4)" by (metis surj_pair)
      have f3: "\<forall>p \<in> manifestFiles m. lookupFile p ?w3 = lookupFile p w"
      proof
        fix p assume p: "p \<in> manifestFiles m"
        have "p \<noteq> Sst n" if "isOrphan (mSstIDs m) n" for n using p orphan_unlisted [OF that] by (auto simp: segmentPath_def)
        then have "p \<notin> {p. \<exists>n. p = Sst n \<and> isOrphan (mSstIDs m) n}" by blast
        then show "lookupFile p ?w3 = lookupFile p w"
          using cleanupOrphanedSSTs_agree [of "mSstIDs m" w2] a2 by (simp add: agreeOff_def)
      qed
      have mem: "memOk (memOnly db2)"
        using c2 None memOk_fresh [where ?o0.0 = o0] by (auto simp: openSSTables_def split: if_splits prod.splits sum.splits)
      have 4: "intact w m t w4"
        using c3 openAndScanLoop_faulty [OF d _ _ m(1) f3 mem, of _ _ _ "[]"]
        by (auto simp: openAndScan_def split: prod.splits option.splits)
      have "order db3 = mOrder m" if "eo3 = None" using c3 that by (auto simp: openAndScan_def split: prod.splits option.splits)
      then have "intact w m t (cleanupLeakedSegments (db3\<lparr>nextID := mNextID m\<rparr>) w4)" if "eo3 = None"
        using that by (intro intact_agree [OF 4 cleanupLeakedSegments_agree _ m(1)]) auto
      then show ?thesis using run c1 True c2 None c3 m(1) 4 by (cases eo3) (auto simp: load_def Let_def)
    qed
  qed
qed

lemma Open_faulty:
  assumes d: "diskRepBy w m t T" and run: "Open o0 w = (r, w')"
  shows "diskRep w' (diskMap w m T)"
proof -
  obtain r1 w1 where c1: "mkdirTop w = (r1, w1)" by fastforce
  have a1: "agreeOff {} w w1" using c1 by (auto simp: mkdirTop_def agreeOff_def nextOutcome_frame elim!: syscall_cases)
  have ne: "mOrder m \<noteq> []" using d by (simp add: diskRepBy_def)
  obtain eo db w2 where c2: "load (freshDB (normalizeOpts o0)) w1 = ((eo, db), w2)" by (metis surj_pair)
  have 2: "intact w m t w2" by (rule load_faulty [OF d a1 c2])
  have "intact w m t (snd (closeAll db w2))"
    using intact_same [OF 2 closeSegments_agree ne] by (simp add: closeAll_def case_prod_unfold)
  then have "intact w m t w'"
    using run c1 c2 2 intact_same [OF intact_refl [OF d] a1 ne] by (auto simp: Open_def split: sum.splits option.splits)
  then show ?thesis by (rule intact_diskRep [OF d])
qed

text \<open>Attempts to open the directory, each with its own faults; each starts after a restart.\<close>

fun attempts :: "(Options \<times> outcome list) list \<Rightarrow> world \<Rightarrow> world" where
  "attempts [] w = w"
| "attempts ((o0, faults) # as) w = attempts as (snd (Open o0 (w\<lparr>script := faults, dead := False\<rparr>)))"

lemma Open_keeps: "diskRep w M \<Longrightarrow> diskRep (snd (Open o0 w)) M"
  using Open_faulty [of w _ _ _ o0] by (metis diskRep_def surjective_pairing)

lemma attempts_diskRep: "diskRep w M \<Longrightarrow> diskRep (attempts as w) M"
proof (induction as w rule: attempts.induct)
  case (2 o0 faults as w)
  let ?v = "w\<lparr>script := faults, dead := False\<rparr>"
  obtain m t T where d: "diskRepBy w m t T" "M = diskMap w m T" using "2.prems" by (auto simp: diskRep_def)
  have "lookupFile p ?v = lookupFile p w" for p by (rule lookup_cong) simp_all
  then have "diskRepBy ?v m t T" "diskMap ?v m T = M" using diskRepBy_cong [OF d(1), of ?v] d(2) by simp_all
  then have "diskRep ?v M" by (auto simp: diskRep_def)
  then show ?case using "2.IH" Open_keeps by simp
qed simp

text \<open>
  C8: Recovery can be interrupted any number of times: the process may die, or calls may fail, at
  any point of any attempt to open the directory, and the first attempt that is left alone
  succeeds and finds the contents the directory had at first.
\<close>

theorem recovery_restartable:
  assumes "diskRep w M"
  shows "\<exists>db w'. Open o0 (reboot (attempts as w)) = (Inr db, w') \<and> (\<forall>k. dbGet db k = Inr (M k))"
  using attempts_diskRep [OF assms] by (rule diskRep_open)

theorem recovery_restartable_witness:
  "\<exists>db w db' w'.
     Open DefaultOptions (exampleDir [] [\<lparr>Timestamp = 1, Key = [98], Value = Some [2]\<rparr>] [([97], Some [1])]) = (Inr db, w) \<and>
     Open DefaultOptions (reboot (attempts [(DefaultOptions, [Succeed, Succeed, Fail 0]), (DefaultOptions, [Succeed, Crash 0])] w)) = (Inr db', w') \<and>
     dbGet db' [97] = Inr (Some [1]) \<and> dbGet db' [98] = Inr (Some [2])"
proof -
  let ?B = "[\<lparr>Timestamp = 1, Key = [98], Value = Some [2]\<rparr> :: Record]" and ?es = "[([97], Some [1])] :: entry list"
  have "list_all logRecOk ?B" "sstOk ?es"
    by (simp_all add: logRecOk_def keyOk_def maxPrefixLen_def valOk_def lenOpt_def MaxValueSize_def sstOk_def entryOk_def encEntry_def)
  then obtain db w where o: "Open DefaultOptions (exampleDir [] ?B ?es) = (Inr db, w)" "dbOk db w" "durable db w"
    "dbView db = overlay (replayLog ([] @ ?B)) [?es]"
    using exampleDir_opened [of "[]" ?B ?es DefaultOptions] by auto
  have "replayLog ?B [97] = None" "replayLog ?B [98] = Some (Some [2])" using replayLog_snoc [of "[]"] by simp_all
  then have "dbView db [97] = Some [1]" "dbView db [98] = Some [2]" using o(4) by (simp_all add: overlay_def)
  moreover have "diskRep w (dbView db)" using o(2,3) by (intro holds_diskRep) (simp add: holds_def)
  ultimately show ?thesis
    using recovery_restartable [of w "dbView db" DefaultOptions "[(DefaultOptions, [Succeed, Succeed, Fail 0]), (DefaultOptions, [Succeed, Crash 0])]"] o(1)
    by auto
qed

end
