(* ===== verification/Kora_Hazards.thy ===== *)
theory Kora_Hazards
  imports Kora_Crash
begin

text \<open>
  A record header left by a crash is not cut off by \<open>Open\<close>: what is written behind it is
  acknowledged and lost with the next restart.
\<close>

section \<open>A header left behind\<close>

text \<open>A header announces more bytes than the next record brings.\<close>

lemma Decode_stale_header:
  assumes "recOk r" "b \<noteq> []" "HeaderSize + length b < Size r"
  shows "Decode (take HeaderSize (encRec r) @ b) = Inl UnexpectedEOF"
proof -
  have h: "take HeaderSize (encRec r) = be32 (crc32 (recMeta r @ recTail r)) @ be64 (Timestamp r) @ drop 8 (recMeta r)"
    by (subst encRec_split) (simp add: HeaderSize_def)
  have "length b < length (recTail r)" using assms(3) by (simp add: Size_def length_recTail)
  then have "readFull (length (recTail r)) b = Inl UnexpectedEOF" using assms(2) by (simp add: readFull_def)
  then show ?thesis
    using Decode_header [OF assms(1), of "be64 (Timestamp r)" "crc32 (recMeta r @ recTail r)" b] unfolding h by simp
qed

lemma header_tail: "recOk r \<Longrightarrow> HeaderSize < Size r \<Longrightarrow> tornTail (take HeaderSize (encRec r)) \<and> cutTail (take HeaderSize (encRec r)) = take HeaderSize (encRec r)"
  using tornTail_cut [of r HeaderSize] Decode_cut [of r HeaderSize] by (simp add: cutTail_def)

text \<open>A \<open>Set\<close> that neither rolls over nor flushes appends its record, whatever is at the end of the file.\<close>

lemma dbSet_appends:
  assumes w: "calm w" "memOk db" "activeSeg db = Some \<lparr>sid = a, ssize = n\<rparr>" "keyOk k" "length v \<le> MaxValueSize"
    and small: "\<not> rolls db" "memSize db + int (length k + length v) < MaxMemBytes (opts db)"
  shows "\<exists>db'. dbSet now k (Some v) db w =
      ((None, db'), appendFile (segmentPath a) (encRec \<lparr>Timestamp = now, Key = k, Value = Some v\<rparr>) w) \<and> dbGet db' k = Inr (Some v)"
proof -
  let ?r = "\<lparr>Timestamp = now, Key = k, Value = Some v\<rparr> :: Record"
  have val: "valOk (Some v)" using w(5) by (simp add: valOk_def lenOpt_def)
  define db2 where "db2 = db\<lparr>segments := AList.update a \<lparr>sid = a, ssize = n + length (encRec ?r)\<rparr> (segments db)\<rparr>"
  have app: "appendActive db (encRec ?r) w = ((None, db2), appendFile (segmentPath a) (encRec ?r) w)"
    using w(1,3) by (simp add: appendActive_def segAppend_def segSync_def Let_def db2_def fwrite_calm fsync_calm)
  have roll: "maybeRollover db w = ((None, db), w)" using w(3) small(1) by (simp add: maybeRollover_def rolls_def)
  have mem: "memOk db2" "memSize db2 = memSize db" "opts db2 = opts db" using w(2) by (simp_all add: db2_def memOk_def dbView_lsm)
  define c where "c = (if dbView db2 k \<noteq> None then liveKeys db2 else liveKeys db2 + 1)"
  obtain t where t: "Insert (memtable db2) k (Some v) = Inr t" "memOk (db2\<lparr>liveKeys := c, memtable := t\<rparr>)"
    "dbView (db2\<lparr>liveKeys := c, memtable := t\<rparr>) = (dbView db2)(k := Some v)"
    using memOk_insert [OF mem(1) w(4) val] unfolding c_def by auto
  let ?s = "memSize db2 + int (length k + length v)"
  let ?db = "db2\<lparr>liveKeys := c, memtable := t, memSize := ?s\<rparr>"
  have "dbSet now k (Some v) db w = ((None, ?db), appendFile (segmentPath a) (encRec ?r) w)"
    using encode_ok [OF w(4) val, of now] roll app isLiveKey_view [OF mem(1), of k] t(1) small(2) mem(2,3)
    by (simp add: dbSet_def Let_def c_def)
  moreover have "dbGet ?db k = Inr (Some v)"
    using dbGet_view [of ?db k] t(2,3) memSize_irrelevant(1,2) [of ?s "db2\<lparr>liveKeys := c, memtable := t\<rparr>"] by simp
  ultimately show ?thesis by blast
qed

text \<open>
  C35: A crash that leaves exactly the header of a record: \<open>Open\<close> does not cut it off, the next
  \<open>Set\<close> is written behind it and acknowledged, and if its record is shorter than what the
  stale header announces, the restart after that cuts both off: the acknowledged write is lost.
\<close>

theorem stale_header_loses_write:
  assumes w: "calm w" and d: "diskRepBy w m (take HeaderSize (encRec r0)) T" "recOk r0" "mSstIDs m = []"
    and k: "keyOk k" "length v \<le> MaxValueSize" and short: "2 * HeaderSize + length k + length v < Size r0"
    and o: "Open o0 w = (Inr db1, w1)" and small: "\<not> rolls db1" "memSize db1 + int (length k + length v) < MaxMemBytes (opts db1)"
  shows "\<exists>db2 w2 db3 w3. dbSet now k (Some v) db1 w1 = ((None, db2), w2) \<and> dbGet db2 k = Inr (Some v) \<and>
    Open o0 w2 = (Inr db3, w3) \<and> (\<forall>x. dbGet db3 x = dbGet db1 x)"
proof -
  let ?t = "take HeaderSize (encRec r0)" and ?a = "last (mOrder m)" and ?r = "\<lparr>Timestamp = now, Key = k, Value = Some v\<rparr> :: Record"
  let ?w2 = "appendFile (segmentPath ?a) (encRec ?r) w1"
  have op: "opened o0 w m ?t T db1 w1" using Open_diskRep [OF w d(1), of o0] o by auto
  have ids: "mOrder m \<noteq> []" using d(1) by (simp add: diskRepBy_def)
  have t: "cutTail ?t = ?t" using header_tail [OF d(2)] short by simp
  have f1: "lookupFile p w1 = (if p = segmentPath ?a then Some (logOf (recordsAt w ?a) @ ?t) else lookupFile p w)"
    if "p \<in> insert (Top manifestName) (segmentPath ` set (mOrder m))" for p
    using op t that d(3) by (auto simp: opened_def)
  have mem: "calm w1" "memOk db1" "activeSeg db1 = Some \<lparr>sid = ?a, ssize = length (logOf (recordsAt w ?a))\<rparr>"
    using op d(3) by (simp_all add: opened_def)
  obtain db2 where set: "dbSet now k (Some v) db1 w1 = ((None, db2), ?w2)" "dbGet db2 k = Inr (Some v)"
    using dbSet_appends [OF mem k small] by blast
  have "Decode (?t @ encRec ?r) = Inl UnexpectedEOF"
    using short by (intro Decode_stale_header d(2)) (auto simp: length_encRec Size_def lenOpt_def HeaderSize_def dest: arg_cong [of _ _ length])
  then have t2: "tornTail (?t @ encRec ?r)" by (simp add: tornTail_def)
  have f2: "lookupFile p ?w2 = (if p = segmentPath ?a then Some (logOf (recordsAt w ?a) @ ?t @ encRec ?r) else lookupFile p w)"
    if "p \<in> insert (Top manifestName) (segmentPath ` set (mOrder m))" for p
    using f1 [OF that] f1 [of "segmentPath ?a"] ids by (simp add: appendFile_def)
  have "diskRep ?w2 (diskMap w m T)"
  proof (rule diskRep_tail [OF d(1) t2])
    show "lookupFile (segmentPath ?a) ?w2 = Some (logOf (recordsAt w ?a) @ ?t @ encRec ?r)"
      using f2 [of "segmentPath ?a"] ids by simp
    show "p \<in> manifestFiles m \<Longrightarrow>
        p \<noteq> segmentPath ?a \<Longrightarrow> lookupFile p ?w2 = lookupFile p w" for p
      using f2 [of p] d(3) by simp
  qed
  then have "diskRep ?w2 (dbView db1)" using op by (simp add: opened_def)
  moreover have "reboot ?w2 = ?w2"
  proof -
    have "calm ?w2" using mem(1) by simp
    then show ?thesis by (cases ?w2) (simp add: reboot_def calm_def)
  qed
  ultimately obtain db3 w3 where "Open o0 ?w2 = (Inr db3, w3)" "\<And>x. dbGet db3 x = Inr (dbView db1 x)"
    using diskRep_open [of ?w2 "dbView db1" o0] by auto
  then show ?thesis using set dbGet_view [OF mem(2)] by auto
qed

text \<open>A directory whose only segment holds the 20 bytes of a header.\<close>

definition staleDir :: "Record \<Rightarrow> world" where
  "staleDir r = \<lparr>topdir = [(manifestName, manifestBytes \<lparr>mNextID = 2, mOrder = [1], mNextSSTID = 1, mSstIDs = []\<rparr>),
     (segmentName 1, take HeaderSize (encRec r))], sstdir = None, script = [], dead = False\<rparr>"

theorem stale_header_loses_write_witness:
  "\<exists>db1 w1 db2 w2 db3 w3.
     Open DefaultOptions (staleDir \<lparr>Timestamp = 1, Key = [97], Value = Some (replicate 30 0)\<rparr>) = (Inr db1, w1) \<and>
     dbSet 2 [98] (Some [7]) db1 w1 = ((None, db2), w2) \<and> dbGet db2 [98] = Inr (Some [7]) \<and>
     Open DefaultOptions w2 = (Inr db3, w3) \<and> dbGet db3 [98] = Inr None"
proof -
  let ?r = "\<lparr>Timestamp = 1, Key = [97], Value = Some (replicate 30 0)\<rparr> :: Record"
  let ?m = "\<lparr>mNextID = 2, mOrder = [1], mNextSSTID = 1, mSstIDs = []\<rparr>" and ?t = "take HeaderSize (encRec ?r)"
  have r: "recOk ?r" "HeaderSize < Size ?r" by (simp_all add: recOk_def rec_limits lenOpt_def Size_def HeaderSize_def)
  have w: "calm (staleDir ?r)" by (simp add: staleDir_def calm_def)
  have f: "lookupFile (Top manifestName) (staleDir ?r) = Some (manifestBytes ?m)" "lookupFile (segmentPath 1) (staleDir ?r) = Some (logOf [] @ ?t)"
    using manifest_not_segment(1) [of 1] by (auto simp: staleDir_def lookupFile.simps segmentPath_def)
  have torn: "logTorn (staleDir ?r) 1 ?t" "recordsAt (staleDir ?r) 1 = []"
    using logTornI [OF f(2) _ header_tail [OF r, THEN conjunct1]] by simp_all
  have d: "diskRepBy (staleDir ?r) ?m ?t (\<lambda>_. [])"
    using f(1) torn(1) by (simp add: diskRepBy_def manifestValid_def idsValid_def)
  obtain db1 w1 where o: "Open DefaultOptions (staleDir ?r) = (Inr db1, w1)" "opened DefaultOptions (staleDir ?r) ?m ?t (\<lambda>_. []) db1 w1"
    using Open_diskRep [OF w d] by blast
  have db1: "memSize db1 = 0" "opts db1 = normalizeOpts DefaultOptions" "activeSeg db1 = Some \<lparr>sid = 1, ssize = 0\<rparr>" "dbGet db1 [98] = Inr None"
    using o(2) torn(2) dbGet_weak [of db1 "[98]"] by (simp_all add: opened_def diskMap_def overlay_def)
  then show ?thesis
    using stale_header_loses_write [OF w d r(1) _ _ _ _ o(1), of "[98]" "[7]" 2] o(1) db1(4)
    by (auto simp: keyOk_def maxPrefixLen_def MaxValueSize_def HeaderSize_def Size_def lenOpt_def rolls_def normalizeOpts_def
        DefaultOptions_def DefaultMaxSegmentBytes_def DefaultMaxMemBytes_def)
qed

end
