(* ===== verification/Kora_Interleave.thy ===== *)
theory Kora_Interleave
  imports Kora_Crash
begin

text \<open>
  Log compaction and concurrent writers. \<open>Compact\<close> holds the lock for its snapshot and for its
  swap but not for the merge in between, so other calls run there. Writes that do not flush
  are harmless: they only extend the active segment or add segments behind it. A flush is not:
  it retires the segments of the snapshot, and the swap then puts the merged records in front
  of a log whose newer values are already in a table.
\<close>

section \<open>The interleaving\<close>

text \<open>Snapshot and merge, then the operations \<open>ops\<close> of other goroutines, then the swap.\<close>

definition compactAround :: "(Record list \<Rightarrow> Record list) \<Rightarrow> storeOp list \<Rightarrow> DB \<Rightarrow> world \<Rightarrow> (DB \<times> world) option" where
  "compactAround ord ops db w =
     (case compactSnapshot db of
        (Inr (Some (snap, newID)), db1) \<Rightarrow>
          (case compactMerge ord snap newID w of
             (None, w1) \<Rightarrow>
               (case runSteps (storeStep ord) ops (db1, w1) of
                  Some (db2, w2) \<Rightarrow>
                    (case compactSwap snap newID db2 w2 of
                       ((None, db3), w3) \<Rightarrow> Some (db3, w3)
                     | _ \<Rightarrow> None)
                | None \<Rightarrow> None)
           | _ \<Rightarrow> None)
      | _ \<Rightarrow> None)"

text \<open>With nothing in between it is \<open>Compact\<close>.\<close>

lemma compactAround_nothing:
  "butlast (order db) \<noteq> [] \<Longrightarrow> dbOk db w \<Longrightarrow> Compact ord db w = ((None, db'), w') \<longleftrightarrow> compactAround ord [] db w = Some (db', w')"
  using dbOk_order [of db w] filter_not_last [of "order db"]
  by (auto simp: Compact_def compactAround_def compactSnapshot_def Let_def split: prod.splits option.splits)

fun isWrite :: "storeOp \<Rightarrow> bool" where
  "isWrite (OpSet now k v) \<longleftrightarrow> True"
| "isWrite (OpDel now k) \<longleftrightarrow> True"
| "isWrite _ \<longleftrightarrow> False"

text \<open>What a write adds to the memtable's size.\<close>

fun opBytes :: "storeOp \<Rightarrow> int" where
  "opBytes (OpSet now k v) = int (length k + length (orEmpty v))"
| "opBytes (OpDel now k) = int (length k + 1)"
| "opBytes _ = 0"

lemma write_step:
  assumes "calm w" "dbOk db w" "hasRoom (Suc m) db" "legalOp op" "isWrite op"
  shows "\<exists>db' w'. applyOp ord op db w = ((None, db'), w') \<and> calm w' \<and> dbOk db' w' \<and> hasRoom m db' \<and>
    dbView db' = specOp op (dbView db) \<and> opts db' = opts db \<and> (durable db w \<and> (ssReaders db = [] \<or> \<not> rolls db) \<longrightarrow> durable db' w') \<and>
    (memSize db + opBytes op < MaxMemBytes (opts db) \<longrightarrow>
       extends db w db' w' \<and> ssReaders db' = ssReaders db \<and> memSize db' = memSize db + opBytes op)"
proof -
  have r1: "hasRoom 1 db" using hasRoom_mono assms(3) by simp
  show ?thesis
  proof (cases op)
    case (OpSet now k v)
    then show ?thesis using dbSet_calm [OF assms(1,2) r1, of k v now] assms(3,4) by auto
  next
    case (OpDel now k)
    then show ?thesis using dbDelete_calm [OF assms(1,2) r1, of k now] assms(3,4) by auto
  qed (use assms(5) in auto)
qed

section \<open>Writes during a compaction\<close>

text \<open>What the swap relies on; \<open>S\<close> are the records of the snapshot, \<open>rs\<close> those merged.\<close>

definition swapReady :: "u32 list \<Rightarrow> u32 \<Rightarrow> Record list \<Rightarrow> Record list \<Rightarrow> DB \<Rightarrow> world \<Rightarrow> bool" where
  "swapReady snap n rs S db w \<longleftrightarrow> calm w \<and> dbOk db w \<and> n < nextID db \<and> n \<notin> set (order db) \<and> n \<notin> set snap \<and>
     lookupFile (segmentPath n) w = Some (logOf rs) \<and> (\<exists>rest. rest \<noteq> [] \<and> order db = snap @ rest) \<and>
     concat (map (recordsAt w) snap) = S"

lemma swapReady_extends:
  assumes r: "swapReady snap n rs S db w" and e: "extends db w db' w'" and ok: "calm w'" "dbOk db' w'"
  shows "swapReady snap n rs S db' w'"
proof -
  have ok0: "dbOk db w" using r by (simp add: swapReady_def)
  note o = dbOk_order [OF ok0]
  obtain rest where rest: "rest \<noteq> []" "order db = snap @ rest" using r by (auto simp: swapReady_def)
  have lst: "last (order db) \<in> set rest" using rest by simp
  have snap: "i \<noteq> last (order db) \<and> i \<noteq> nextID db" if "i \<in> set snap" for i
    using that lst o(2,4) rest(2) by auto
  have n: "n \<noteq> last (order db)" "n \<noteq> nextID db" using r o(3) by (auto simp: swapReady_def)
  have "recordsAt w' i = recordsAt w i" if "i \<in> set snap" for i
    using snap [OF that] e by (intro recordsAt_cong) (simp add: extends_def)
  then have "concat (map (recordsAt w') snap) = S" using r by (simp add: swapReady_def cong: map_cong)
  moreover have "nextID db' = nextID db \<or> nextID db < nextID db'"
    using e dbOk_shape [OF ok(2)] by (auto simp: extends_def shapeOk_def idsValid_def)
  then have "n < nextID db'" using r by (auto simp: swapReady_def intro: less_trans)
  moreover have "\<exists>rest. rest \<noteq> [] \<and> order db' = snap @ rest" using e rest by (auto simp: extends_def)
  ultimately show ?thesis using r e ok n by (auto simp: swapReady_def extends_def)
qed

lemma writes_ready:
  assumes "swapReady snap n rs S db w" "hasRoom (length ops + m) db" "list_all legalOp ops" "list_all isWrite ops"
    and "memSize db + sum_list (map opBytes ops) < MaxMemBytes (opts db)"
  shows "\<exists>db' w'. runSteps (storeStep ord) ops (db, w) = Some (db', w') \<and> swapReady snap n rs S db' w' \<and> hasRoom m db' \<and>
    dbView db' = fold specOp ops (dbView db) \<and> ssReaders db' = ssReaders db \<and>
    (durable db w \<and> ssReaders db = [] \<longrightarrow> durable db' w')"
  using assms
proof (induction ops arbitrary: db w)
  case (Cons op ops)
  have ok: "calm w" "dbOk db w" using Cons.prems(1) by (simp_all add: swapReady_def)
  have nn: "0 \<le> opBytes x" for x by (cases x) auto
  then have "0 \<le> sum_list (map opBytes ops)" by (intro sum_list_nonneg) auto
  then have fits: "memSize db + opBytes op < MaxMemBytes (opts db)" using Cons.prems(5) by simp
  obtain db1 w1 where s: "applyOp ord op db w = ((None, db1), w1)" "calm w1" "dbOk db1 w1" "hasRoom (length ops + m) db1"
    "dbView db1 = specOp op (dbView db)" "opts db1 = opts db" "durable db w \<and> (ssReaders db = [] \<or> \<not> rolls db) \<longrightarrow> durable db1 w1"
    "extends db w db1 w1" "ssReaders db1 = ssReaders db" "memSize db1 = memSize db + opBytes op"
    using write_step [OF ok, of "length ops + m" op ord] Cons.prems(2-4) fits by auto
  have "swapReady snap n rs S db1 w1" by (rule swapReady_extends [OF Cons.prems(1) s(8,2,3)])
  from Cons.IH [OF this s(4)] show ?case
    using Cons.prems(3-5) s by (auto simp: storeStep_def add.assoc)
qed simp

text \<open>
  C13: A log compaction with writes in between, as long as they fit the memtable and there are no
  tables: everything succeeds, the contents are those the writes make, and they survive a
  restart.
\<close>

theorem compaction_allows_writes:
  assumes w: "calm w" "dbOk db w" "durable db w" "ssReaders db = []" and room: "hasRoom (Suc (length ops)) db"
    and ord: "\<And>xs. mset (ord xs) = mset xs" and two: "butlast (order db) \<noteq> []"
    and ops: "list_all legalOp ops" "list_all isWrite ops" "memSize db + sum_list (map opBytes ops) < MaxMemBytes (opts db)"
  shows "\<exists>db' w'. compactAround ord ops db w = Some (db', w') \<and> dbOk db' w' \<and> durable db' w' \<and>
    dbView db' = fold specOp ops (dbView db)"
proof -
  let ?n = "nextID db" and ?snap = "butlast (order db)" and ?db1 = "db\<lparr>nextID := nextID db + 1\<rparr>"
  let ?S = "concat (map (recordsAt w) ?snap)"
  let ?rs = "mergedRecords ord ?S"
  note o = dbOk_order [OF w(2)]
  have rm: "unat ?n + 1 < 2 ^ 32" using room by (simp add: hasRoom_def)
  obtain w1 where w1: "compactSnapshot db = (Inr (Some (?snap, ?n)), ?db1)" "compactMerge ord ?snap ?n w = (None, w1)" "calm w1"
    "dbOk ?db1 w1" "durable ?db1 w1" "?n < nextID ?db1" "list_all logRecOk ?rs" "lookupFile (segmentPath ?n) w1 = Some (logOf ?rs)"
    "\<And>p. p \<noteq> segmentPath ?n \<Longrightarrow> p \<noteq> compactTmpPath ?n \<Longrightarrow> lookupFile p w1 = lookupFile p w"
    using merged_ready [OF w(1,2) rm ord two] w(3) by blast
  have nn: "?n \<notin> set ?snap" using o(4) in_set_butlastD by fast
  have "concat (map (recordsAt w1) ?snap) = ?S"
    using nn by (intro arg_cong [of _ _ concat] map_cong refl recordsAt_cong w1(9)) auto
  moreover have "\<exists>rest. rest \<noteq> [] \<and> order db = ?snap @ rest" using o(1) by (intro exI [of _ "[last (order db)]"]) simp
  ultimately have ready: "swapReady ?snap ?n ?rs ?S ?db1 w1" using w1 nn o(4) by (simp add: swapReady_def)
  have "hasRoom (length ops + 0) ?db1" using room by (auto simp: hasRoom_def storedEntries_def tableEntries_def unat_word_ariths)
  then obtain db2 w2 where s: "runSteps (storeStep ord) ops (?db1, w1) = Some (db2, w2)" "swapReady ?snap ?n ?rs ?S db2 w2"
    "dbView db2 = fold specOp ops (dbView ?db1)" "ssReaders db2 = []" "durable db2 w2"
    using writes_ready [OF ready, of ops 0 ord] ops w1(5) w(4) by auto
  obtain rest where rest: "rest \<noteq> []" "order db2 = ?snap @ rest" using s(2) by (auto simp: swapReady_def)
  have ok2: "calm w2" "dbOk db2 w2" "?n < nextID db2" "?n \<notin> set (order db2)" "lookupFile (segmentPath ?n) w2 = Some (logOf ?rs)"
    using s(2) by (simp_all add: swapReady_def)
  have "filter (\<lambda>i. i \<notin> set ?snap) (order db2) = rest" "last (order db2) \<notin> set ?snap"
    using dbOk_order(2) [OF ok2(2)] rest by (auto simp: filter_empty_conv filter_id_conv)
  then obtain db3 w3 where c: "compactSwap ?snap ?n db2 w2 = ((None, db3), w3)" "dbOk db3 w3" "sameMem db2 db3" "synced db3 w3"
    "logRecords db3 w3 = ?rs @ concat (map (recordsAt w2) rest)"
    using compactSwap_calm [OF ok2(1-4) nn ok2(5) w1(7)] by auto
  have "logRecords db2 w2 = ?S @ concat (map (recordsAt w2) rest)" using s(2) rest(2) by (simp add: logRecords_def swapReady_def)
  then have "overlay (replayLog (logRecords db3 w3)) [] = dbView db2"
    using merged_overlay [OF ord] c(5) s(4,5) by (simp add: durable_def)
  moreover have "ssReaders db3 = []" using c(3) s(4) by (simp add: sameMem_def)
  ultimately have "durable db3 w3" using c(4) sameMem_view [OF c(3)] by (simp add: durable_def)
  moreover have "dbView ?db1 = dbView db" by (simp add: dbView_lsm)
  ultimately show ?thesis using w1(1,2) s(1,3) c(1,2) sameMem_view [OF c(3)] by (simp add: compactAround_def)
qed

section \<open>An example directory without tables\<close>

definition logManifest :: manifest where
  "logManifest = \<lparr>mNextID = 3, mOrder = [1, 2], mNextSSTID = 1, mSstIDs = []\<rparr>"

definition logDir :: "Record list \<Rightarrow> Record list \<Rightarrow> world" where
  "logDir A B = \<lparr>topdir = [(manifestName, manifestBytes logManifest), (segmentName 1, logOf A), (segmentName 2, logOf B)],
     sstdir = None, script = [], dead = False\<rparr>"

lemma logDir_opened:
  assumes "list_all logRecOk A" "list_all logRecOk B"
  shows "\<exists>db w. Open o0 (logDir A B) = (Inr db, w) \<and> calm w \<and> dbOk db w \<and> durable db w \<and> opts db = normalizeOpts o0 \<and>
    order db = [1, 2] \<and> recordsAt w 1 = A \<and> ssReaders db = [] \<and> memSize db = sum_list (map recBytes (A @ B)) \<and>
    dbView db = overlay (replayLog (A @ B)) [] \<and> (length (A @ B) \<le> 1000 \<longrightarrow> hasRoom 2 db)"
proof -
  let ?w = "logDir A B" and ?m = logManifest
  have f: "lookupFile (Top manifestName) ?w = Some (manifestBytes ?m)" "lookupFile (segmentPath 1) ?w = Some (logOf A)"
    "lookupFile (segmentPath 2) ?w = Some (logOf B)"
    using manifest_not_segment(1) [of 1] manifest_not_segment(1) [of 2] by (auto simp: logDir_def lookupFile.simps segmentPath_def)
  have rec: "recordsAt ?w 1 = A" "recordsAt ?w 2 = B" using recordsAt_log f(2,3) assms by blast+
  have d: "diskRepBy ?w ?m [] (\<lambda>_. [])"
    using assms rec f by (simp add: diskRepBy_def logClean_def logTorn_def logManifest_def manifestValid_def idsValid_def)
  have "calm ?w" by (simp add: logDir_def calm_def)
  then obtain db w where op: "Open o0 ?w = (Inr db, w)" "opened o0 ?w ?m [] (\<lambda>_. []) db w" using Open_diskRep [OF _ d] by blast
  have ok: "dbOk db w \<and> durable db w" by (rule opened_ok [OF op(2)]) (simp_all add: logManifest_def cutTail_def)
  have facts: "calm w" "opts db = normalizeOpts o0" "order db = [1, 2]" "recordsAt w 1 = A" "ssReaders db = []" "nextID db = 3" "ssNextID db = 1"
    "memSize db = sum_list (map recBytes (A @ B))" "dbView db = overlay (replayLog (A @ B)) []" "map_of (Iterator (memtable db)) = replayLog (A @ B)"
    using op(2) rec by (simp_all add: opened_def logManifest_def diskMap_def cutTail_def)
  have "hasRoom 2 db" if "length (A @ B) \<le> 1000"
    using that memtable_length [of db w "A @ B"] ok facts(5-7,10) by (simp add: hasRoom_def storedEntries_def tableEntries_def)
  then show ?thesis using op(1) ok facts by blast
qed

lemmas small_record = logRecOk_def keyOk_def maxPrefixLen_def valOk_def lenOpt_def MaxValueSize_def

theorem compaction_allows_writes_witness:
  "\<exists>db w db' w'. Open DefaultOptions (logDir [\<lparr>Timestamp = 1, Key = [97], Value = Some [1]\<rparr>] [\<lparr>Timestamp = 2, Key = [97], Value = Some [2]\<rparr>]) = (Inr db, w) \<and>
     compactAround rev [OpSet 3 [98] (Some [3])] db w = Some (db', w') \<and> durable db' w' \<and>
     dbView db' [97] = Some [2] \<and> dbView db' [98] = Some [3]"
proof -
  let ?A = "[\<lparr>Timestamp = 1, Key = [97], Value = Some [1]\<rparr> :: Record]" and ?B = "[\<lparr>Timestamp = 2, Key = [97], Value = Some [2]\<rparr> :: Record]"
  let ?ops = "[OpSet 3 [98] (Some [3])]"
  have "list_all logRecOk ?A" "list_all logRecOk ?B" by (simp_all add: small_record)
  then obtain db w where o: "Open DefaultOptions (logDir ?A ?B) = (Inr db, w)" "calm w" "dbOk db w" "durable db w" "ssReaders db = []"
    "opts db = normalizeOpts DefaultOptions" "order db = [1, 2]" "memSize db = sum_list (map recBytes (?A @ ?B))"
    "dbView db = overlay (replayLog (?A @ ?B)) []" "hasRoom 2 db"
    using logDir_opened [of ?A ?B DefaultOptions] by auto
  have rep: "replayLog (?A @ ?B) [97] = Some (Some [2])" by (subst replayLog_snoc) simp
  have room: "hasRoom (Suc (length ?ops)) db" using o(10) by (simp add: numeral_2_eq_2)
  have "memSize db + sum_list (map opBytes ?ops) < MaxMemBytes (opts db)"
    using o(6,8) by (simp add: recBytes_def normalizeOpts_def DefaultOptions_def DefaultMaxMemBytes_def)
  then obtain db' w' where "compactAround rev ?ops db w = Some (db', w')" "durable db' w'" "dbView db' = fold specOp ?ops (dbView db)"
    using compaction_allows_writes [OF o(2-5) room, of rev] o(7) by (auto simp: small_record)
  then show ?thesis using o(1,9) rep by (auto simp: overlay_def)
qed

section \<open>A flush during a compaction\<close>

text \<open>
  C31: A \<open>Set\<close> that flushes the memtable runs between the merge and the swap of a compaction. Both
  report success and reads are right until the restart; then every key that was live in the
  compacted segments is back at the value it had there, whatever was written since.
\<close>

theorem flush_during_compaction_reverts:
  assumes w: "calm w" "dbOk db w" and room: "hasRoom 2 db" and ord: "\<And>xs. mset (ord xs) = mset xs" and two: "butlast (order db) \<noteq> []"
    and op: "legalOp (OpSet now k v)" "MaxMemBytes (opts db) \<le> memSize db + opBytes (OpSet now k v)"
    and old: "replayLog (concat (map (recordsAt w) (butlast (order db)))) x = Some (Some v1)"
  shows "\<exists>db' w' db'' w''. compactAround ord [OpSet now k v] db w = Some (db', w') \<and>
    (\<forall>y. dbGet db' y = Inr (specOp (OpSet now k v) (dbView db) y)) \<and>
    Open o0 w' = (Inr db'', w'') \<and> dbGet db'' x = Inr (Some v1)"
proof -
  let ?n = "nextID db" and ?snap = "butlast (order db)" and ?db1 = "db\<lparr>nextID := nextID db + 1\<rparr>"
  let ?S = "concat (map (recordsAt w) ?snap)"
  let ?rs = "mergedRecords ord ?S"
  note o = dbOk_order [OF w(2)]
  have rm: "unat ?n + 1 < 2 ^ 32" using room by (simp add: hasRoom_def)
  obtain w1 where w1: "compactSnapshot db = (Inr (Some (?snap, ?n)), ?db1)" "compactMerge ord ?snap ?n w = (None, w1)" "calm w1"
    "dbOk ?db1 w1" "?n < nextID ?db1" "list_all logRecOk ?rs" "lookupFile (segmentPath ?n) w1 = Some (logOf ?rs)"
    using merged_ready [OF w rm ord two] by blast
  have rm1: "hasRoom 1 ?db1" using room by (auto simp: hasRoom_def storedEntries_def tableEntries_def unat_word_ariths)
  have big: "MaxMemBytes (opts ?db1) \<le> memSize ?db1 + int (length k + length (orEmpty v))" using op(2) by simp
  obtain db2 w2 where s: "dbSet now k v ?db1 w1 = ((None, db2), w2)" "calm w2" "dbOk db2 w2"
    "dbView db2 = (dbView ?db1)(k \<mapsto> orEmpty v)" "flushed ?db1 w1 db2 w2"
    using dbSet_calm [OF w1(3,4) rm1, of k v now] op(1) big by auto
  obtain m where m: "order db2 = [m]" "nextID ?db1 \<le> m" "m < nextID db2" "lookupFile (segmentPath m) w2 = Some []"
    using s(5) by (auto simp: flushed_def)
  have nn: "?n \<notin> set ?snap" "?n \<notin> set (order db2)" using o(4) in_set_butlastD w1(5) m(1,2) by force+
  have "lookupFile (segmentPath ?n) w2 = Some (logOf ?rs)" using s(5) w1(5,7) o(4) by (simp add: flushed_def)
  moreover have snap: "i < ?n" if "i \<in> set ?snap" for i
    using that in_set_butlastD dbOk_shape [OF w(2)] by (fastforce simp: shapeOk_def idsValid_def)
  have "m \<notin> set ?snap" using snap [of m] m(2) w1(5) by auto
  moreover have "?n < nextID db2" using w1(5) m(2,3) by (meson le_less_trans less_trans)
  ultimately obtain db3 w3 where c: "compactSwap ?snap ?n db2 w2 = ((None, db3), w3)" "calm w3" "dbOk db3 w3" "sameMem db2 db3" "synced db3 w3"
    "logRecords db3 w3 = ?rs"
    using compactSwap_calm [OF s(2,3) _ nn(2,1) _ w1(6)] m(1) recordsAt_log [of m w2 "[]"] m(4) by auto
  obtain md T where d: "diskRepBy w3 md [] T"
    "diskMap w3 md T = overlay (replayLog ?rs) (map CompactionIterator (ssReaders db3))"
    using synced_diskRep [OF c(3,5)] c(6) by metis
  obtain db4 w4 where "Open o0 w3 = (Inr db4, w4)" "opened o0 w3 md [] T db4 w4" using Open_diskRep [OF c(2) d(1)] by blast
  moreover have "replayLog ?rs x = Some (Some v1)" using mergedRecords_replay [OF ord, of ?S x] old by (auto simp: bind_eq_Some_conv)
  ultimately have "Open o0 w3 = (Inr db4, w4)" "dbGet db4 x = Inr (Some v1)"
    using d(2) dbGet_weak [of db4 x] by (auto simp: opened_def overlay_def)
  moreover have "dbGet db3 y = Inr (specOp (OpSet now k v) (dbView db) y)" for y
    using dbGet_view [OF dbOk_mem [OF c(3)], of y] sameMem_view [OF c(4)] s(4) by (simp add: dbView_lsm)
  moreover have "compactAround ord [OpSet now k v] db w = Some (db3, w3)"
    using w1(1,2) s(1) c(1) by (simp add: compactAround_def storeStep_def)
  ultimately show ?thesis by blast
qed

text \<open>The key \<open>a\<close> was 1, then 2, and is set to 3 while the compaction runs; the restart brings back 1.\<close>

theorem flush_during_compaction_reverts_witness:
  "\<exists>db w db' w' db'' w''.
     Open \<lparr>SyncOnWrite = True, MaxSegmentBytes = 0, MaxMemBytes = 5\<rparr>
       (logDir [\<lparr>Timestamp = 1, Key = [97], Value = Some [1]\<rparr>] [\<lparr>Timestamp = 2, Key = [97], Value = Some [2]\<rparr>]) = (Inr db, w) \<and>
     compactAround rev [OpSet 3 [97] (Some [3])] db w = Some (db', w') \<and> dbGet db' [97] = Inr (Some [3]) \<and>
     Open DefaultOptions w' = (Inr db'', w'') \<and> dbGet db'' [97] = Inr (Some [1])"
proof -
  let ?A = "[\<lparr>Timestamp = 1, Key = [97], Value = Some [1]\<rparr> :: Record]" and ?B = "[\<lparr>Timestamp = 2, Key = [97], Value = Some [2]\<rparr> :: Record]"
  let ?o = "\<lparr>SyncOnWrite = True, MaxSegmentBytes = 0, MaxMemBytes = 5\<rparr>"
  have "list_all logRecOk ?A" "list_all logRecOk ?B" by (simp_all add: small_record)
  then obtain db w where o: "Open ?o (logDir ?A ?B) = (Inr db, w)" "calm w" "dbOk db w" "opts db = normalizeOpts ?o" "order db = [1, 2]"
    "recordsAt w 1 = ?A" "memSize db = sum_list (map recBytes (?A @ ?B))" "hasRoom 2 db"
    using logDir_opened [of ?A ?B ?o] by auto
  have rep: "replayLog (concat (map (recordsAt w) (butlast (order db)))) [97] = Some (Some [1])"
    using o(5,6) replayLog_snoc [of "[]"] by simp
  have "MaxMemBytes (opts db) \<le> memSize db + opBytes (OpSet 3 [97] (Some [3]))"
    using o(4,7) by (simp add: recBytes_def normalizeOpts_def)
  then show ?thesis
    using flush_during_compaction_reverts [OF o(2,3,8) _ _ _ _ rep, of rev 3 "[97]" "Some [3]" DefaultOptions] o(1,5)
    by (auto simp: small_record)
qed

end
