(* ===== verification/Kora_Par.thy ===== *)
theory Kora_Par
  imports Kora_Prelude "HOL-Library.Multiset"
begin

text \<open>
  Goroutines over a shared state, in general: their interleaving, and the contract under which
  every schedule ends.
\<close>

section \<open>Parallel composition\<close>

text \<open>Any goroutine that can take a step may take the next one.\<close>

inductive interleave :: "('g \<Rightarrow> 's \<Rightarrow> 'g \<Rightarrow> 's \<Rightarrow> bool) \<Rightarrow> 'g list \<times> 's \<Rightarrow> 'g list \<times> 's \<Rightarrow> bool"
  for step where
  turn: "i < length gs \<Longrightarrow> step (gs ! i) s g' s' \<Longrightarrow> interleave step (gs, s) (gs[i := g'], s')"

inductive_cases interleave_cases: "interleave step (gs, s) t"

text \<open>
  A goroutine that makes progress in a well-founded order, whatever the shared state, makes
  every schedule of any number of them finite.
\<close>

locale ranked_tasks =
  fixes step :: "'g \<Rightarrow> 's \<Rightarrow> 'g \<Rightarrow> 's \<Rightarrow> bool"
    and rank :: "'g \<Rightarrow> 'r"
    and less :: "('r \<times> 'r) set"
  assumes wf_less: "wf less"
    and step_less: "step g s g' s' \<Longrightarrow> (rank g', rank g) \<in> less"
begin

lemma interleave_less:
  assumes "interleave step (gs, s) (gs', s')"
  shows "(mset (map rank gs'), mset (map rank gs)) \<in> mult less"
proof -
  obtain i g' where i: "i < length gs" "step (gs ! i) s g' s'" "gs' = gs[i := g']"
    using assms by (auto elim: interleave_cases)
  let ?rest = "mset (map rank gs) - {#rank (gs ! i)#}"
  have "mset (map rank gs) = ?rest + {#rank (gs ! i)#}" using i(1) by simp
  moreover have "mset (map rank gs') = ?rest + {#rank g'#}" using i by (simp add: map_update mset_update)
  moreover have "(?rest + {#rank g'#}, ?rest + {#rank (gs ! i)#}) \<in> mult less"
    using i step_less by (intro one_step_implies_mult) auto
  ultimately show ?thesis by metis
qed

lemma interleave_terminates: "wfp (\<lambda>t' t. interleave step t t')"
proof -
  have "wf (inv_image (mult less) (\<lambda>t. mset (map rank (fst t))))" using wf_less by (intro wf_inv_image wf_mult)
  moreover have "{(t', t). interleave step t t'} \<subseteq> inv_image (mult less) (\<lambda>t. mset (map rank (fst t)))"
    using interleave_less by auto
  ultimately show ?thesis unfolding wfp_def by (rule wf_subset)
qed

end

end
