(* ===== verification/Kora_Goroutine.thy ===== *)
theory Kora_Goroutine
  imports Kora_Par Kora_Server Kora_Interleave
begin

text \<open>
  Concurrent connections. Each connection is a goroutine that runs \<open>handle\<close>; all of them share
  one store. A step of a goroutine is one stretch of code between two points at which another
  goroutine can see or change the store: one call of a store operation that holds the lock
  throughout, one of the four stretches of \<open>Compact\<close>, or a read or write of the connection.
  \<open>DEL\<close> takes two such calls per key. A panic takes the process down.
\<close>

section \<open>A connection's goroutine\<close>

text \<open>Where a goroutine is: the code it will run next, with its local variables.\<close>

datatype task =
    Reading
  | Called "bytes option list"
  | DelGet "bytes list" int
  | DelDelete bytes "bytes list" int
  | MergeRead "u32 list" latestMap "u32 list" u32
  | MergeWrite latestMap "u32 list" u32
  | Swapping "u32 list" u32
  | Counting
  | Replying bytes
  | Closed

record shared =
  compactMu :: bool
  sdb :: DB
  sdisk :: world
  down :: bool

text \<open>A store call has come back; a reply is written out next and a panic ends the process.\<close>

fun replied :: "conn \<Rightarrow> reply \<Rightarrow> shared \<Rightarrow> (conn \<times> task) \<times> shared" where
  "replied c (Reply out) s = ((c, Replying out), s)"
| "replied c Crashed s = ((c, Closed), s\<lparr>down := True\<rparr>)"

definition setStore :: "DB \<Rightarrow> world \<Rightarrow> shared \<Rightarrow> shared" where
  "setStore db w s = s\<lparr>sdb := db, sdisk := w\<rparr>"

text \<open>The entry of \<open>dispatch\<close>. Commands with at most one store call run as \<open>dispatch\<close> does.\<close>

definition callStep ::
  "serverEnv \<Rightarrow> u64 \<Rightarrow> conn \<Rightarrow> bytes option list \<Rightarrow> shared \<Rightarrow> ((conn \<times> task) \<times> shared) option" where
  "callStep env now c args s =
     (let cmd = goUpper (uni env) (orEmpty (hd args)) in
      if cmd = str ''DEL'' \<and> length args \<ge> 2 then Some ((c, DelGet (map orEmpty (tl args)) 0), s)
      else if cmd = str ''COMPACT'' then
        (if compactMu s then None
         else case compactSnapshot (sdb s) of
                (Inl e, db1) \<Rightarrow> Some (replied c (errReply env e) (s\<lparr>sdb := db1\<rparr>))
              | (Inr None, db1) \<Rightarrow> Some ((c, Replying WriteOK), s\<lparr>sdb := db1\<rparr>)
              | (Inr (Some (snap, newID)), db1) \<Rightarrow>
                  Some ((c, MergeRead snap [] snap newID), s\<lparr>compactMu := True, sdb := db1\<rparr>))
      else if cmd = str ''COMPACT-SST'' then
        (case CompactSSTables (sdb s) (sdisk s) of
           ((Some e, db1), w1) \<Rightarrow> Some (replied c (errReply env e) (setStore db1 w1 s))
         | ((None, db1), w1) \<Rightarrow> Some ((c, Counting), setStore db1 w1 s))
      else
        (case dispatch env (\<lambda>_. now) args (sdb s) (sdisk s) of
           (r, db1, w1) \<Rightarrow> Some (replied c r (setStore db1 w1 s))))"

fun taskStep :: "serverEnv \<Rightarrow> u64 \<Rightarrow> conn \<times> task \<Rightarrow> shared \<Rightarrow> ((conn \<times> task) \<times> shared) option" where
  "taskStep env now (c, Reading) s =
     (case ReadCommand (uni env) (incoming c) of
        (Inl e, r) \<Rightarrow> Some ((c\<lparr>incoming := r\<rparr>, Closed), s\<lparr>down := (down s \<or> e = Panic)\<rparr>)
      | (Inr args, r) \<Rightarrow> Some ((c\<lparr>incoming := r\<rparr>, if args = [] then Reading else Called args), s))"
| "taskStep env now (c, Called args) s = callStep env now c args s"
| "taskStep env now (c, DelGet [] n) s = Some ((c, Replying (WriteInteger n)), s)"
| "taskStep env now (c, DelGet (key # ks) n) s =
     (case dbGet (sdb s) key of
        Inl e \<Rightarrow> Some (replied c (errReply env e) s)
      | Inr v \<Rightarrow> Some ((c, DelDelete key ks (if v \<noteq> None then n + 1 else n)), s))"
| "taskStep env now (c, DelDelete key ks n) s =
     (case dbDelete now key (sdb s) (sdisk s) of
        ((Some e, db1), w1) \<Rightarrow> Some (replied c (errReply env e) (setStore db1 w1 s))
      | ((None, db1), w1) \<Rightarrow> Some ((c, DelGet ks n), setStore db1 w1 s))"
| "taskStep env now (c, MergeRead [] latest snap newID) s = Some ((c, MergeWrite latest snap newID), s)"
| "taskStep env now (c, MergeRead (i # ids) latest snap newID) s =
     (case scanSegment (segmentPath i) keepLatest latest (sdisk s) of
        ((latest', _, Some e), w1) \<Rightarrow>
          Some (replied c (errReply env e) (s\<lparr>compactMu := False, sdisk := w1\<rparr>))
      | ((latest', _, None), w1) \<Rightarrow> Some ((c, MergeRead ids latest' snap newID), s\<lparr>sdisk := w1\<rparr>))"
| "taskStep env now (c, MergeWrite latest snap newID) s =
     (case compactWrite (mapOrd env) latest newID (sdisk s) of
        (Some e, w1) \<Rightarrow>
          Some (replied c (errReply env e) (s\<lparr>compactMu := False, sdisk := w1\<rparr>))
      | (None, w1) \<Rightarrow> Some ((c, Swapping snap newID), s\<lparr>sdisk := w1\<rparr>))"
| "taskStep env now (c, Swapping snap newID) s =
     (case compactSwap snap newID (sdb s) (sdisk s) of
        ((Some e, db1), w1) \<Rightarrow>
          Some (replied c (errReply env e) (setStore db1 w1 (s\<lparr>compactMu := False\<rparr>)))
      | ((None, db1), w1) \<Rightarrow> Some ((c, Replying WriteOK), setStore db1 w1 (s\<lparr>compactMu := False\<rparr>)))"
| "taskStep env now (c, Counting) s =
     Some ((c, Replying (WriteSimpleString (str ''OK sstables='' @ showNat (SSTableCount (sdb s))))), s)"
| "taskStep env now (c, Replying out) s =
     (case flushConn out c of
        (False, c2) \<Rightarrow> Some ((c2, Closed), s)
      | (True, c2) \<Rightarrow> Some ((c2, Reading), s))"
| "taskStep env now (c, Closed) s = None"

text \<open>A step at some time, as long as the process is up; and a schedule of all connections.\<close>

definition goStep :: "serverEnv \<Rightarrow> conn \<times> task \<Rightarrow> shared \<Rightarrow> conn \<times> task \<Rightarrow> shared \<Rightarrow> bool" where
  "goStep env g s g' s' \<longleftrightarrow> \<not> down s \<and> (\<exists>now. taskStep env now g s = Some (g', s'))"

abbreviation schedule :: "serverEnv \<Rightarrow> (conn \<times> task) list \<times> shared \<Rightarrow> (conn \<times> task) list \<times> shared \<Rightarrow> bool" where
  "schedule env \<equiv> (interleave (goStep env))\<^sup>*\<^sup>*"

section \<open>Every schedule ends\<close>

fun stage :: "task \<Rightarrow> nat \<times> nat" where
  "stage (Called args) = (6, 0)"
| "stage (DelGet ks n) = (5, 2 * length ks)"
| "stage (DelDelete k ks n) = (5, 2 * length ks + 1)"
| "stage (MergeRead ids l snap n) = (5, length ids)"
| "stage (MergeWrite l snap n) = (4, 0)"
| "stage (Swapping snap n) = (3, 0)"
| "stage Counting = (3, 0)"
| "stage (Replying out) = (2, 0)"
| "stage Reading = (1, 0)"
| "stage Closed = (0, 0)"

definition taskRank :: "conn \<times> task \<Rightarrow> nat \<times> nat \<times> nat" where
  "taskRank g = (length (incoming (fst g)), stage (snd g))"

abbreviation rankLess :: "((nat \<times> nat \<times> nat) \<times> (nat \<times> nat \<times> nat)) set" where
  "rankLess \<equiv> less_than <*lex*> less_than <*lex*> less_than"

lemma replied_rank:
  assumes "replied c r s = (g', s')" "2 < fst (stage t)"
  shows "(taskRank g', taskRank (c, t)) \<in> rankLess"
  using assms by (cases r; cases "stage t") (auto simp: taskRank_def)

lemma callStep_rank: "callStep env now c args s = Some (g', s') \<Longrightarrow> (taskRank g', taskRank (c, Called args)) \<in> rankLess"
  by (auto simp: callStep_def Let_def intro: replied_rank split: if_splits prod.splits sum.splits option.splits)
    (auto simp: taskRank_def)

lemma taskStep_rank:
  assumes "taskStep env now g s = Some (g', s')"
  shows "(taskRank g', taskRank g) \<in> rankLess"
proof -
  obtain c t where g: "g = (c, t)" by (cases g)
  show ?thesis
  proof (cases t)
    case Reading
    obtain x r where r: "ReadCommand (uni env) (incoming c) = (x, r)" by fastforce
    show ?thesis
    proof (cases x)
      case (Inl e)
      have "length r < length (incoming c) \<or> r = [] \<and> incoming c = []"
        using r ReadCommand_shorter [OF r] by (cases "incoming c") (auto simp: ReadCommand_def)
      then show ?thesis using assms g Reading r Inl by (auto simp: taskRank_def)
    next
      case (Inr args)
      then show ?thesis using assms g Reading r ReadCommand_Inr_shorter [of "uni env" "incoming c" args r]
        by (auto simp: taskRank_def)
    qed
  next
    case (Called args)
    then show ?thesis using assms g callStep_rank by simp
  next
    case (Replying out)
    then show ?thesis using assms g by (auto simp: taskRank_def flushConn_def split: option.splits if_splits)
  next
    case (DelGet ks n)
    then show ?thesis using assms g by (cases ks) (auto intro: replied_rank split: sum.splits, auto simp: taskRank_def)
  next
    case (MergeRead ids l snap n)
    then show ?thesis using assms g by (cases ids) (auto intro: replied_rank split: option.splits prod.splits, auto simp: taskRank_def)
  qed (use assms g in \<open>(auto intro: replied_rank split: option.splits prod.splits, auto simp: taskRank_def)?\<close>)
qed

interpretation goroutines: ranked_tasks "goStep env" taskRank rankLess for env
proof
  show "Wellfounded.wf rankLess" by (intro wf_lex_prod wf_less_than)
qed (use taskStep_rank in \<open>auto simp: goStep_def\<close>)

section \<open>A connection on its own\<close>

definition soloStep :: "serverEnv \<Rightarrow> (conn \<times> task) \<times> shared \<Rightarrow> (conn \<times> task) \<times> shared \<Rightarrow> bool" where
  "soloStep env x y \<longleftrightarrow> goStep env (fst x) (snd x) (fst y) (snd y)"

abbreviation solo :: "serverEnv \<Rightarrow> (conn \<times> task) \<times> shared \<Rightarrow> (conn \<times> task) \<times> shared \<Rightarrow> bool" where
  "solo env \<equiv> (soloStep env)\<^sup>*\<^sup>*"

lemma solo_step:
  "taskStep env now g s = Some (g', s') \<Longrightarrow> \<not> down s \<Longrightarrow> solo env (g', s') z \<Longrightarrow> solo env (g, s) z"
  by (rule converse_rtranclp_into_rtranclp) (auto simp: soloStep_def goStep_def)

lemma solo_last: "taskStep env now g s = Some z \<Longrightarrow> \<not> down s \<Longrightarrow> solo env (g, s) z"
  using solo_step [of env now g s "fst z" "snd z" z] by simp

lemma setStore_simps [simp]:
  "sdb (setStore db w s) = db" "sdisk (setStore db w s) = w" "down (setStore db w s) = down s"
  "compactMu (setStore db w s) = compactMu s" "setStore db' w' (setStore db w s) = setStore db' w' s"
  "setStore (sdb s) (sdisk s) s = s" "(setStore db w s)\<lparr>sdisk := w'\<rparr> = setStore db w' s"
  by (simp_all add: setStore_def)

lemma shared_commute [simp]:
  "(s :: shared)\<lparr>sdisk := w, compactMu := b\<rparr> = s\<lparr>compactMu := b, sdisk := w\<rparr>"
  "s\<lparr>sdb := d, compactMu := b\<rparr> = s\<lparr>compactMu := b, sdb := d\<rparr>"
  "s\<lparr>sdisk := w, sdb := d\<rparr> = s\<lparr>sdb := d, sdisk := w\<rparr>"
  by (cases s; simp)+

lemma delLoop_solo:
  assumes "delLoop clock i ks n (sdb s) (sdisk s) = (r, db', w')" "\<not> down s"
  shows "solo env ((c, DelGet ks n), s)
    (replied c (case r of Inl e \<Rightarrow> errReply env e | Inr m \<Rightarrow> Reply (WriteInteger m)) (setStore db' w' s))"
  using assms
proof (induction ks arbitrary: i n s)
  case Nil
  then show ?case by (intro solo_last [of env 0]) auto
next
  case (Cons k ks)
  show ?case
  proof (cases "dbGet (sdb s) k")
    case (Inl e)
    then show ?thesis using Cons.prems by (intro solo_last [of env 0]) (auto split: prod.splits)
  next
    case (Inr v)
    let ?n = "if v \<noteq> None then n + 1 else n"
    obtain eo db1 w1 where d: "dbDelete (clock i) k (sdb s) (sdisk s) = ((eo, db1), w1)" by (metis surj_pair)
    have "solo env ((c, DelDelete k ks ?n), s)
      (replied c (case r of Inl e \<Rightarrow> errReply env e | Inr m \<Rightarrow> Reply (WriteInteger m)) (setStore db' w' s))"
    proof (cases eo)
      case None
      have "delLoop clock (Suc i) ks ?n (sdb (setStore db1 w1 s)) (sdisk (setStore db1 w1 s)) = (r, db', w')"
        using Cons.prems(1) Inr d None by (simp add: Let_def)
      from Cons.IH [OF this] show ?thesis using d None Cons.prems(2) by - (rule solo_step [of env "clock i"], auto)
    next
      case (Some e)
      then show ?thesis using Cons.prems Inr d by (intro solo_last [of env "clock i"]) (auto split: prod.splits)
    qed
    then show ?thesis using Inr Cons.prems(2) by - (rule solo_step [of env 0], auto)
  qed
qed

lemma mergeRead_solo:
  assumes "readLatest ids latest (sdisk s) = (r, w')" "\<not> down s"
  shows "solo env ((c, MergeRead ids latest snap newID), s)
    (case r of Inr l \<Rightarrow> ((c, MergeWrite l snap newID), s\<lparr>sdisk := w'\<rparr>)
     | Inl e \<Rightarrow> (replied c (errReply env e) (s\<lparr>compactMu := False, sdisk := w'\<rparr>)))"
  using assms
proof (induction ids arbitrary: latest s)
  case Nil
  then show ?case by (intro solo_last [of env 0]) auto
next
  case (Cons i ids)
  obtain l off eo w1 where d: "scanSegment (segmentPath i) keepLatest latest (sdisk s) = ((l, off, eo), w1)" by (metis surj_pair)
  show ?case
  proof (cases eo)
    case None
    then have "readLatest ids l (sdisk (s\<lparr>sdisk := w1\<rparr>)) = (r, w')" using Cons.prems(1) d by simp
    from Cons.IH [OF this] show ?thesis using d None Cons.prems(2) by - (rule solo_step [of env 0], auto split: sum.splits)
  next
    case (Some e)
    then show ?thesis using Cons.prems d by (intro solo_last [of env 0]) (auto split: prod.splits)
  qed
qed

lemma Compact_solo:
  assumes "Compact (mapOrd env) (sdb s) (sdisk s) = ((eo, db'), w')" "\<not> down s" "\<not> compactMu s"
    and "goUpper (uni env) (orEmpty (hd args)) = str ''COMPACT''"
  shows "solo env ((c, Called args), s)
    (replied c (case eo of Some e \<Rightarrow> errReply env e | None \<Rightarrow> Reply WriteOK) (setStore db' w' s))"
proof -
  obtain x db1 where sn: "compactSnapshot (sdb s) = (x, db1)" by fastforce
  have call: "callStep env 0 c args s = (case x of Inl e \<Rightarrow> Some (replied c (errReply env e) (s\<lparr>sdb := db1\<rparr>))
      | Inr None \<Rightarrow> Some ((c, Replying WriteOK), s\<lparr>sdb := db1\<rparr>)
      | Inr (Some (snap, newID)) \<Rightarrow> Some ((c, MergeRead snap [] snap newID), s\<lparr>compactMu := True, sdb := db1\<rparr>))"
    using assms(3,4) sn by (simp add: callStep_def split: sum.splits option.splits)
  have same: "s\<lparr>compactMu := False, sdb := x, sdisk := y\<rparr> = setStore x y s" for x y
    using assms(3) by (cases s) (simp add: setStore_def)
  consider e where "x = Inl e" | "x = Inr None" | snap newID where "x = Inr (Some (snap, newID))" by (metis sum.exhaust option.exhaust surj_pair)
  then show ?thesis
  proof cases
    case (3 snap newID)
    let ?s = "s\<lparr>compactMu := True, sdb := db1\<rparr>"
    have start: "solo env ((c, MergeRead snap [] snap newID), ?s) z \<Longrightarrow> solo env ((c, Called args), s) z" for z
      using call 3 assms(2) by - (rule solo_step [of env 0], auto)
    obtain r w1 where rd: "readLatest snap [] (sdisk ?s) = (r, w1)" by fastforce
    note rds = mergeRead_solo [OF rd, of env c snap newID]
    show ?thesis
    proof (cases r)
      case (Inl e)
      then have "eo = Some e" "db' = db1" "w' = w1" using assms(1) sn 3 rd by (auto simp: Compact_def compactMerge_def)
      then show ?thesis using start rds assms(2) Inl same by simp
    next
      case (Inr l)
      obtain eo1 w2 where wr: "compactWrite (mapOrd env) l newID w1 = (eo1, w2)" by fastforce
      have st: "solo env ((c, MergeWrite l snap newID), ?s\<lparr>sdisk := w1\<rparr>) z \<Longrightarrow> solo env ((c, Called args), s) z" for z
        using start rds assms(2) Inr by (auto intro: rtranclp_trans)
      show ?thesis
      proof (cases eo1)
        case (Some e)
        then have "eo = Some e" "db' = db1" "w' = w2" using assms(1) sn 3 rd Inr wr by (auto simp: Compact_def compactMerge_def)
        then show ?thesis using assms(2) wr Some same by (intro st solo_last [of env 0]) simp_all
      next
        case None
        have "compactSwap snap newID db1 w2 = ((eo, db'), w')" using assms(1) sn 3 rd Inr wr None by (simp add: Compact_def compactMerge_def)
        then have "taskStep env 0 (c, Swapping snap newID) (?s\<lparr>sdisk := w2\<rparr>) = Some
            (replied c (case eo of Some e \<Rightarrow> errReply env e | None \<Rightarrow> Reply WriteOK) (setStore db' w' s))"
          using same by (simp add: setStore_def split: option.splits)
        from solo_last [OF this] show ?thesis using assms(2) wr None by - (rule st, rule solo_step [of env 0], simp_all)
      qed
    qed
  qed (use call assms sn in \<open>intro solo_last [of env 0]; auto simp: Compact_def setStore_def\<close>)+
qed

lemma dispatch_solo:
  assumes "dispatch env clock args (sdb s) (sdisk s) = (r, db', w')" "\<not> down s" "\<not> compactMu s" "args \<noteq> []"
  shows "solo env ((c, Called args), s) (replied c r (setStore db' w' s))"
proof -
  let ?cmd = "goUpper (uni env) (orEmpty (hd args))"
  consider (DEL) "?cmd = str ''DEL''" "length args \<ge> 2" | (COMPACT) "?cmd = str ''COMPACT''" | (SST) "?cmd = str ''COMPACT-SST''"
    | (other) "\<not> (?cmd = str ''DEL'' \<and> length args \<ge> 2)" "?cmd \<noteq> str ''COMPACT''" "?cmd \<noteq> str ''COMPACT-SST''" by blast
  then show ?thesis
  proof cases
    case DEL
    obtain x where d: "delLoop clock 0 (map orEmpty (tl args)) 0 (sdb s) (sdisk s) = (x, db', w')"
      "r = (case x of Inl e \<Rightarrow> errReply env e | Inr m \<Rightarrow> Reply (WriteInteger m))"
      using assms(1,4) DEL by (auto simp: dispatch_def split: sum.splits prod.splits)
    show ?thesis using delLoop_solo [OF d(1) assms(2), of env c] d(2) assms(2) DEL
      by - (rule solo_step [of env 0], auto simp: callStep_def)
  next
    case COMPACT
    obtain eo where "Compact (mapOrd env) (sdb s) (sdisk s) = ((eo, db'), w')"
      "r = (case eo of Some e \<Rightarrow> errReply env e | None \<Rightarrow> Reply WriteOK)"
      using assms(1,4) COMPACT by (auto simp: dispatch_def split: option.splits prod.splits)
    then show ?thesis using Compact_solo [OF _ assms(2,3) COMPACT] by simp
  next
    case SST
    obtain eo where d: "CompactSSTables (sdb s) (sdisk s) = ((eo, db'), w')"
      "r = (case eo of Some e \<Rightarrow> errReply env e | None \<Rightarrow> Reply (WriteSimpleString (str ''OK sstables='' @ showNat (SSTableCount db'))))"
      using assms(1,4) SST by (auto simp: dispatch_def split: option.splits prod.splits)
    show ?thesis
    proof (cases eo)
      case None
      have "solo env ((c, Counting), setStore db' w' s) (replied c r (setStore db' w' s))"
        using d None assms(2) by (intro solo_last [of env 0]) simp_all
      then show ?thesis using d None SST assms(2) by - (rule solo_step [of env 0], auto simp: callStep_def)
    qed (use d SST assms(2) in \<open>intro solo_last [of env 0]; auto simp: callStep_def\<close>)
  next
    case other
    then have "dispatch env (\<lambda>_. clock 0) args (sdb s) (sdisk s) = (r, db', w')"
      using assms(1,4) by (auto simp: dispatch_def Let_def)
    then show ?thesis using other assms(2) by (intro solo_last [of env "clock 0"]) (auto simp: callStep_def Let_def)
  qed
qed

text \<open>
  A connection whose goroutine runs undisturbed does what \<open>handle\<close> computes, whatever faults
  occur.
\<close>

lemma handle_solo:
  assumes "handle env clock j c (sdb s) (sdisk s) = (p, c', db', w')" "\<not> down s" "\<not> compactMu s"
  shows "solo env ((c, Reading), s) ((c', Closed), (setStore db' w' s)\<lparr>down := p\<rparr>)"
  using assms
proof (induction env clock j c "sdb s" "sdisk s" arbitrary: s rule: handle.induct)
  case (1 env clock j c s)
  obtain x r where rd: "ReadCommand (uni env) (incoming c) = (x, r)" by fastforce
  let ?c = "c\<lparr>incoming := r\<rparr>"
  show ?case
  proof (cases x)
    case (Inl e)
    then show ?thesis using "1.prems" rd by (subst (asm) handle.simps) (auto intro!: solo_last [of env 0])
  next
    case (Inr args)
    show ?thesis
    proof (cases "args = []")
      case True
      then have "solo env ((?c, Reading), s) ((c', Closed), (setStore db' w' s)\<lparr>down := p\<rparr>)"
        using "1.hyps"(1) [OF rd [symmetric] Inr True refl refl] "1.prems" rd Inr by (subst (asm) handle.simps) simp
      then show ?thesis using rd Inr True "1.prems"(2) by - (rule solo_step [of env 0], auto)
    next
      case False
      obtain rep db1 w1 where d: "dispatch env (clock j) args (sdb s) (sdisk s) = (rep, db1, w1)" by (metis surj_pair)
      note ds = dispatch_solo [OF d "1.prems"(2,3) False, of ?c]
      have st: "solo env ((?c, Called args), s) z \<Longrightarrow> solo env ((c, Reading), s) z" for z
        using rd Inr False "1.prems"(2) by - (rule solo_step [of env 0], auto)
      show ?thesis
      proof (cases rep)
        case (Reply out)
        obtain b c2 where f: "flushConn out ?c = (b, c2)" by fastforce
        have st2: "solo env ((?c, Replying out), setStore db1 w1 s) z \<Longrightarrow> solo env ((c, Reading), s) z" for z
          using ds Reply by (intro st) (auto intro: rtranclp_trans)
        show ?thesis
        proof (cases b)
          case True
          have "handle env clock (Suc j) c2 db1 w1 = (p, c', db', w')"
            using "1.prems"(1) rd Inr False d Reply f True by (subst (asm) handle.simps) simp
          then have "solo env ((c2, Reading), setStore db1 w1 s) ((c', Closed), (setStore db' w' s)\<lparr>down := p\<rparr>)"
            using "1.hyps"(2) [OF rd [symmetric] Inr False d [symmetric] Reply _ f [symmetric], of "setStore db1 w1 s"] True "1.prems" by simp
          then show ?thesis using f True "1.prems"(2) by - (rule st2, rule solo_step [of env 0], auto)
        next
          case nb: False
          then have "(c', db', w', p) = (c2, db1, w1, False)"
            using "1.prems"(1) rd Inr False d Reply f by (subst (asm) handle.simps) simp
          then show ?thesis using f nb "1.prems"(2) by - (rule st2, rule solo_last [of env 0], auto)
        qed
      next
        case Crashed
        then have "(c', db', w', p) = (?c, db1, w1, True)"
          using "1.prems"(1) rd Inr False d by (subst (asm) handle.simps) simp
        then show ?thesis using st ds Crashed by simp
      qed
    qed
  qed
qed

end
