(* ===== verification/Kora_Pending.thy ===== *)
theory Kora_Pending
  imports Kora_Goroutine
begin

text \<open>
  What a log compaction relies on while other goroutines run between its stretches. The other
  store operations change the segments in one of three ways (\<open>moves\<close>), and each of them leaves
  a pending compaction able to go on: a flush may take its input files away, in which case it
  reports an error, but never corrupts them or its output.
\<close>

section \<open>How operations move the segments\<close>

definition moves :: "DB \<Rightarrow> world \<Rightarrow> DB \<Rightarrow> world \<Rightarrow> bool" where
  "moves db w db' w' \<longleftrightarrow> extends db w db' w' \<or> flushed db w db' w'"

lemma moves_same:
  "order db' = order db \<Longrightarrow> nextID db' = nextID db \<Longrightarrow>
     (\<And>i. lookupFile (segmentPath i) w' = lookupFile (segmentPath i) w) \<Longrightarrow> moves db w db' w'"
  by (simp add: moves_def extends_def)

lemma moves_op:
  assumes s: "storeInv (Suc n) (db, w)" "legalOp op" "op \<noteq> OpCompact" and run: "applyOp ord op db w = ((None, db'), w')"
  shows "moves db w db' w'"
proof -
  have a: "calm w" "dbOk db w" "hasRoom 1 db" "hasRoom (Suc n) db"
    using s(1) hasRoom_mono [of "Suc n" db 1] by (simp_all add: storeInv_def)
  show ?thesis
  proof (cases op)
    case (OpSet now k v)
    then show ?thesis using dbSet_calm [OF a(1-3), of k v now] s(2) run by (auto simp: moves_def)
  next
    case (OpDel now k)
    then show ?thesis using dbDelete_calm [OF a(1-3), of k now] s(2) run by (auto simp: moves_def)
  next
    case OpCompactSSTables
    have "unat (ssNextID db) + 1 < 2 ^ 32" "tableEntries db \<le> 429496728" using a(4) by (auto simp: hasRoom_def storedEntries_def)
    from CompactSSTables_calm [OF a(1,2) this] show ?thesis using run OpCompactSSTables by (auto intro: moves_same)
  qed (use s(3) in simp)
qed

section \<open>A pending compaction\<close>

text \<open>A file of the snapshot is a log in order, or a flush has removed it.\<close>

definition logOrGone :: "world \<Rightarrow> u32 \<Rightarrow> bool" where
  "logOrGone w i \<longleftrightarrow> lookupFile (segmentPath i) w = None \<or>
     (\<exists>rs. lookupFile (segmentPath i) w = Some (logOf rs) \<and> list_all logRecOk rs)"

definition pending :: "u32 list \<Rightarrow> u32 \<Rightarrow> DB \<Rightarrow> world \<Rightarrow> bool" where
  "pending snap n db w \<longleftrightarrow> n < nextID db \<and> n \<notin> set (order db) \<and> n \<notin> set snap \<and> last (order db) \<notin> set snap \<and>
     (\<forall>i \<in> set snap. i < nextID db \<and> logOrGone w i)"

lemma pending_moves:
  assumes p: "pending snap n db w" and m: "moves db w db' w'" and ok: "dbOk db w" "dbOk db' w'"
  shows "pending snap n db' w'" "lookupFile (segmentPath n) w' = lookupFile (segmentPath n) w"
proof -
  note o = dbOk_order [OF ok(1)]
  have n: "n < nextID db" "n \<notin> set (order db)" "n \<noteq> last (order db)" using p o(3) by (auto simp: pending_def)
  have kept: "lookupFile (segmentPath i) w' = lookupFile (segmentPath i) w \<or> i \<noteq> n \<and> lookupFile (segmentPath i) w' = None"
    if "i < nextID db" "i \<noteq> last (order db)" for i
    using m that n by (auto simp: moves_def extends_def flushed_def)
  then show "lookupFile (segmentPath n) w' = lookupFile (segmentPath n) w" using n by blast
  have le: "nextID db \<le> nextID db'"
    using m dbOk_shape [OF ok(2)] by (auto simp: moves_def extends_def flushed_def shapeOk_def idsValid_def)
  have lt: "i < nextID db'" if "i < nextID db" for i using that le by (rule less_le_trans)
  have "set (order db') \<subseteq> set (order db) \<union> {i. nextID db \<le> i}"
    using m by (auto simp: moves_def extends_def flushed_def)
  moreover have "last (order db') \<in> insert (last (order db)) {i. nextID db \<le> i}"
    using m by (auto simp: moves_def extends_def flushed_def)
  moreover have "logOrGone w' i" if "i \<in> set snap" for i
  proof -
    have "i < nextID db" "i \<noteq> last (order db)" "logOrGone w i" using p that by (auto simp: pending_def)
    then show ?thesis using kept [of i] by (auto simp: logOrGone_def)
  qed
  ultimately show "pending snap n db' w'" using p lt by (fastforce simp: pending_def)
qed

fun merging :: "task \<Rightarrow> bool" where
  "merging (MergeRead ids latest snap n) \<longleftrightarrow> True"
| "merging (MergeWrite latest snap n) \<longleftrightarrow> True"
| "merging (Swapping snap n) \<longleftrightarrow> True"
| "merging _ \<longleftrightarrow> False"

fun compOk :: "task \<Rightarrow> DB \<Rightarrow> world \<Rightarrow> bool" where
  "compOk (MergeRead ids latest snap n) db w \<longleftrightarrow>
     pending snap n db w \<and> set ids \<subseteq> set snap \<and> (\<exists>S. latest = latestOf S \<and> list_all logRecOk S)"
| "compOk (MergeWrite latest snap n) db w \<longleftrightarrow> pending snap n db w \<and> (\<exists>S. latest = latestOf S \<and> list_all logRecOk S)"
| "compOk (Swapping snap n) db w \<longleftrightarrow>
     pending snap n db w \<and> (\<exists>rs. lookupFile (segmentPath n) w = Some (logOf rs) \<and> list_all logRecOk rs)"
| "compOk _ db w \<longleftrightarrow> True"

lemma compOk_other: "\<not> merging t \<Longrightarrow> compOk t db w"
  by (cases t) auto

lemma compOk_moves:
  assumes "compOk t db w" "moves db w db' w'" "dbOk db w" "dbOk db' w'"
  shows "compOk t db' w'"
  using assms pending_moves [OF _ assms(2-4)] by (cases t) auto

section \<open>The stretches of a compaction\<close>

lemma snapshot_step:
  assumes s: "serverInv (Suc n) (db, w)" and snap: "butlast (order db) \<noteq> []"
  defines "db1 \<equiv> db\<lparr>nextID := nextID db + 1\<rparr>"
  shows "compactSnapshot db = (Inr (Some (butlast (order db), nextID db)), db1)" "serverInv n (db1, w)"
    "dbView db1 = dbView db" "compOk (MergeRead (butlast (order db)) [] (butlast (order db)) (nextID db)) db1 w"
proof -
  have ok: "dbOk db w" "hasRoom (Suc n) db" "calm w" using s by (simp_all add: serverInv_def storeInv_def)
  note o = dbOk_order [OF ok(1)]
  have lt: "nextID db < nextID db + 1" using ok(2) by (intro u32_less_Suc) (simp add: hasRoom_def)
  show "compactSnapshot db = (Inr (Some (butlast (order db), nextID db)), db1)"
    using o(5) filter_not_last [OF o(1,2)] snap by (simp add: compactSnapshot_def Let_def db1_def)
  show v: "dbView db1 = dbView db" by (simp add: db1_def dbView_lsm)
  have "shapeOk db1" using dbOk_shape [OF ok(1)] lt by (auto simp: shapeOk_def db1_def currentSSTIDs_def idsValid_def intro: less_trans)
  then have "dbOk db1 w" using ok(1) lt v by (auto simp: dbOk_def db1_def memOk_def intro: less_trans)
  moreover have "hasRoom n db1" using ok(2) by (auto simp: hasRoom_def db1_def storedEntries_def tableEntries_def unat_word_ariths)
  moreover have "noEmptyKey db1 = noEmptyKey db" by (simp add: noEmptyKey_dbKeys dbKeys_split db1_def)
  ultimately show "serverInv n (db1, w)" using s ok(3) by (simp add: serverInv_def storeInv_def)
  have "i < nextID db \<and> logOrGone w i" if "i \<in> set (butlast (order db))" for i
    using in_set_butlastD [OF that] dbOk_shape [OF ok(1)] dbOk_seg [OF ok(1), of i]
    by (auto simp: shapeOk_def idsValid_def logOrGone_def segOk_def)
  then have "pending (butlast (order db)) (nextID db) db1 w"
    using o(4) in_set_butlastD [of "nextID db" "order db"] set_last_butlast(2) [OF o(1,2)] lt by (auto simp: pending_def db1_def intro: less_trans)
  then show "compOk (MergeRead (butlast (order db)) [] (butlast (order db)) (nextID db)) db1 w"
    by (auto simp: latestOf_def intro: exI [of _ "[]"])
qed

lemma nothing_to_compact:
  assumes "dbOk db w" "butlast (order db) = []"
  shows "compactSnapshot db = (Inr None, db)"
  using dbOk_order(5) [OF assms(1)] filter_not_last [OF dbOk_order(1,2) [OF assms(1)]] assms(2) by (simp add: compactSnapshot_def)

lemma mergeRead_step:
  assumes "calm w" "compOk (MergeRead (i # ids) latest snap n) db w"
  shows "(\<exists>off e. scanSegment (segmentPath i) keepLatest latest w = ((latest, off, Some e), w) \<and> e \<noteq> Panic) \<or>
    (\<exists>latest' off. scanSegment (segmentPath i) keepLatest latest w = ((latest', off, None), w) \<and>
       compOk (MergeRead ids latest' snap n) db w)"
proof -
  obtain S where S: "latest = latestOf S" "list_all logRecOk S" using assms(2) by auto
  have "logOrGone w i" using assms(2) by (auto simp: pending_def)
  then consider "lookupFile (segmentPath i) w = None"
    | rs where "lookupFile (segmentPath i) w = Some (logOf rs)" "list_all logRecOk rs" by (auto simp: logOrGone_def)
  then show ?thesis
  proof cases
    case 1
    then show ?thesis using assms(1) by (simp add: scanSegment_def openRead_def)
  next
    case (2 rs)
    have "scanLoop keepLatest (logOf rs) 0 latest = (latestOf (S @ rs), length (logOf rs), None)"
      using scanLoop_clean [OF recOk_of_logRecOk [OF 2(2)], of keepLatest "\<lambda>r l. AList.update (Key r) r l"] S(1)
      by (simp add: keepLatest_def latestOf_def)
    then show ?thesis using assms 2 S(2) by (auto simp: scanSegment_def intro!: exI [of _ "S @ rs"])
  qed
qed

lemma dbOk_added:
  assumes "dbOk db w" "n < nextID db" "n \<notin> set (order db)"
    and "\<And>p. p \<noteq> segmentPath n \<Longrightarrow> p \<noteq> compactTmpPath n \<Longrightarrow> lookupFile p w' = lookupFile p w"
  shows "dbOk db w'"
proof -
  have seg: "lookupFile (segmentPath i) w' = lookupFile (segmentPath i) w" if "i \<noteq> n" for i using assms(4) that by simp
  have "segOk w' (segments db) i = segOk w (segments db) i" if "i \<in> set (order db)" for i
    using that assms(3) by (intro segOk_cong seg) auto
  moreover have "tableAt w' r = tableAt w r" for r by (rule tableAt_cong) (simp add: assms(4))
  moreover have "i < nextID db" if "lookupFile (segmentPath i) w' \<noteq> None" for i
    using that seg [of i] assms(1,2) by (cases "i = n") (auto simp: dbOk_def)
  ultimately show ?thesis using assms(1) by (simp add: dbOk_def list_all_iff)
qed

lemma mergeWrite_step:
  assumes s: "serverInv k (db, w)" and c: "compOk (MergeWrite latest snap n) db w" and ord: "\<And>xs. mset (ord xs) = mset xs"
  shows "\<exists>w'. compactWrite ord latest n w = (None, w') \<and> serverInv k (db, w') \<and> compOk (Swapping snap n) db w'"
proof -
  obtain S where S: "latest = latestOf S" "list_all logRecOk S" "pending snap n db w" using c by auto
  have w: "calm w" "dbOk db w" using s by (simp_all add: serverInv_def storeInv_def)
  obtain w' where w': "compactWrite ord latest n w = (None, w')" "calm w'" "list_all logRecOk (mergedRecords ord S)"
    "lookupFile (segmentPath n) w' = Some (logOf (mergedRecords ord S))"
    "\<And>p. p \<noteq> segmentPath n \<Longrightarrow> p \<noteq> compactTmpPath n \<Longrightarrow> lookupFile p w' = lookupFile p w"
    using compactWrite_calm [OF w(1) S(2) ord] S(1) by blast
  have n: "n < nextID db" "n \<notin> set (order db)" "n \<notin> set snap" using S(3) by (simp_all add: pending_def)
  have "dbOk db w'" by (rule dbOk_added [OF w(2) n(1,2) w'(5)])
  moreover have "logOrGone w' i = logOrGone w i" if "i \<in> set snap" for i
  proof -
    have "i \<noteq> n" using that n(3) by blast
    then show ?thesis using w'(5) [of "segmentPath i"] by (simp add: logOrGone_def)
  qed
  then have "pending snap n db w'" using S(3) by (simp add: pending_def)
  ultimately show ?thesis using s w' by (auto simp: serverInv_def storeInv_def)
qed

lemma swap_step:
  assumes s: "serverInv k (db, w)" and c: "compOk (Swapping snap n) db w"
  shows "\<exists>db' w'. compactSwap snap n db w = ((None, db'), w') \<and> serverInv k (db', w') \<and> dbView db' = dbView db"
proof -
  obtain rs where rs: "lookupFile (segmentPath n) w = Some (logOf rs)" "list_all logRecOk rs" "pending snap n db w" using c by auto
  have w: "calm w" "dbOk db w" "hasRoom k db" using s by (simp_all add: serverInv_def storeInv_def)
  obtain db' w' where c: "compactSwap snap n db w = ((None, db'), w')" "calm w'" "dbOk db' w'" "sameMem db db'" "nextID db' = nextID db"
    using compactSwap_calm [OF w(1,2) _ _ _ rs(1,2), of snap] rs(3) by (auto simp: pending_def)
  have "hasRoom k db'" using w(3) c(5) sameMem_stored [OF c(4)] by (simp add: hasRoom_def)
  then show ?thesis using s c sameMem_view [OF c(4)] sameMem_keys [OF c(4)] by (simp add: serverInv_def storeInv_def noEmptyKey_dbKeys)
qed

end
