(* ===== verification/Kora_Linear.thy ===== *)
theory Kora_Linear
  imports Kora_Pending
begin

text \<open>
  Concurrent connections are linearizable: for every schedule there is one order of the commands
  of all connections that explains every reply and the contents of the store. A \<open>DEL\<close> is not one
  entry of that order but two for each key, the look and the removal.
\<close>

section \<open>The abstract history\<close>

datatype atom = Whole "bytes option list" bytes | Look bytes bool | Drop bytes

text \<open>
  A command that is answered at once gives the abstract reply. \<open>COMPACT\<close> may also report an error,
  when a flush has removed a segment it was going to read.
\<close>

fun atomOk :: "serverEnv \<Rightarrow> atom \<Rightarrow> (bytes \<rightharpoonup> bytes) \<Rightarrow> bool" where
  "atomOk env (Whole args out) m \<longleftrightarrow> (\<exists>tables. out = specReply env tables args m) \<or>
     cmdOf env args = str ''COMPACT'' \<and> (\<exists>msg. out = WriteError msg)"
| "atomOk env (Look k b) m \<longleftrightarrow> (b \<longleftrightarrow> m k \<noteq> None)"
| "atomOk env (Drop k) m \<longleftrightarrow> True"

fun atomView :: "serverEnv \<Rightarrow> atom \<Rightarrow> (bytes \<rightharpoonup> bytes) \<Rightarrow> (bytes \<rightharpoonup> bytes)" where
  "atomView env (Whole args out) m = specView env args m"
| "atomView env (Look k b) m = m"
| "atomView env (Drop k) m = m(k := None)"

text \<open>A history: the connection and what it did. It is legal from a map if every entry is.\<close>

type_synonym history = "(nat \<times> atom) list"

definition historyView :: "serverEnv \<Rightarrow> history \<Rightarrow> (bytes \<rightharpoonup> bytes) \<Rightarrow> (bytes \<rightharpoonup> bytes)" where
  "historyView env h m = fold (\<lambda>x. atomView env (snd x)) h m"

fun historyOk :: "serverEnv \<Rightarrow> history \<Rightarrow> (bytes \<rightharpoonup> bytes) \<Rightarrow> bool" where
  "historyOk env [] m \<longleftrightarrow> True"
| "historyOk env (x # h) m \<longleftrightarrow> atomOk env (snd x) m \<and> historyOk env h (atomView env (snd x) m)"

definition ofConn :: "nat \<Rightarrow> history \<Rightarrow> atom list" where
  "ofConn i h = map snd (filter (\<lambda>x. fst x = i) h)"

lemma historyView_append: "historyView env (h @ h') m = historyView env h' (historyView env h m)"
  by (simp add: historyView_def)

lemma historyOk_append: "historyOk env (h @ h') m \<longleftrightarrow> historyOk env h m \<and> historyOk env h' (historyView env h m)"
  by (induction h arbitrary: m) (auto simp: historyView_def)

lemma ofConn_append: "ofConn i (h @ map (Pair j) as) = (if i = j then ofConn i h @ as else ofConn i h)"
proof -
  have "filter (\<lambda>x. fst x = i) (map (Pair j) as) = (if i = j then map (Pair j) as else [])" by (induction as) auto
  then show ?thesis by (simp add: ofConn_def comp_def)
qed

section \<open>What a connection sees\<close>

definition delKeys :: "bytes option list \<Rightarrow> bytes list" where
  "delKeys args = map orEmpty (tl args)"

definition isDel :: "serverEnv \<Rightarrow> bytes option list \<Rightarrow> bool" where
  "isDel env args \<longleftrightarrow> cmdOf env args = str ''DEL'' \<and> length args \<ge> 2"

fun delAtoms :: "bytes list \<Rightarrow> bool list \<Rightarrow> atom list" where
  "delAtoms (k # ks) (b # bs) = Look k b # Drop k # delAtoms ks bs"
| "delAtoms _ _ = []"

lemma delAtoms_snoc: "length ks = length bs \<Longrightarrow> delAtoms (ks @ [k]) (bs @ [b]) = delAtoms ks bs @ [Look k b, Drop k]"
  by (induction ks bs rule: list_induct2) auto

text \<open>
  The entries of one command and its reply: a \<open>DEL\<close> is answered with the number of its keys that
  were there when it looked.
\<close>

definition cmdAtoms :: "serverEnv \<Rightarrow> bytes option list \<Rightarrow> atom list \<Rightarrow> bytes \<Rightarrow> bool" where
  "cmdAtoms env args as out \<longleftrightarrow>
     (if isDel env args
      then \<exists>bs. length bs = length (delKeys args) \<and> as = delAtoms (delKeys args) bs \<and> out = WriteInteger (int (count_list bs True))
      else as = [Whole args out])"

text \<open>The commands of a connection, its entries in the history and what it was sent.\<close>

inductive answered :: "serverEnv \<Rightarrow> bytes option list list \<Rightarrow> atom list \<Rightarrow> bytes \<Rightarrow> bool" for env where
  nothing: "answered env [] [] []"
| more: "answered env cmds as out \<Longrightarrow> cmdAtoms env args bs r \<Longrightarrow> answered env (cmds @ [args]) (as @ bs) (out @ r)"

section \<open>The state of a goroutine\<close>

text \<open>The command being executed, its entries so far, and where the goroutine is in it.\<close>

fun taskOk :: "serverEnv \<Rightarrow> bytes option list \<Rightarrow> atom list \<Rightarrow> task \<Rightarrow> bool" where
  "taskOk env args as (Called a) \<longleftrightarrow> a = args \<and> as = []"
| "taskOk env args as (DelGet ks n) \<longleftrightarrow> isDel env args \<and>
     (\<exists>pre bs. delKeys args = pre @ ks \<and> length pre = length bs \<and> as = delAtoms pre bs \<and> n = int (count_list bs True))"
| "taskOk env args as (DelDelete k ks n) \<longleftrightarrow> isDel env args \<and>
     (\<exists>pre bs b. delKeys args = pre @ k # ks \<and> length pre = length bs \<and> as = delAtoms pre bs @ [Look k b] \<and>
        n = int (count_list (bs @ [b]) True))"
| "taskOk env args as (MergeRead ids l snap n) \<longleftrightarrow> cmdOf env args = str ''COMPACT'' \<and> as = []"
| "taskOk env args as (MergeWrite l snap n) \<longleftrightarrow> cmdOf env args = str ''COMPACT'' \<and> as = []"
| "taskOk env args as (Swapping snap n) \<longleftrightarrow> cmdOf env args = str ''COMPACT'' \<and> as = []"
| "taskOk env args as Counting \<longleftrightarrow> cmdOf env args = str ''COMPACT-SST'' \<and> as = []"
| "taskOk env args as (Replying out) \<longleftrightarrow> cmdAtoms env args as out"
| "taskOk env args as _ \<longleftrightarrow> False"

text \<open>
  \<open>goOk env cmds as rest g\<close>: of the commands \<open>cmds\<close> of its connection the goroutine still has to
  read \<open>rest\<close>, and its entries in the history are \<open>as\<close>.
\<close>

definition goOk :: "serverEnv \<Rightarrow> bytes option list list \<Rightarrow> atom list \<Rightarrow> bytes option list list \<Rightarrow> conn \<times> task \<Rightarrow> bool" where
  "goOk env cmds as rest g \<longleftrightarrow> accepts (fst g) = None \<and> incoming (fst g) = concat (map encCmd rest) \<and>
     ((snd g = Reading \<or> snd g = Closed \<and> rest = []) \<and> (\<exists>past. cmds = past @ rest \<and> answered env past as (sent (fst g))) \<or>
      (\<exists>past args as0 bs. cmds = past @ args # rest \<and> answered env past as0 (sent (fst g)) \<and> as = as0 @ bs \<and>
         taskOk env args bs (snd g)))"

text \<open>The writes a goroutine may still make.\<close>

fun taskCost :: "task \<Rightarrow> nat" where
  "taskCost (Called args) = length args"
| "taskCost (DelGet ks n) = length ks"
| "taskCost (DelDelete k ks n) = Suc (length ks)"
| "taskCost _ = 0"

definition cost :: "bytes option list list \<Rightarrow> task \<Rightarrow> nat" where
  "cost rest t = sum_list (map length rest) + taskCost t"

abbreviation stateInv :: "nat \<Rightarrow> shared \<Rightarrow> bool" where
  "stateInv n s \<equiv> serverInv n (sdb s, sdisk s)"

abbreviation stateView :: "shared \<Rightarrow> (bytes \<rightharpoonup> bytes)" where
  "stateView s \<equiv> dbView (sdb s)"

section \<open>One step\<close>

text \<open>
  What a step of a goroutine at \<open>t\<close> does: it makes the entries \<open>bs\<close>, leaves \<open>rest'\<close> to be read
  and \<open>n\<close> writes for the other goroutines, keeps the mutex of the compaction and does not disturb
  a compaction of another goroutine.
\<close>

definition stepOk :: "serverEnv \<Rightarrow> bytes option list list \<Rightarrow> atom list \<Rightarrow> nat \<Rightarrow> task \<Rightarrow> shared \<Rightarrow> conn \<times> task \<Rightarrow> shared \<Rightarrow> bool" where
  "stepOk env cmds as n t s g' s' \<longleftrightarrow>
     (\<exists>bs rest'. goOk env cmds (as @ bs) rest' g' \<and> stateInv (cost rest' (snd g') + n) s' \<and>
        historyOk env (map (Pair 0) bs) (stateView s) \<and> stateView s' = historyView env (map (Pair 0) bs) (stateView s)) \<and>
     \<not> down s' \<and> compOk (snd g') (sdb s') (sdisk s') \<and>
     compactMu s' = (merging (snd g') \<or> \<not> merging t \<and> compactMu s) \<and> (merging (snd g') \<and> \<not> merging t \<longrightarrow> \<not> compactMu s) \<and>
     (\<forall>u. \<not> merging t \<and> \<not> merging (snd g') \<and> compOk u (sdb s) (sdisk s) \<longrightarrow> compOk u (sdb s') (sdisk s'))"

lemma stepOkI:
  assumes "goOk env cmds (as @ bs) rest' g'" "stateInv (cost rest' (snd g') + n) s'"
    and "historyOk env (map (Pair 0) bs) (stateView s)" "stateView s' = historyView env (map (Pair 0) bs) (stateView s)"
    and "\<not> down s'" "compOk (snd g') (sdb s') (sdisk s')"
    and "compactMu s' = (merging (snd g') \<or> \<not> merging t \<and> compactMu s)" "merging (snd g') \<Longrightarrow> \<not> merging t \<Longrightarrow> \<not> compactMu s"
    and "\<not> merging t \<Longrightarrow> \<not> merging (snd g') \<Longrightarrow> moves (sdb s) (sdisk s) (sdb s') (sdisk s')" "stateInv k s"
  shows "stepOk env cmds as n t s g' s'"
proof -
  have "dbOk (sdb s) (sdisk s)" "dbOk (sdb s') (sdisk s')" using assms(2,10) by (simp_all add: serverInv_def storeInv_def)
  then show ?thesis using assms compOk_moves unfolding stepOk_def by blast
qed

lemma moves_refl: "moves db w db w"
  by (rule moves_same) auto

text \<open>A step of the current command that stays in it.\<close>

lemma goOk_busy:
  "cmds = past @ args # rest \<Longrightarrow> answered env past as0 (sent c) \<Longrightarrow> taskOk env args bs t \<Longrightarrow> accepts c = None \<Longrightarrow>
     incoming c = concat (map encCmd rest) \<Longrightarrow> goOk env cmds (as0 @ bs) rest (c, t)"
  by (auto simp: goOk_def)

lemma one_atom:
  "historyOk env (map (Pair 0) [a]) m \<longleftrightarrow> atomOk env a m" "historyView env (map (Pair 0) [a]) m = atomView env a m"
  "historyOk env (map (Pair 0) []) m" "historyView env (map (Pair 0) []) m = m"
  by (simp_all add: historyView_def)

lemma reading_step:
  assumes g: "goOk env cmds as rest (c, Reading)" "list_all wireOk cmds" and s: "stateInv (cost rest Reading + n) s" "\<not> down s"
    and run: "taskStep env now (c, Reading) s = Some (g', s')"
  shows "stepOk env cmds as n Reading s g' s'"
proof -
  obtain past where past: "cmds = past @ rest" "answered env past as (sent c)" "accepts c = None" "incoming c = concat (map encCmd rest)"
    using g(1) by (auto simp: goOk_def)
  show ?thesis
  proof (cases rest)
    case Nil
    then have r: "g' = (c, Closed)" "s' = s" using run past(4) s(2) by (auto simp: ReadCommand_def)
    show ?thesis using past s r Nil
      by (intro stepOkI [where bs = "[]" and rest' = "[]"]) (auto simp: goOk_def cost_def moves_refl historyView_def)
  next
    case (Cons args rest')
    then have wa: "wireOk args" "args \<noteq> []" using g(2) past(1) by (auto simp: wireOk_def)
    let ?c = "c\<lparr>incoming := concat (map encCmd rest')\<rparr>"
    have r: "g' = (?c, Called args)" "s' = s" using run past(4) Cons wa ReadCommand_encCmd [OF wa(1), of "uni env"] by auto
    have "goOk env cmds (as @ []) rest' (?c, Called args)" using past Cons by (intro goOk_busy) auto
    then show ?thesis using s r Cons
      by (intro stepOkI [where bs = "[]" and rest' = rest']) (auto simp: cost_def moves_refl historyView_def add.commute)
  qed
qed

text \<open>A goroutine in the middle of a command.\<close>

definition busy :: "serverEnv \<Rightarrow> bytes option list list \<Rightarrow> atom list \<Rightarrow> bytes option list \<Rightarrow> bytes option list list \<Rightarrow> conn \<Rightarrow> bool" where
  "busy env cmds as0 args rest c \<longleftrightarrow> (\<exists>past. cmds = past @ args # rest \<and> answered env past as0 (sent c)) \<and>
     accepts c = None \<and> incoming c = concat (map encCmd rest)"

lemma busy_goOk: "busy env cmds as0 args rest c \<Longrightarrow> taskOk env args bs t \<Longrightarrow> goOk env cmds (as0 @ bs) rest (c, t)"
  by (auto simp: busy_def goOk_def)

text \<open>A step that adds the entries \<open>xs\<close> of the current command.\<close>

lemma busyI:
  assumes "busy env cmds as0 args rest c" "taskOk env args (bs @ xs) t'" "stateInv (cost rest t' + n) s'"
    and "historyOk env (map (Pair 0) xs) (stateView s)" "stateView s' = historyView env (map (Pair 0) xs) (stateView s)"
    and "\<not> down s'" "compOk t' (sdb s') (sdisk s')"
    and "compactMu s' = (merging t' \<or> \<not> merging t \<and> compactMu s)" "merging t' \<Longrightarrow> \<not> merging t \<Longrightarrow> \<not> compactMu s"
    and "\<not> merging t \<Longrightarrow> \<not> merging t' \<Longrightarrow> moves (sdb s) (sdisk s) (sdb s') (sdisk s')" "stateInv k s"
  shows "stepOk env cmds (as0 @ bs) n t s (c, t') s'"
proof -
  have "goOk env cmds ((as0 @ bs) @ xs) rest (c, t')" using busy_goOk [OF assms(1,2)] by simp
  then show ?thesis using assms(3-) by (intro stepOkI [where bs = xs and rest' = rest]) simp_all
qed

lemma dispatch_moves:
  assumes s: "serverInv (length args + n) (db, w)" "legalCmd env args" and d: "dispatch env clock args db w = (r, db', w')"
    and c: "\<not> isDel env args" "cmdOf env args \<noteq> str ''COMPACT''" "cmdOf env args \<noteq> str ''COMPACT-SST''"
  shows "moves db w db' w'"
proof (cases "cmdOf env args = str ''SET'' \<and> length args = 3")
  case True
  let ?op = "OpSet (clock 0) (orEmpty (args ! 1)) (args ! 2)"
  have l: "legalOp ?op" "[] \<notin> opKeys ?op" "args \<noteq> []" using s(2) True by (auto simp: legalCmd_def)
  have inv: "serverInv (Suc (2 + n)) (db, w)" using s(1) True by (auto intro: serverInv_mono)
  have "applyOp id ?op db w = ((None, db'), w')"
    using op_served [OF inv l(1,2), of id] d True l(3) by (auto simp: dispatch_def cmdOf_def)
  then show ?thesis using moves_op [of _ db w ?op id db' w'] inv l(1) by (auto simp: serverInv_def)
next
  case False
  then have "db' = db" "w' = w" using c d s(2)
    by (auto simp: dispatch_def cmdOf_def isDel_def legalCmd_def Let_def split: if_splits sum.splits option.splits)
  then show ?thesis using moves_refl by simp
qed

lemma compactCall_step:
  assumes b: "busy env cmds as0 args rest c" and cmd: "cmdOf env args = str ''COMPACT''"
    and s: "stateInv (Suc (cost rest Reading + n)) s" "\<not> down s" and run: "taskStep env now (c, Called args) s = Some (g', s')"
  shows "stepOk env cmds (as0 @ []) n (Called args) s g' s'"
proof -
  note name = cmdOf_def [of env args, symmetric]
  have ok: "dbOk (sdb s) (sdisk s)" using s(1) by (simp add: serverInv_def storeInv_def)
  have mu: "\<not> compactMu s" using run cmd by (auto simp: callStep_def name split: if_splits)
  show ?thesis
  proof (cases "butlast (order (sdb s)) = []")
    case True
    then have r: "g' = (c, Replying WriteOK)" "s' = s" using run mu cmd nothing_to_compact [OF ok] by (auto simp: callStep_def name)
    have "atomOk env (Whole args WriteOK) (stateView s)" "specView env args (stateView s) = stateView s" "\<not> isDel env args"
      using cmd by (auto simp: specReply_def specView_def isDel_def)
    then show ?thesis unfolding r using s serverInv_mono [OF s(1)]
      by (intro busyI [OF b, where xs = "[Whole args WriteOK]"]) (auto simp: moves_refl historyView_def cmdAtoms_def cost_def)
  next
    case False
    note sn = snapshot_step [OF s(1) False]
    let ?snap = "butlast (order (sdb s))" and ?s = "s\<lparr>compactMu := True, sdb := (sdb s)\<lparr>nextID := nextID (sdb s) + 1\<rparr>\<rparr>"
    have r: "g' = (c, MergeRead ?snap [] ?snap (nextID (sdb s)))" "s' = ?s"
      using run mu cmd sn(1) by (auto simp: callStep_def name)
    show ?thesis unfolding r using sn(2-4) s mu cmd by (intro busyI [OF b, where xs = "[]"]) (auto simp: historyView_def cost_def)
  qed
qed

lemma call_step:
  assumes b: "busy env cmds as0 args rest c" and l: "legalCmd env args" "envOk env"
    and s: "stateInv (cost rest (Called args) + n) s" "\<not> down s" and run: "taskStep env now (c, Called args) s = Some (g', s')"
  shows "stepOk env cmds (as0 @ []) n (Called args) s g' s'"
proof -
  have inv: "serverInv (length args + (cost rest Reading + n)) (sdb s, sdisk s)" using s(1) by (simp add: cost_def add_ac)
  obtain m where m: "length args = Suc m" using l(1) by (cases args) (auto simp: legalCmd_def)
  have inv1: "serverInv (Suc (cost rest Reading + n)) (sdb s, sdisk s)" using inv serverInv_mono m by simp
  note cmd = cmdOf_def [of env args, symmetric]
  consider (DEL) "isDel env args" | (COMPACT) "cmdOf env args = str ''COMPACT''" | (SST) "cmdOf env args = str ''COMPACT-SST''"
    | (other) "\<not> isDel env args" "cmdOf env args \<noteq> str ''COMPACT''" "cmdOf env args \<noteq> str ''COMPACT-SST''" by blast
  then show ?thesis
  proof cases
    case DEL
    then have r: "g' = (c, DelGet (delKeys args) 0)" "s' = s" using run by (auto simp: callStep_def cmd isDel_def delKeys_def)
    have "stateInv (cost rest (DelGet (delKeys args) 0) + n) s"
      using serverInv_mono [OF s(1)] by (simp add: cost_def delKeys_def m)
    then show ?thesis unfolding r using DEL s by (intro busyI [OF b, where xs = "[]"]) (auto simp: moves_refl historyView_def)
  next
    case COMPACT
    then show ?thesis using compactCall_step [OF b _ inv1 s(2) run] by simp
  next
    case SST
    obtain db' w' where c: "CompactSSTables (sdb s) (sdisk s) = ((None, db'), w')" "serverInv (cost rest Reading + n) (db', w')" "dbView db' = stateView s"
      using op_served [OF inv1, of OpCompactSSTables id] by auto
    have "moves (sdb s) (sdisk s) db' w'" using moves_op [of _ "sdb s" "sdisk s" OpCompactSSTables id db' w'] inv1 c(1) by (auto simp: serverInv_def)
    moreover have r: "g' = (c, Counting)" "s' = setStore db' w' s" using run SST c(1) by (auto simp: callStep_def cmd)
    ultimately show ?thesis unfolding r using c s SST by (intro busyI [OF b, where xs = "[]"]) (auto simp: historyView_def cost_def)
  next
    case other
    obtain db' w' where d: "dispatch env (\<lambda>_. now) args (sdb s) (sdisk s) = (Reply (specReply env (SSTableCount db') args (stateView s)), db', w')"
      "serverInv (cost rest Reading + n) (db', w')" "dbView db' = specView env args (stateView s)"
      using dispatch_served [OF inv l] by blast
    let ?out = "specReply env (SSTableCount db') args (stateView s)"
    have r: "g' = (c, Replying ?out)" "s' = setStore db' w' s" using run other d(1) by (auto simp: callStep_def cmd isDel_def)
    have "atomOk env (Whole args ?out) (stateView s)" by auto
    then show ?thesis unfolding r using d s other dispatch_moves [OF inv l(1) d(1) other]
      by (intro busyI [OF b, where xs = "[Whole args ?out]"]) (auto simp: historyView_def cmdAtoms_def cost_def)
  qed
qed

lemma del_step:
  assumes b: "busy env cmds as0 args rest c" and l: "legalCmd env args" and t: "taskOk env args bs t" "t = DelGet ks m \<or> t = DelDelete k ks m"
    and s: "stateInv (cost rest t + n) s" "\<not> down s" and run: "taskStep env now (c, t) s = Some (g', s')"
  shows "stepOk env cmds (as0 @ bs) n t s g' s'"
proof -
  have get: "dbGet (sdb s) x = Inr (stateView s x)" for x using dbGet_view serverInv_mem s(1) by blast
  have del: "isDel env args" using t by auto
  have key: "keyOk x \<and> x \<noteq> []" if "x \<in> set (delKeys args)" for x
    using l del that by (auto simp: legalCmd_def isDel_def delKeys_def list_all_iff)
  consider (finish) "t = DelGet [] m" | (look) k ks' where "t = DelGet (k # ks') m" | (drop) "t = DelDelete k ks m"
    using t(2) by (metis list.exhaust)
  then show ?thesis
  proof cases
    case finish
    then have r: "g' = (c, Replying (WriteInteger m))" "s' = s" using run by simp_all
    have "taskOk env args (bs @ []) (Replying (WriteInteger m))" using t(1) finish del by (auto simp: cmdAtoms_def)
    then show ?thesis unfolding r using s finish by (intro busyI [OF b, where xs = "[]"]) (auto simp: moves_refl historyView_def cost_def)
  next
    case (look k ks')
    let ?b = "stateView s k \<noteq> None"
    obtain pre fs where p: "delKeys args = pre @ k # ks'" "length pre = length fs" "bs = delAtoms pre fs" "m = int (count_list fs True)"
      using t(1) look by auto
    have r: "g' = (c, DelDelete k ks' (if ?b then m + 1 else m))" "s' = s" using run look get by auto
    have tk: "taskOk env args (bs @ [Look k ?b]) (DelDelete k ks' (if ?b then m + 1 else m))"
      using p del by (auto intro!: exI [of _ pre] exI [of _ fs])
    show ?thesis unfolding r using s look by (intro busyI [OF b tk]) (auto simp: moves_refl historyView_def cost_def)
  next
    case drop
    obtain pre fs x where p: "delKeys args = pre @ k # ks" "length pre = length fs" "bs = delAtoms pre fs @ [Look k x]"
      "m = int (count_list (fs @ [x]) True)"
      using t(1) drop by auto
    have inv: "serverInv (Suc (cost rest (DelGet ks m) + n)) (sdb s, sdisk s)" using s(1) drop by (simp add: cost_def)
    have op: "legalOp (OpDel now k)" "[] \<notin> opKeys (OpDel now k)" using key [of k] p(1) by auto
    obtain db' w' where d: "dbDelete now k (sdb s) (sdisk s) = ((None, db'), w')" "serverInv (cost rest (DelGet ks m) + n) (db', w')"
      "dbView db' = (stateView s)(k := None)"
      using op_served [OF inv op, of id] by auto
    have "moves (sdb s) (sdisk s) db' w'" using moves_op [of _ "sdb s" "sdisk s" "OpDel now k" id db' w'] inv op(1) d(1) by (auto simp: serverInv_def)
    moreover have r: "g' = (c, DelGet ks m)" "s' = setStore db' w' s" using run drop d(1) by simp_all
    moreover have tk: "taskOk env args (bs @ [Drop k]) (DelGet ks m)"
      using p del by (auto simp: delAtoms_snoc intro!: exI [of _ "pre @ [k]"] exI [of _ "fs @ [x]"])
    ultimately show ?thesis unfolding r using d s drop by (intro busyI [OF b tk]) (auto simp: historyView_def)
  qed
qed

lemma failed_compaction:
  assumes "busy env cmds as0 args rest c" "cmdOf env args = str ''COMPACT''" "merging t" "e \<noteq> Panic"
    and "stateInv (cost rest t + n) s" "\<not> down s"
  shows "stepOk env cmds (as0 @ []) n t s (c, Replying (WriteError (errText env e))) (s\<lparr>compactMu := False\<rparr>)"
proof -
  let ?a = "Whole args (WriteError (errText env e))"
  have "atomOk env ?a (stateView s)" "specView env args (stateView s) = stateView s" "\<not> isDel env args"
    using assms(2) by (auto simp: specView_def isDel_def)
  moreover have "taskCost t = 0" using assms(3) by (cases t) auto
  ultimately show ?thesis using assms(3-)
    by (intro busyI [OF assms(1), where xs = "[?a]"]) (auto simp: historyView_def cmdAtoms_def cost_def)
qed

lemma merge_goes_on:
  assumes b: "busy env cmds as0 args rest c" "cmdOf env args = str ''COMPACT''" and t: "merging t" "stateInv (cost rest t + n) s"
    and "merging t'" "stateInv (cost rest t' + n) s'" "stateView s' = stateView s" "\<not> down s'" "compactMu s'" "compOk t' (sdb s') (sdisk s')"
  shows "stepOk env cmds as0 n t s (c, t') s'"
proof -
  have "taskOk env args [] t'" using assms(2,5) by (cases t') auto
  then have "stepOk env cmds (as0 @ []) n t s (c, t') s'"
    using assms(3-) by (intro busyI [OF b(1), where xs = "[]"]) (auto simp: historyView_def)
  then show ?thesis by simp
qed

lemma merge_step:
  assumes b: "busy env cmds as0 args rest c" and l: "envOk env" "cmdOf env args = str ''COMPACT''"
    and t: "merging t" "compOk t (sdb s) (sdisk s)"
    and s: "stateInv (cost rest t + n) s" "\<not> down s" "compactMu s" and run: "taskStep env now (c, t) s = Some (g', s')"
  shows "stepOk env cmds (as0 @ []) n t s g' s'"
proof -
  have ord: "mset (mapOrd env xs) = mset xs" for xs using l(1) by (simp add: envOk_def)
  have cl: "calm (sdisk s)" using s(1) by (simp add: serverInv_def storeInv_def)
  note stay = merge_goes_on [OF b l(2) t(1) s(1)]
  show ?thesis
  proof (cases t)
    case (MergeRead ids latest snap m)
    show ?thesis
    proof (cases ids)
      case Nil
      then have "g' = (c, MergeWrite latest snap m)" "s' = s" using run MergeRead by simp_all
      then show ?thesis using stay [of "MergeWrite latest snap m" s] s t(2) MergeRead Nil by (auto simp: cost_def)
    next
      case (Cons i ids')
      from mergeRead_step [OF cl, of i ids' latest snap m "sdb s"] t(2) MergeRead Cons
      consider off e where "scanSegment (segmentPath i) keepLatest latest (sdisk s) = ((latest, off, Some e), sdisk s)" "e \<noteq> Panic"
        | latest' off where "scanSegment (segmentPath i) keepLatest latest (sdisk s) = ((latest', off, None), sdisk s)"
            "compOk (MergeRead ids' latest' snap m) (sdb s) (sdisk s)" by blast
      then show ?thesis
      proof cases
        case 1
        then have "g' = (c, Replying (WriteError (errText env e)))" "s' = s\<lparr>compactMu := False\<rparr>"
          using run MergeRead Cons by (simp_all add: errReply_def)
        then show ?thesis using failed_compaction [OF b l(2) t(1) 1(2) s(1,2)] by simp
      next
        case 2
        then have "g' = (c, MergeRead ids' latest' snap m)" "s' = s" using run MergeRead Cons by simp_all
        then show ?thesis using stay [of "MergeRead ids' latest' snap m" s] s 2(2) MergeRead by (simp add: cost_def del: compOk.simps)
      qed
    qed
  next
    case (MergeWrite latest snap m)
    obtain w' where w': "compactWrite (mapOrd env) latest m (sdisk s) = (None, w')" "serverInv (cost rest t + n) (sdb s, w')"
      "compOk (Swapping snap m) (sdb s) w'"
      using mergeWrite_step [OF s(1) _ ord, of latest snap m] t(2) MergeWrite by auto
    then have "g' = (c, Swapping snap m)" "s' = s\<lparr>sdisk := w'\<rparr>" using run MergeWrite by simp_all
    then show ?thesis using stay [of "Swapping snap m" "s\<lparr>sdisk := w'\<rparr>"] s w' MergeWrite by (simp add: cost_def del: compOk.simps)
  next
    case (Swapping snap m)
    obtain db' w' where c: "compactSwap snap m (sdb s) (sdisk s) = ((None, db'), w')" "serverInv (cost rest t + n) (db', w')" "dbView db' = stateView s"
      using swap_step [OF s(1), of snap m] t(2) Swapping by auto
    then have r: "g' = (c, Replying WriteOK)" "s' = setStore db' w' (s\<lparr>compactMu := False\<rparr>)" using run Swapping by simp_all
    have "atomOk env (Whole args WriteOK) (stateView s)" "specView env args (stateView s) = stateView s" "\<not> isDel env args"
      using l(2) by (auto simp: specReply_def specView_def isDel_def)
    then show ?thesis unfolding r using s c t(1) Swapping
      by (intro busyI [OF b, where xs = "[Whole args WriteOK]"]) (auto simp: historyView_def cmdAtoms_def cost_def)
  qed (use t(1) in auto)
qed

lemma count_step:
  assumes b: "busy env cmds as0 args rest c" and l: "cmdOf env args = str ''COMPACT-SST''"
    and s: "stateInv (cost rest Counting + n) s" "\<not> down s" and run: "taskStep env now (c, Counting) s = Some (g', s')"
  shows "stepOk env cmds (as0 @ []) n Counting s g' s'"
proof -
  let ?out = "WriteSimpleString (str ''OK sstables='' @ showNat (SSTableCount (sdb s)))"
  have r: "g' = (c, Replying ?out)" "s' = s" using run by auto
  have "?out = specReply env (SSTableCount (sdb s)) args (stateView s)" using l by (simp add: specReply_def)
  then have "atomOk env (Whole args ?out) (stateView s)" unfolding atomOk.simps by blast
  moreover have "specView env args (stateView s) = stateView s" "\<not> isDel env args" using l by (auto simp: specView_def isDel_def)
  ultimately show ?thesis unfolding r using s
    by (intro busyI [OF b, where xs = "[Whole args ?out]"])
      (auto simp: historyView_def cmdAtoms_def cost_def moves_refl simp del: atomOk.simps)
qed

lemma replying_step:
  assumes b: "busy env cmds as0 args rest c" and t: "cmdAtoms env args bs out"
    and s: "stateInv (cost rest (Replying out) + n) s" "\<not> down s" and run: "taskStep env now (c, Replying out) s = Some (g', s')"
  shows "stepOk env cmds (as0 @ bs) n (Replying out) s g' s'"
proof -
  obtain past where past: "cmds = past @ args # rest" "answered env past as0 (sent c)" "accepts c = None" "incoming c = concat (map encCmd rest)"
    using b by (auto simp: busy_def)
  have r: "g' = (c\<lparr>sent := sent c @ out\<rparr>, Reading)" "s' = s" using run past(3) by (simp_all add: flushConn_def)
  have "answered env (past @ [args]) (as0 @ bs) (sent c @ out)" using past(2) t by (rule answered.more)
  then have "goOk env cmds ((as0 @ bs) @ []) rest g'" using past r by (auto simp: goOk_def intro!: exI [of _ "past @ [args]"])
  then show ?thesis using s r by (intro stepOkI [where bs = "[]" and rest' = rest]) (auto simp: historyView_def cost_def moves_refl)
qed

text \<open>Every step of every goroutine.\<close>

lemma any_step:
  assumes g: "goOk env cmds as rest (c, t)" "list_all wireOk cmds" "list_all (legalCmd env) cmds" "envOk env"
    and t: "compOk t (sdb s) (sdisk s)" "merging t \<Longrightarrow> compactMu s"
    and s: "stateInv (cost rest t + n) s" "\<not> down s" and run: "taskStep env now (c, t) s = Some (g', s')"
  shows "stepOk env cmds as n t s g' s'"
proof (cases "t = Reading \<or> t = Closed")
  case True
  then show ?thesis using reading_step [of env cmds as rest c n s now g' s'] g(1,2) s run by (auto simp del: taskStep.simps(1))
next
  case False
  then obtain past args as0 bs where p: "cmds = past @ args # rest" "answered env past as0 (sent c)" "as = as0 @ bs" "taskOk env args bs t"
    "accepts c = None" "incoming c = concat (map encCmd rest)"
    using g(1) by (auto simp: goOk_def)
  have b: "busy env cmds as0 args rest c" using p by (auto simp: busy_def)
  have l: "legalCmd env args" using g(3) p(1) by simp
  show ?thesis
  proof (cases "merging t")
    case True
    then have "bs = []" "cmdOf env args = str ''COMPACT''" using p(4) by (cases t; auto)+
    then show ?thesis using merge_step [OF b g(4) _ True t(1) s] t(2) True run p(3) by simp
  next
    case nm: False
    show ?thesis
    proof (cases t)
      case (Called a)
      then show ?thesis using call_step [OF b l g(4) _ s(2), of n now g' s'] s(1) run p(3,4) by (simp del: taskStep.simps)
    next
      case (DelGet ks m)
      then show ?thesis using del_step [OF b l p(4) _ s run, of ks m] p(3) by simp
    next
      case (DelDelete k ks m)
      then show ?thesis using del_step [OF b l p(4) _ s run, of ks m k] p(3) by simp
    next
      case Counting
      then show ?thesis using count_step [OF b _ _ s(2), of n now g' s'] s(1) run p(3,4) by (simp del: taskStep.simps)
    next
      case (Replying out)
      then show ?thesis using replying_step [OF b _ _ s(2), of bs out n now g' s'] s(1) run p(3,4) by (simp del: taskStep.simps)
    qed (use False nm in auto)
  qed
qed

section \<open>All goroutines\<close>

lemma history_conn:
  "historyOk env (map (Pair i) bs) m = historyOk env (map (Pair 0) bs) m"
  "historyView env (map (Pair i) bs) m = historyView env (map (Pair 0) bs) m"
  by (induction bs arbitrary: m) (simp_all add: historyView_def)

text \<open>The invariant, for the history \<open>h\<close>; \<open>rs\<close> are the commands each goroutine has not yet read.\<close>

definition concInv ::
  "serverEnv \<Rightarrow> bytes option list list list \<Rightarrow> (bytes \<rightharpoonup> bytes) \<Rightarrow> history \<Rightarrow> bytes option list list list \<Rightarrow> (conn \<times> task) list \<times> shared \<Rightarrow> bool" where
  "concInv env cmds m0 h rs x \<longleftrightarrow> (case x of (gs, s) \<Rightarrow>
     length gs = length cmds \<and> length rs = length cmds \<and> \<not> down s \<and> list_all (\<lambda>x. fst x < length cmds) h \<and>
     historyOk env h m0 \<and> stateView s = historyView env h m0 \<and>
     stateInv (\<Sum>i < length cmds. cost (rs ! i) (snd (gs ! i))) s \<and>
     (\<forall>i < length cmds. goOk env (cmds ! i) (ofConn i h) (rs ! i) (gs ! i) \<and> compOk (snd (gs ! i)) (sdb s) (sdisk s)) \<and>
     (compactMu s \<longleftrightarrow> (\<exists>i < length cmds. merging (snd (gs ! i)))) \<and>
     (\<forall>i < length cmds. \<forall>j < length cmds. merging (snd (gs ! i)) \<and> merging (snd (gs ! j)) \<longrightarrow> i = j))"

text \<open>At most one goroutine is inside a section that a flag guards, and the flag says whether one is.\<close>

lemma mutex_update:
  fixes N :: nat
  assumes "i < N" "mu \<longleftrightarrow> (\<exists>j < N. M j)" "\<forall>j < N. \<forall>k < N. M j \<and> M k \<longrightarrow> j = k"
    and "mu' \<longleftrightarrow> b \<or> \<not> M i \<and> mu" "b \<Longrightarrow> \<not> M i \<Longrightarrow> \<not> mu" "\<And>j. j < N \<Longrightarrow> M' j = (if j = i then b else M j)"
  shows "mu' \<longleftrightarrow> (\<exists>j < N. M' j)" "\<forall>j < N. \<forall>k < N. M' j \<and> M' k \<longrightarrow> j = k"
proof -
  have "(\<exists>j < N. j \<noteq> i \<and> M j) \<longleftrightarrow> \<not> M i \<and> mu" using assms(1-3) by blast
  moreover have "(\<exists>j < N. M' j) \<longleftrightarrow> b \<or> (\<exists>j < N. j \<noteq> i \<and> M j)" using assms(1,6) by metis
  ultimately show "mu' \<longleftrightarrow> (\<exists>j < N. M' j)" using assms(4) by blast
  have other: "x = i" if "x < N" "M x" b for x using assms(1-3,5) that by blast
  show "\<forall>j < N. \<forall>k < N. M' j \<and> M' k \<longrightarrow> j = k"
  proof (intro allI impI)
    fix j k assume jk: "j < N" "k < N" "M' j \<and> M' k"
    then show "j = k" using other assms(3,6) by metis
  qed
qed

lemma concInv_step:
  assumes inv: "concInv env cmds m0 h rs (gs, s)" and run: "interleave (goStep env) (gs, s) (gs', s')"
    and l: "list_all (list_all wireOk) cmds" "list_all (list_all (legalCmd env)) cmds" "envOk env"
  shows "\<exists>h' rs'. concInv env cmds m0 (h @ h') rs' (gs', s')"
proof -
  let ?N = "length cmds"
  obtain i g' now where i: "i < ?N" "gs' = gs[i := g']" "taskStep env now (gs ! i) s = Some (g', s')"
    using run inv by (auto simp: goStep_def concInv_def elim!: interleave_cases)
  have len: "length gs = ?N" "length rs = ?N" "\<not> down s" using inv by (auto simp: concInv_def)
  define t where "t = snd (gs ! i)"
  have gi: "gs ! i = (fst (gs ! i), t)" by (simp add: t_def)
  define n where "n = (\<Sum>j \<in> {..<?N} - {i}. cost (rs ! j) (snd (gs ! j)))"
  have total: "(\<Sum>j < ?N. cost (rs ! j) (snd (gs ! j))) = cost (rs ! i) t + n"
    unfolding n_def t_def by (rule sum.remove) (use i(1) in auto)
  have mu: "compactMu s \<longleftrightarrow> (\<exists>j < ?N. merging (snd (gs ! j)))" "\<forall>j < ?N. \<forall>k < ?N. merging (snd (gs ! j)) \<and> merging (snd (gs ! k)) \<longrightarrow> j = k"
    using inv by (auto simp: concInv_def)
  have "stepOk env (cmds ! i) (ofConn i h) n t s g' s'"
  proof (rule any_step)
    show "goOk env (cmds ! i) (ofConn i h) (rs ! i) (fst (gs ! i), t)" "compOk t (sdb s) (sdisk s)" "stateInv (cost (rs ! i) t + n) s" "\<not> down s"
      using inv i(1) total by (auto simp: concInv_def t_def)
    show "merging t \<Longrightarrow> compactMu s" using mu(1) i(1) by (auto simp: t_def)
    show "taskStep env now (fst (gs ! i), t) s = Some (g', s')" using i(3) gi by simp
  qed (use l i(1) in \<open>auto simp: list_all_length\<close>)
  then obtain bs r' where st: "goOk env (cmds ! i) (ofConn i h @ bs) r' g'" "stateInv (cost r' (snd g') + n) s'"
      "historyOk env (map (Pair 0) bs) (stateView s)" "stateView s' = historyView env (map (Pair 0) bs) (stateView s)"
      "\<not> down s'" "compOk (snd g') (sdb s') (sdisk s')" "compactMu s' = (merging (snd g') \<or> \<not> merging t \<and> compactMu s)"
      "merging (snd g') \<Longrightarrow> \<not> merging t \<Longrightarrow> \<not> compactMu s"
      "\<And>u. \<not> merging t \<Longrightarrow> \<not> merging (snd g') \<Longrightarrow> compOk u (sdb s) (sdisk s) \<Longrightarrow> compOk u (sdb s') (sdisk s')"
    unfolding stepOk_def by blast
  let ?h = "h @ map (Pair i) bs" and ?rs = "rs[i := r']"
  have nth: "gs' ! j = (if j = i then g' else gs ! j)" "?rs ! j = (if j = i then r' else rs ! j)" if "j < ?N" for j
    using i(2) len that by auto
  have "(\<Sum>j < ?N. cost (?rs ! j) (snd (gs' ! j))) = cost r' (snd g') + n"
  proof -
    have "(\<Sum>j \<in> {..<?N} - {i}. cost (?rs ! j) (snd (gs' ! j))) = n" unfolding n_def by (rule sum.cong) (auto simp: nth)
    then show ?thesis using i(1) nth [OF i(1)] by (subst sum.remove [of _ i]) auto
  qed
  moreover have "goOk env (cmds ! j) (ofConn j ?h) (?rs ! j) (gs' ! j) \<and> compOk (snd (gs' ! j)) (sdb s') (sdisk s')" if j: "j < ?N" for j
  proof (cases "j = i")
    case False
    have "compOk (snd (gs ! j)) (sdb s') (sdisk s')"
    proof (cases "merging (snd (gs ! j))")
      case True
      then have "\<not> merging t" "\<not> merging (snd g')" using mu i(1) j False st(8) by (auto simp: t_def)
      then show ?thesis using st(9) inv j by (auto simp: concInv_def)
    qed (simp add: compOk_other)
    then show ?thesis using inv j False nth [OF j] by (simp add: concInv_def ofConn_append)
  qed (use st(1,6) nth [OF j] in \<open>simp add: ofConn_append\<close>)
  moreover have merging': "merging (snd (gs' ! j)) = (if j = i then merging (snd g') else merging (snd (gs ! j)))" if "j < ?N" for j
    using nth [OF that] by simp
  then have "compactMu s' \<longleftrightarrow> (\<exists>j < ?N. merging (snd (gs' ! j)))"
    "\<forall>j < ?N. \<forall>k < ?N. merging (snd (gs' ! j)) \<and> merging (snd (gs' ! k)) \<longrightarrow> j = k"
    using mutex_update [OF i(1) mu st(7,8) [unfolded t_def] merging'] by blast+
  moreover have "length gs' = ?N" "length ?rs = ?N" using i(2) len by simp_all
  moreover have "list_all (\<lambda>x. fst x < ?N) ?h" using inv i(1) by (auto simp: concInv_def list_all_iff)
  moreover have "historyOk env ?h m0" "stateView s' = historyView env ?h m0"
    using inv st(3,4) by (simp_all add: concInv_def historyOk_append historyView_append history_conn [of env i bs])
  ultimately have "concInv env cmds m0 ?h ?rs (gs', s')"
    using st(2,5) unfolding concInv_def prod.case by presburger
  then show ?thesis by blast
qed

lemma concInv_run:
  assumes "schedule env x y" "concInv env cmds m0 h rs x"
    and l: "list_all (list_all wireOk) cmds" "list_all (list_all (legalCmd env)) cmds" "envOk env"
  shows "\<exists>h' rs'. concInv env cmds m0 (h @ h') rs' y"
  using assms(1,2)
proof (induction rule: rtranclp_induct)
  case base
  then show ?case by (metis append_Nil2)
next
  case (step y z)
  then obtain h1 rs1 where "concInv env cmds m0 (h @ h1) rs1 y" by blast
  moreover obtain gs s gs' s' where "y = (gs, s)" "z = (gs', s')" by (metis surj_pair)
  ultimately show ?case using concInv_step [OF _ _ l, of m0 "h @ h1" rs1 gs s gs' s'] step.hyps(2) by (metis append_assoc)
qed

text \<open>A goroutine stands still only when it is done or waits for the mutex of a running compaction.\<close>

lemma can_step:
  assumes "t \<noteq> Closed" "compactMu s \<longrightarrow> (\<forall>args. t \<noteq> Called args)"
  shows "taskStep env 0 (c, t) s \<noteq> None"
proof (cases t)
  case (Called args)
  then show ?thesis using assms(2) by (simp add: callStep_def Let_def del: not_None_eq split: sum.splits option.splits prod.splits)
next
  case (DelGet ks n)
  then show ?thesis by (cases ks) (simp_all del: not_None_eq split: sum.splits)
next
  case (MergeRead ids l snap n)
  then show ?thesis by (cases ids) (simp_all del: not_None_eq split: option.splits prod.splits)
qed (use assms(1) in \<open>simp_all del: not_None_eq split: sum.splits option.splits prod.splits bool.splits\<close>)

lemma stuck_closed:
  assumes inv: "concInv env cmds m0 h rs (gs, s)" and stuck: "\<And>y. \<not> interleave (goStep env) (gs, s) y"
  shows "list_all (\<lambda>g. snd g = Closed) gs"
proof -
  have len: "length gs = length cmds" "\<not> down s" using inv by (auto simp: concInv_def)
  have no: "taskStep env 0 (gs ! i) s = None" if "i < length gs" for i
  proof (rule ccontr)
    assume "taskStep env 0 (gs ! i) s \<noteq> None"
    then obtain g' s' where "taskStep env 0 (gs ! i) s = Some (g', s')" by (metis not_None_eq surj_pair)
    then have "goStep env (gs ! i) s g' s'" using len(2) unfolding goStep_def by blast
    then show False using stuck that interleave.turn by metis
  qed
  have "\<not> compactMu s"
  proof
    assume "compactMu s"
    then obtain i where i: "i < length gs" "merging (snd (gs ! i))" using inv len by (auto simp: concInv_def)
    then have "snd (gs ! i) \<noteq> Closed" "\<forall>args. snd (gs ! i) \<noteq> Called args" by (cases "snd (gs ! i)"; simp)+
    then show False using can_step [of "snd (gs ! i)" s env "fst (gs ! i)"] no [OF i(1)] by simp
  qed
  then have "snd (gs ! i) = Closed" if "i < length gs" for i
    using can_step [of "snd (gs ! i)" s env "fst (gs ! i)"] no [OF that] by (simp del: taskStep.simps) blast
  then show ?thesis by (simp add: list_all_length)
qed

end
