(* ===== verification/Kora_Concurrent.thy ===== *)
theory Kora_Concurrent
  imports Kora_Linear
begin

text \<open>
  The properties of concurrent connections: they linearize, every schedule ends, a connection
  alone runs as \<open>handle\<close>, and two \<open>DEL\<close>s of one key may both count it.
\<close>

section \<open>Connections of a fresh server\<close>

definition clientConn :: "bytes option list list \<Rightarrow> conn \<times> task" where
  "clientConn cs = (\<lparr>incoming = concat (map encCmd cs), sent = [], accepts = None\<rparr>, Reading)"

definition freshShared :: "DB \<Rightarrow> world \<Rightarrow> shared" where
  "freshShared db w = \<lparr>compactMu = False, sdb = db, sdisk = w, down = False\<rparr>"

lemma freshShared_simps [simp]:
  "compactMu (freshShared db w) = False" "sdb (freshShared db w) = db" "sdisk (freshShared db w) = w" "down (freshShared db w) = False"
  by (simp_all add: freshShared_def)

abbreviation writes :: "bytes option list list list \<Rightarrow> nat" where
  "writes cmds \<equiv> sum_list (map (\<lambda>cs. sum_list (map length cs)) cmds)"

lemma concInv_start:
  assumes "serverInv (writes cmds) (db, w)"
  shows "concInv env cmds (dbView db) [] cmds (map clientConn cmds, freshShared db w)"
proof -
  have "(\<Sum>i < length cmds. cost (cmds ! i) (snd (map clientConn cmds ! i))) = (\<Sum>i < length cmds. sum_list (map length (cmds ! i)))"
    by (rule sum.cong) (auto simp: cost_def clientConn_def)
  also have "\<dots> = writes cmds" by (simp add: sum_list_sum_nth atLeast0LessThan)
  finally have "stateInv (\<Sum>i < length cmds. cost (cmds ! i) (snd (map clientConn cmds ! i))) (freshShared db w)" using assms by simp
  then show ?thesis unfolding concInv_def prod.case
    by (auto simp: goOk_def clientConn_def ofConn_def historyView_def intro: answered.nothing)
qed

section \<open>What a history explains\<close>

text \<open>
  The history is a run of the abstract server on a map that ends with the contents of the store;
  each connection was sent the replies to a prefix of its commands; its entries are those of this
  prefix and, while a command is being executed, part of those of that command. A goroutine that
  has finished has answered all commands.
\<close>

definition explains :: "serverEnv \<Rightarrow> bytes option list list list \<Rightarrow> (bytes \<rightharpoonup> bytes) \<Rightarrow> history \<Rightarrow> (conn \<times> task) list \<times> shared \<Rightarrow> bool" where
  "explains env cmds m0 h x \<longleftrightarrow> (case x of (gs, s) \<Rightarrow>
     historyOk env h m0 \<and> list_all (\<lambda>e. fst e < length cmds) h \<and> (\<forall>k. dbGet (sdb s) k = Inr (historyView env h m0 k)) \<and>
     (\<forall>i < length cmds. \<exists>past rest as bs. cmds ! i = past @ rest \<and> ofConn i h = as @ bs \<and>
        answered env past as (sent (fst (gs ! i))) \<and>
        (snd (gs ! i) = Reading \<longrightarrow> bs = [] \<and> incoming (fst (gs ! i)) = concat (map encCmd rest)) \<and>
        (snd (gs ! i) = Closed \<longrightarrow> bs = [] \<and> rest = [])))"

lemma concInv_explains:
  assumes "concInv env cmds m0 h rs (gs, s)"
  shows "explains env cmds m0 h (gs, s)"
proof -
  have inv: "historyOk env h m0" "list_all (\<lambda>e. fst e < length cmds) h" "stateView s = historyView env h m0"
    "\<And>i. i < length cmds \<Longrightarrow> goOk env (cmds ! i) (ofConn i h) (rs ! i) (gs ! i)"
    "memOk (sdb s)" using assms serverInv_mem unfolding concInv_def prod.case by blast+
  have "\<exists>past rest as bs. cmds ! i = past @ rest \<and> ofConn i h = as @ bs \<and> answered env past as (sent (fst (gs ! i))) \<and>
        (snd (gs ! i) = Reading \<longrightarrow> bs = [] \<and> incoming (fst (gs ! i)) = concat (map encCmd rest)) \<and>
        (snd (gs ! i) = Closed \<longrightarrow> bs = [] \<and> rest = [])" if i: "i < length cmds" for i
  proof (cases "snd (gs ! i) = Reading \<or> snd (gs ! i) = Closed")
    case True
    then obtain past where "cmds ! i = past @ rs ! i" "answered env past (ofConn i h) (sent (fst (gs ! i)))"
      "incoming (fst (gs ! i)) = concat (map encCmd (rs ! i))" "snd (gs ! i) = Closed \<longrightarrow> rs ! i = []"
      using inv(4) [OF i] by (auto simp: goOk_def)
    then show ?thesis by (metis append_Nil2)
  next
    case False
    then show ?thesis using inv(4) [OF i] by (auto simp: goOk_def)
  qed
  then show ?thesis using inv(1-3,5) dbGet_view by (simp add: explains_def)
qed

section \<open>Properties\<close>


lemma schedule_completes: "\<exists>gs s. schedule env x (gs, s) \<and> (\<forall>y. \<not> interleave (goStep env) (gs, s) y)"
proof (induction x rule: wfp_induct_rule [OF goroutines.interleave_terminates [of env]])
  case (1 x)
  show ?case
  proof (cases "\<exists>y. interleave (goStep env) x y")
    case True
    then show ?thesis using 1 by (meson converse_rtranclp_into_rtranclp)
  next
    case False
    then show ?thesis by (cases x) auto
  qed
qed

lemma historyOk_member: "historyOk env h m \<Longrightarrow> x \<in> set h \<Longrightarrow> \<exists>m'. atomOk env (snd x) m'"
  by (induction h arbitrary: m) auto

inductive_cases answered_Nil: "answered env [] as out"

lemma answered_single:
  assumes "answered env [args] as out" "\<not> isDel env args"
  shows "as = [Whole args out]"
  using assms(1)
proof (cases rule: answered.cases)
  case (more cmds as0 out0 a bs r)
  then have "cmds = []" "a = args" by simp_all
  moreover have "as0 = []" "out0 = []" using more \<open>cmds = []\<close> by (auto elim: answered_Nil)
  ultimately show ?thesis using more assms(2) by (simp add: cmdAtoms_def)
qed

lemma ofConn_member: "a \<in> set (ofConn i h) \<Longrightarrow> (i, a) \<in> set h"
  by (auto simp: ofConn_def)

lemma explained_set:
  assumes "explains env cmds m h (gs, s)" "i < length cmds" "cmds ! i = [args]" "snd (gs ! i) = Closed"
    and "cmdOf env args = str ''SET''" "length args = 3"
  shows "sent (fst (gs ! i)) = WriteOK"
proof -
  have h: "historyOk env h m" "answered env [args] (ofConn i h) (sent (fst (gs ! i)))"
    using assms(1-4) unfolding explains_def prod.case by (blast, metis append_Nil2)
  from h(2) have "ofConn i h = [Whole args (sent (fst (gs ! i)))]" using assms(5) by (intro answered_single) (auto simp: isDel_def)
  then have "(i, Whole args (sent (fst (gs ! i)))) \<in> set h" by (intro ofConn_member) simp
  from historyOk_member [OF h(1) this] show ?thesis using assms(5,6) by (auto simp: specReply_def)
qed


text \<open>
  C15: Every schedule ends: whatever the connections send and whatever fails, the goroutines of any
  number of connections cannot take infinitely many steps.
\<close>

theorem schedules_terminate: "wfp (\<lambda>y x. interleave (goStep env) x y)"
  by (rule goroutines.interleave_terminates)


section \<open>More goroutines\<close>

text \<open>A schedule is one of more goroutines, of which the last does not move.\<close>

lemma schedule_append:
  assumes "schedule env (gs, s) (gs', s')"
  shows "schedule env (gs @ [g], s) (gs' @ [g], s')"
  using assms
proof (induction rule: rtranclp_induct2)
  case (step gs1 s1 gs2 s2)
  then obtain i g' where "i < length gs1" "goStep env (gs1 ! i) s1 g' s2" "gs2 = gs1[i := g']" by (auto elim: interleave_cases)
  then have "interleave (goStep env) (gs1 @ [g], s1) (gs2 @ [g], s2)"
    using interleave.turn [of i "gs1 @ [g]" "goStep env" s1 g' s2] by (simp add: nth_append list_update_append)
  from rtranclp.rtrancl_into_rtrancl [OF step.IH this] show ?case .
qed simp

section \<open>Two deletions of one key\<close>

lemma schedule_solo:
  assumes "solo env x y" "fst x = gs ! i" "i < length gs"
  shows "schedule env (gs, snd x) (gs[i := fst y], snd y)"
  using assms(1)
proof (induction rule: rtranclp_induct)
  case base
  then show ?case using assms(2,3) by (simp add: list_update_same_conv)
next
  case (step y z)
  have "interleave (goStep env) (gs[i := fst y], snd y) ((gs[i := fst y])[i := fst z], snd z)"
    using step.hyps(2) assms(3) by (intro interleave.turn) (simp_all add: soloStep_def)
  then show ?case using step.IH by (simp add: rtranclp.rtrancl_into_rtrancl)
qed

definition delCmd :: "bytes \<Rightarrow> bytes option list" where
  "delCmd k = [Some (str ''DEL''), Some k]"

lemma delCmd_ok:
  assumes "keyOk k"
  shows "cmdOf env (delCmd k) = str ''DEL''" "wireOk (delCmd k)"
  using assms by (simp_all add: delCmd_def cmdOf_def goUpper_def isAscii_def asciiUpper_def wireOk_def bulkOk_def maxAlloc_def
      keyOk_def maxPrefixLen_def)

lemma del_looks:
  assumes "keyOk k" "\<not> down s" "dbGet (sdb s) k = Inr (Some v)"
  shows "solo env (clientConn [delCmd k], s) ((\<lparr>incoming = [], sent = [], accepts = None\<rparr>, DelDelete k [] 1), s)"
proof -
  let ?c = "\<lparr>incoming = [], sent = [], accepts = None\<rparr>"
  have "solo env ((?c, DelGet [k] 0), s) ((?c, DelDelete k [] 1), s)" using assms(2,3) by (intro solo_last [of env 0]) simp_all
  moreover have "taskStep env 0 (?c, Called (delCmd k)) s = Some ((?c, DelGet [k] 0), s)"
    using delCmd_ok(1) [OF assms(1), of env] by (simp add: callStep_def cmdOf_def) (simp add: delCmd_def)
  ultimately have "solo env ((?c, Called (delCmd k)), s) ((?c, DelDelete k [] 1), s)" using solo_step assms(2) by blast
  moreover have "taskStep env 0 (clientConn [delCmd k]) s = Some ((?c, Called (delCmd k)), s)"
    using ReadCommand_encCmd [OF delCmd_ok(2) [OF assms(1)], of "uni env" "[]"] by (simp add: clientConn_def) (simp add: delCmd_def)
  ultimately show ?thesis using solo_step assms(2) by blast
qed

lemma del_drops:
  assumes "dbDelete now k (sdb s) (sdisk s) = ((None, db'), w')" "\<not> down s"
  shows "solo env ((\<lparr>incoming = [], sent = [], accepts = None\<rparr>, DelDelete k [] 1), s)
    ((\<lparr>incoming = [], sent = WriteInteger 1, accepts = None\<rparr>, Reading), setStore db' w' s)"
proof -
  let ?c = "\<lparr>incoming = [], sent = [], accepts = None\<rparr>" and ?s = "setStore db' w' s"
  have "solo env ((?c, Replying (WriteInteger 1)), ?s) ((\<lparr>incoming = [], sent = WriteInteger 1, accepts = None\<rparr>, Reading), ?s)"
    using assms(2) by (intro solo_last [of env 0]) (simp_all add: flushConn_def)
  then have "solo env ((?c, DelGet [] 1), ?s) ((\<lparr>incoming = [], sent = WriteInteger 1, accepts = None\<rparr>, Reading), ?s)"
    using assms(2) by - (rule solo_step [of env 0], simp_all)
  then show ?thesis using assms by - (rule solo_step [of env now], simp_all)
qed

text \<open>
  C34: \<open>DEL\<close> is not atomic: it looks a key up and deletes it in two calls. Two clients that delete the
  same live key at the same time may both be told that they deleted one, although the key is
  deleted once; one after the other the second would be told 0.
\<close>

theorem concurrent_del_counts_twice:
  assumes "serverInv 2 (db, w)" "keyOk k" "k \<noteq> []" "dbView db k = Some v"
  shows "\<exists>gs s. schedule env (map clientConn [[delCmd k], [delCmd k]], freshShared db w) (gs, s) \<and>
    map (sent \<circ> fst) gs = [WriteInteger 1, WriteInteger 1] \<and>
    (\<forall>ts. fst (specServe env ts [delCmd k, delCmd k] (dbView db)) = WriteInteger 1 @ WriteInteger 0)"
proof -
  let ?s = "freshShared db w" and ?c = "\<lparr>incoming = [], sent = [], accepts = None\<rparr>"
  let ?wait = "(?c, DelDelete k [] 1)" and ?fin = "(\<lparr>incoming = [], sent = WriteInteger 1, accepts = None\<rparr>, Reading)"
  have op: "legalOp (OpDel 0 k)" "[] \<notin> opKeys (OpDel 0 k)" using assms(2,3) by auto
  have i2: "serverInv (Suc 1) (db, w)" using assms(1) by (simp add: numeral_2_eq_2)
  obtain db1 w1 where d1: "dbDelete 0 k db w = ((None, db1), w1)" "serverInv (Suc 0) (db1, w1)"
    using op_served [OF i2 op, of id] by auto
  obtain db2 w2 where d2: "dbDelete 0 k db1 w1 = ((None, db2), w2)" using op_served [OF d1(2) op, of id] by auto
  have look: "solo env (clientConn [delCmd k], ?s) (?wait, ?s)"
    using del_looks [of k ?s v env] assms dbGet_view serverInv_mem [OF assms(1)] by simp
  let ?g = "clientConn [delCmd k]"
  have "schedule env ([?g, ?g], ?s) ([?wait, ?g], ?s)" using schedule_solo [OF look, of "[?g, ?g]" 0] by simp
  also have "schedule env ([?wait, ?g], ?s) ([?wait, ?wait], ?s)" using schedule_solo [OF look, of "[?wait, ?g]" 1] by simp
  also have "schedule env ([?wait, ?wait], ?s) ([?fin, ?wait], setStore db1 w1 ?s)"
    using schedule_solo [OF del_drops [of 0 k ?s db1 w1 env], of "[?wait, ?wait]" 0] d1(1) by simp
  also have "schedule env ([?fin, ?wait], setStore db1 w1 ?s) ([?fin, ?fin], setStore db2 w2 ?s)"
    using schedule_solo [OF del_drops [of 0 k "setStore db1 w1 ?s" db2 w2 env], of "[?fin, ?wait]" 1] d2 by simp
  finally have "schedule env ([?g, ?g], ?s) ([?fin, ?fin], setStore db2 w2 ?s)" .
  moreover have "fst (specServe env ts [delCmd k, delCmd k] (dbView db)) = WriteInteger 1 @ WriteInteger 0" for ts
  proof -
    have "specReply env t (delCmd k) m = WriteInteger (int (card ({k} \<inter> dom m)))" "specView env (delCmd k) m = m |` (- {k})" for t m
      using delCmd_ok(1) [OF assms(2), of env] by (simp_all add: specReply_def specView_def) (simp_all add: delCmd_def)
    moreover have "{k} \<inter> dom (dbView db) = {k}" using assms(4) by auto
    ultimately show ?thesis by simp
  qed
  ultimately show ?thesis by (intro exI [of _ "[?fin, ?fin]"] exI [of _ "setStore db2 w2 ?s"]) simp
qed

theorem concurrent_del_counts_twice_witness:
  "\<exists>db w db1 w1 gs s. Open DefaultOptions emptyDir = (Inr db, w) \<and> dbSet 1 [97] (Some [1]) db w = ((None, db1), w1) \<and>
     schedule plainEnv (map clientConn [[delCmd [97]], [delCmd [97]]], freshShared db1 w1) (gs, s) \<and>
     map (sent \<circ> fst) gs = [WriteInteger 1, WriteInteger 1]"
proof -
  obtain db w where o: "Open DefaultOptions emptyDir = (Inr db, w)" "serverInv (Suc 2) (db, w)"
    using fresh_served [of emptyDir "Suc 2" DefaultOptions] by auto
  obtain db1 w1 where s: "dbSet 1 [97] (Some [1]) db w = ((None, db1), w1)" "serverInv 2 (db1, w1)" "dbView db1 = (dbView db)([97] \<mapsto> [1])"
    using op_served [OF o(2), of "OpSet 1 [97] (Some [1])" id] by (auto simp: keyOk_def maxPrefixLen_def lenOpt_def MaxValueSize_def)
  have k: "keyOk [97]" "[97 :: byte] \<noteq> []" "dbView db1 [97] = Some [1]" using s(3) by (simp_all add: keyOk_def maxPrefixLen_def)
  obtain gs s' where r: "schedule plainEnv (map clientConn [[delCmd [97]], [delCmd [97]]], freshShared db1 w1) (gs, s')"
    "map (sent \<circ> fst) gs = [WriteInteger 1, WriteInteger 1]"
    using concurrent_del_counts_twice [OF s(2) k, of plainEnv] by (elim exE conjE) (rule that)
  show ?thesis by (intro exI conjI) (rule o(1), rule s(1), rule r(1), rule r(2))
qed

end
