(* ===== verification/Kora_Daemon.thy ===== *)
theory Kora_Daemon
  imports Kora_Concurrent Kora_Restart
begin

text \<open>
  The server process: \<open>New\<close>, \<open>Serve\<close> and \<open>Close\<close> of package server and the \<open>main\<close> of
  \<open>cmd/kora-server\<close>, as a transition system over the main goroutine (the accept loop, then the
  deferred close of the store), the goroutine that waits for a signal, and one goroutine per
  connection. The network is what it may do: clients connect, \<open>Accept\<close> returns a connection or
  fails.
\<close>

section \<open>The process\<close>

text \<open>
  The main goroutine is in \<open>Accept\<close>, has a connection it has not yet counted, or is past \<open>Serve\<close>.
  The signal goroutine waits for a signal, is in \<open>wg.Wait\<close>, or \<open>Close\<close> has returned.
\<close>

datatype mainPc = Accepting | Accepted conn | ServeReturned | StoreClosed | Exited
datatype closePc = NoSignal | WaitingGroup | CloseReturned

record Server =
  core :: shared
  listening :: bool
  backlog :: "conn list"
  wg :: int
  handlers :: "(conn \<times> task) option list"
  mainAt :: mainPc
  closeAt :: closePc

text \<open>\<open>New\<close>; \<open>listen\<close> is what \<open>net.Listen\<close> says to an address.\<close>

definition newServer :: "(bytes \<Rightarrow> err option) \<Rightarrow> DB \<Rightarrow> world \<Rightarrow> bytes \<Rightarrow> err + Server" where
  "newServer listen db w addr =
     (case listen addr of
        Some e \<Rightarrow> Inl e
      | None \<Rightarrow> Inr \<lparr>core = freshShared db w, listening = True, backlog = [], wg = 0, handlers = [],
                     mainAt = Accepting, closeAt = NoSignal\<rparr>)"

record flags =
  addrFlag :: bytes
  noSync :: bool
  segFlag :: int

text \<open>
  \<open>main\<close> up to \<open>Serve\<close>: what goes to standard error with the exit status, or the running server.
  \<open>os.Exit\<close> skips the deferred \<open>db.Close\<close>; a panic ends the process with status 2.
\<close>

definition serverMain ::
  "serverEnv \<Rightarrow> (bytes \<Rightarrow> err option) \<Rightarrow> flags \<Rightarrow> world \<Rightarrow> (bytes \<times> int + Server) \<times> world" where
  "serverMain env listen f w =
     (case Open \<lparr>SyncOnWrite = \<not> noSync f, MaxSegmentBytes = segFlag f, MaxMemBytes = 0\<rparr> w of
        (Inl e, w1) \<Rightarrow> (Inl (if e = Panic then ([], 2) else (str ''open: '' @ errText env e @ [10], 1)), w1)
      | (Inr db, w1) \<Rightarrow>
          (case newServer listen db w1 (addrFlag f) of
             Inl e \<Rightarrow> (Inl (str ''listen: '' @ errText env e @ [10], 1), w1)
           | Inr s \<Rightarrow> (Inr s, w1)))"

definition alive :: "Server \<Rightarrow> bool" where
  "alive p \<longleftrightarrow> mainAt p \<noteq> Exited \<and> \<not> down (core p)"

text \<open>One step of the process; every rule needs a process that has not exited or panicked.\<close>

inductive serverStep :: "serverEnv \<Rightarrow> Server \<Rightarrow> Server \<Rightarrow> bool" for env where
  dial: "alive p \<Longrightarrow> listening p \<Longrightarrow> sent c = [] \<Longrightarrow> serverStep env p (p\<lparr>backlog := backlog p @ [c]\<rparr>)"
| accept: "alive p \<Longrightarrow> mainAt p = Accepting \<Longrightarrow> listening p \<Longrightarrow> backlog p = c # cs \<Longrightarrow>
    serverStep env p (p\<lparr>backlog := cs, mainAt := Accepted c\<rparr>)"
| acceptFails: "alive p \<Longrightarrow> mainAt p = Accepting \<Longrightarrow> serverStep env p (p\<lparr>mainAt := ServeReturned\<rparr>)"
| spawn: "alive p \<Longrightarrow> mainAt p = Accepted c \<Longrightarrow>
    serverStep env p (p\<lparr>wg := wg p + 1, handlers := handlers p @ [Some (c, Reading)], mainAt := Accepting\<rparr>)"
| work: "alive p \<Longrightarrow> i < length (handlers p) \<Longrightarrow> handlers p ! i = Some g \<Longrightarrow> goStep env g (core p) g' s' \<Longrightarrow>
    serverStep env p (p\<lparr>core := s', handlers := (handlers p)[i := Some g']\<rparr>)"
| handled: "alive p \<Longrightarrow> i < length (handlers p) \<Longrightarrow> handlers p ! i = Some (c, Closed) \<Longrightarrow>
    serverStep env p (p\<lparr>wg := wg p - 1, handlers := (handlers p)[i := None]\<rparr>)"
| signal: "alive p \<Longrightarrow> closeAt p = NoSignal \<Longrightarrow>
    serverStep env p (p\<lparr>listening := False, backlog := [], closeAt := WaitingGroup\<rparr>)"
| closed: "alive p \<Longrightarrow> closeAt p = WaitingGroup \<Longrightarrow> wg p = 0 \<Longrightarrow> serverStep env p (p\<lparr>closeAt := CloseReturned\<rparr>)"
| storeClose: "alive p \<Longrightarrow> mainAt p = ServeReturned \<Longrightarrow> dbClose (sdb (core p)) (sdisk (core p)) = ((eo, db'), w') \<Longrightarrow>
    serverStep env p (p\<lparr>core := setStore db' w' (core p), mainAt := StoreClosed\<rparr>)"
| leave: "alive p \<Longrightarrow> mainAt p = StoreClosed \<Longrightarrow> serverStep env p (p\<lparr>mainAt := Exited\<rparr>)"

abbreviation serverRun :: "serverEnv \<Rightarrow> Server \<Rightarrow> Server \<Rightarrow> bool" where
  "serverRun env \<equiv> (serverStep env)\<^sup>*\<^sup>*"

section \<open>Starting\<close>

text \<open>
  C17: Starting \<open>kora-server\<close> on a directory that represents a map, under any faults. It exits with
  a status other than 0 or listens; either way, even when listening fails and the store is never closed, the
  directory keeps its contents. When nothing fails the server starts with them.
\<close>

theorem server_start:
  assumes "diskRep w M" "serverMain env listen f w = (r, w1)"
  shows "(case r of Inl (msg, code) \<Rightarrow> code \<noteq> 0 | Inr p \<Rightarrow> alive p \<and> listening p) \<and>
    (\<exists>db w2. Open o0 (reboot w1) = (Inr db, w2) \<and> (\<forall>k. dbGet db k = Inr (M k))) \<and>
    (calm w \<and> listen (addrFlag f) = None \<longrightarrow> (\<exists>p. r = Inr p \<and> (\<forall>k. dbGet (sdb (core p)) k = Inr (M k))))"
proof (intro conjI impI)
  let ?o = "\<lparr>SyncOnWrite = \<not> noSync f, MaxSegmentBytes = segFlag f, MaxMemBytes = 0\<rparr>"
  have "w1 = snd (Open ?o w)" using assms(2) by (auto simp: serverMain_def split: sum.splits prod.splits)
  then show "\<exists>db w2. Open o0 (reboot w1) = (Inr db, w2) \<and> (\<forall>k. dbGet db k = Inr (M k))"
    using Open_keeps [OF assms(1)] by (intro diskRep_open) simp
  show "case r of Inl (msg, code) \<Rightarrow> code \<noteq> 0 | Inr p \<Rightarrow> alive p \<and> listening p"
    using assms(2) by (auto simp: serverMain_def newServer_def alive_def split: sum.splits prod.splits option.splits if_splits)
  assume c: "calm w \<and> listen (addrFlag f) = None"
  obtain m t T where d: "diskRepBy w m t T" "M = diskMap w m T" using assms(1) by (auto simp: diskRep_def)
  obtain db w2 where "Open ?o w = (Inr db, w2)" "\<And>k. dbGet db k = Inr (M k)"
    using Open_diskRep [of w m t T ?o] c d dbGet_weak by (fastforce simp: opened_def)
  then show "\<exists>p. r = Inr p \<and> (\<forall>k. dbGet (sdb (core p)) k = Inr (M k))" using assms(2) c by (auto simp: serverMain_def newServer_def)
qed

text \<open>A start that cannot listen, on a directory with a table and a log.\<close>

theorem server_start_witness:
  "\<exists>db0 w r w1 db w2. Open DefaultOptions (exampleDir [] [\<lparr>Timestamp = 1, Key = [98], Value = Some [2]\<rparr>] [([97], Some [1])]) = (Inr db0, w) \<and>
     serverMain plainEnv (\<lambda>_. Some ErrIO) \<lparr>addrFlag = [], noSync = False, segFlag = 0\<rparr> w = (Inl r, w1) \<and>
     Open DefaultOptions (reboot w1) = (Inr db, w2) \<and> dbGet db [97] = Inr (Some [1])"
proof -
  let ?B = "[\<lparr>Timestamp = 1, Key = [98], Value = Some [2]\<rparr> :: Record]" and ?es = "[([97], Some [1])] :: entry list"
  let ?f = "\<lparr>addrFlag = [], noSync = False, segFlag = 0\<rparr>"
  have k: "list_all logRecOk ?B" "sstOk ?es" by (simp_all add: small_record sstOk_def entryOk_def encEntry_def)
  then obtain db0 w where o: "Open DefaultOptions (exampleDir [] ?B ?es) = (Inr db0, w)" "dbOk db0 w" "durable db0 w"
    "dbView db0 = overlay (replayLog ([] @ ?B)) [?es]"
    using exampleDir_opened [of "[]" ?B ?es DefaultOptions] by auto
  have d: "diskRep w (dbView db0)" using o(2,3) by (intro holds_diskRep) (simp add: holds_def)
  obtain r w1 where m: "serverMain plainEnv (\<lambda>_. Some ErrIO) ?f w = (r, w1)" by fastforce
  then obtain x where r: "r = Inl x" by (auto simp: serverMain_def newServer_def split: sum.splits prod.splits if_splits)
  have "dbView db0 [97] = Some [1]" using o(4) replayLog_snoc [of "[]"] by (simp add: overlay_def)
  then show ?thesis using server_start [OF d m, of DefaultOptions] o(1) m r by auto
qed

section \<open>The wait group\<close>

definition running :: "Server \<Rightarrow> nat" where
  "running p = length (filter (\<lambda>g. g \<noteq> None) (handlers p))"

definition held :: "Server \<Rightarrow> nat" where
  "held p = (case mainAt p of Accepted c \<Rightarrow> 1 | _ \<Rightarrow> 0)"

definition groupOk :: "Server \<Rightarrow> bool" where
  "groupOk p \<longleftrightarrow> wg p = int (running p) \<and> (closeAt p \<noteq> NoSignal \<longrightarrow> \<not> listening p) \<and>
     (closeAt p = CloseReturned \<longrightarrow> running p + held p \<le> 1)"

lemma running_update:
  "i < length gs \<Longrightarrow> length (filter (\<lambda>g. g \<noteq> None) (gs[i := x])) + (if gs ! i = None then 0 else 1) =
     length (filter (\<lambda>g. g \<noteq> None) gs) + (if x = None then 0 else 1)"
proof (induction gs arbitrary: i)
  case (Cons g gs)
  show ?case
  proof (cases i)
    case (Suc j)
    then show ?thesis using Cons.IH [of j] Cons.prems by (auto simp del: not_None_eq split: if_splits)
  qed simp
qed simp

lemma groupOk_step:
  assumes "serverStep env p q" "groupOk p"
  shows "groupOk q"
  using assms
proof (cases rule: serverStep.cases)
  case (work i g g' s')
  then have "running q = running p" using running_update [OF work(3), of "Some g'"] by (simp add: running_def)
  then show ?thesis using assms(2) work by (simp add: groupOk_def held_def)
next
  case (handled i c)
  then have "running p = running q + 1" using running_update [OF handled(3), of None] by (simp add: running_def)
  then show ?thesis using assms(2) handled by (auto simp: groupOk_def held_def)
qed (auto simp: groupOk_def running_def held_def split: mainPc.splits)

lemma groupOk_run:
  assumes "newServer listen db w addr = Inr p0" "serverRun env p0 p"
  shows "groupOk p"
  using assms(2)
proof (induction rule: rtranclp_induct)
  case base
  then show ?case using assms(1) by (auto simp: newServer_def groupOk_def running_def held_def split: option.splits)
qed (rule groupOk_step)

text \<open>
  C16: \<open>Close\<close> and the wait group. In every state the process can reach, the group counts exactly the
  handlers that are running, so it never goes negative. Once \<open>Close\<close> has returned no new connection
  is accepted and at most one connection is still served or about to be: one that \<open>Accept\<close> had
  returned when the listener was closed and that \<open>Serve\<close> had not yet counted.
\<close>

theorem close_waits:
  assumes "newServer listen db w addr = Inr p0" "serverRun env p0 p"
  shows "wg p = int (running p) \<and> (closeAt p = CloseReturned \<longrightarrow> \<not> listening p \<and> running p + held p \<le> 1)"
  using groupOk_run [OF assms] by (auto simp: groupOk_def)

text \<open>The bound is sharp: \<open>Close\<close> returns here before the connection is served.\<close>

theorem close_waits_witness:
  "\<exists>p0 p. newServer (\<lambda>_. None) (freshDB DefaultOptions) emptyDir [] = Inr p0 \<and> serverRun plainEnv p0 p \<and>
     closeAt p = CloseReturned \<and> running p = 1 \<and> wg p = 1"
proof -
  let ?c = "\<lparr>incoming = [], sent = [], accepts = None\<rparr>"
  obtain p0 where p0: "newServer (\<lambda>_. None) (freshDB DefaultOptions) emptyDir [] = Inr p0" by (simp add: newServer_def)
  then have st: "core p0 = freshShared (freshDB DefaultOptions) emptyDir" "listening p0" "backlog p0 = []" "wg p0 = 0" "handlers p0 = []"
    "mainAt p0 = Accepting" "closeAt p0 = NoSignal"
    by (auto simp: newServer_def)
  let ?p1 = "p0\<lparr>backlog := [?c]\<rparr>"
  let ?p2 = "?p1\<lparr>backlog := [], mainAt := Accepted ?c\<rparr>"
  let ?p3 = "?p2\<lparr>listening := False, backlog := [], closeAt := WaitingGroup\<rparr>"
  let ?p4 = "?p3\<lparr>closeAt := CloseReturned\<rparr>"
  let ?p5 = "?p4\<lparr>wg := wg ?p4 + 1, handlers := handlers ?p4 @ [Some (?c, Reading)], mainAt := Accepting\<rparr>"
  have "serverStep plainEnv p0 ?p1" using serverStep.dial [of p0 ?c plainEnv] st by (simp add: alive_def)
  then have "serverRun plainEnv p0 ?p1" by (rule r_into_rtranclp)
  also have "serverStep plainEnv ?p1 ?p2" using st by (intro serverStep.accept [where cs = "[]"]) (simp_all add: alive_def)
  also have "serverStep plainEnv ?p2 ?p3" using st by (intro serverStep.signal) (simp_all add: alive_def)
  also have "serverStep plainEnv ?p3 ?p4" using st by (intro serverStep.closed) (simp_all add: alive_def)
  also have "serverStep plainEnv ?p4 ?p5" using st by (intro serverStep.spawn) (simp_all add: alive_def)
  finally have run: "serverRun plainEnv p0 ?p5" .
  have "closeAt ?p5 = CloseReturned \<and> running ?p5 = 1" using st by (simp add: running_def)
  moreover have "wg ?p5 = int (running ?p5)" using close_waits [OF p0 run] by blast
  ultimately show ?thesis using p0 run by (intro exI [of _ p0] exI [of _ ?p5]) simp
qed

section \<open>A goroutine of the process\<close>

text \<open>A goroutine that runs alone for a while, within the process.\<close>

lemma solo_work:
  assumes "solo env x y" "alive p" "handlers p ! i = Some (fst x)" "i < length (handlers p)" "core p = snd x" "mainAt p \<noteq> Exited"
  shows "serverRun env p (p\<lparr>core := snd y, handlers := (handlers p)[i := Some (fst y)]\<rparr>)"
  using assms(1)
proof (induction rule: rtranclp_induct)
  case base
  have "p\<lparr>core := snd x, handlers := (handlers p)[i := Some (fst x)]\<rparr> = p"
    using assms(3,5) list_update_id [of "handlers p" i] by (cases p) auto
  then show ?case by simp
next
  case (step y z)
  let ?p = "p\<lparr>core := snd y, handlers := (handlers p)[i := Some (fst y)]\<rparr>"
  have "goStep env (fst y) (core ?p) (fst z) (snd z)" using step.hyps(2) by (simp add: soloStep_def)
  moreover from this have "alive ?p" using assms(6) by (simp add: alive_def goStep_def)
  ultimately have "serverStep env ?p (?p\<lparr>core := snd z, handlers := (handlers ?p)[i := Some (fst z)]\<rparr>)"
    using assms(4) by (intro serverStep.work) simp_all
  then show ?case using step.IH by simp
qed

section \<open>The accept loop\<close>

text \<open>A run together with the connections it has handed to goroutines, in order.\<close>

inductive served :: "serverEnv \<Rightarrow> Server \<Rightarrow> conn list \<Rightarrow> Server \<Rightarrow> bool" for env p0 where
  start: "served env p0 [] p0"
| onward: "served env p0 cs p \<Longrightarrow> serverStep env p q \<Longrightarrow>
    served env p0 (cs @ map (fst \<circ> the) (drop (length (handlers p)) (handlers q))) q"

definition serving :: "Server \<Rightarrow> bool" where
  "serving p \<longleftrightarrow> (case mainAt p of Accepting \<Rightarrow> True | Accepted c \<Rightarrow> True | _ \<Rightarrow> False)"

text \<open>A handler that has returned and one that is still running, as goroutines of a schedule.\<close>

definition inStep :: "(conn \<times> task) option \<Rightarrow> conn \<times> task \<Rightarrow> bool" where
  "inStep x g \<longleftrightarrow> (case x of None \<Rightarrow> snd g = Closed | Some g' \<Rightarrow> g = g')"

lemma inStep_simps [simp]: "inStep None g \<longleftrightarrow> snd g = Closed" "inStep (Some g') g \<longleftrightarrow> g = g'"
  by (simp_all add: inStep_def)

lemma serving_back: "serverStep env p q \<Longrightarrow> serving q \<Longrightarrow> serving p"
  by (cases rule: serverStep.cases) (auto simp: serving_def)

lemma served_serverRun: "served env p0 cs p \<Longrightarrow> serverRun env p0 p"
  by (induction rule: served.induct) (auto intro: rtranclp.rtrancl_into_rtrancl)

lemma served_run:
  assumes "served env p0 cs p" "serverRun env p q"
  shows "\<exists>ds. served env p0 (cs @ ds) q \<and> length (handlers q) = length (handlers p) + length ds"
  using assms(2)
proof (induction rule: rtranclp_induct)
  case base
  then show ?case using assms(1) by (intro exI [of _ "[]"]) simp
next
  case (step q r)
  then obtain ds where "served env p0 (cs @ ds) q" "length (handlers q) = length (handlers p) + length ds" by blast
  moreover have "length (handlers q) \<le> length (handlers r)" using step.hyps(2) by (cases rule: serverStep.cases) auto
  ultimately show ?case using served.onward [OF _ step.hyps(2)] by fastforce
qed

lemma served_same_handlers:
  "served env p0 cs p \<Longrightarrow> serverRun env p q \<Longrightarrow> length (handlers q) = length (handlers p) \<Longrightarrow> served env p0 cs q"
  using served_run [of env p0 cs p q] by auto

lemma served_schedule:
  assumes "served env p0 cs p" "serving p" "handlers p0 = []"
  shows "\<exists>gs. schedule env (map (\<lambda>c. (c, Reading)) cs, core p0) (gs, core p) \<and> list_all2 inStep (handlers p) gs"
  using assms
proof (induction rule: served.induct)
  case start
  then show ?case by auto
next
  case (onward cs p q)
  then obtain gs where gs: "schedule env (map (\<lambda>c. (c, Reading)) cs, core p0) (gs, core p)" "list_all2 inStep (handlers p) gs"
    using serving_back by blast
  from onward.hyps(2) show ?case
  proof (cases rule: serverStep.cases)
    case (spawn c)
    have "schedule env (map (\<lambda>c. (c, Reading)) cs @ [(c, Reading)], core p0) (gs @ [(c, Reading)], core p)"
      by (rule schedule_append [OF gs(1)])
    then show ?thesis using spawn gs(2) by (intro exI [of _ "gs @ [(c, Reading)]"]) (auto intro: list_all2_appendI)
  next
    case (work i g g' s')
    then have "i < length gs" "gs ! i = g" using gs(2) by (auto simp: list_all2_conv_all_nth)
    then have "interleave (goStep env) (gs, core p) (gs[i := g'], s')" using work by (intro interleave.turn) simp_all
    then show ?thesis using work gs by (intro exI [of _ "gs[i := g']"])
        (auto intro: rtranclp.rtrancl_into_rtrancl list_all2_update_cong)
  next
    case (handled i c)
    then have "i < length gs" "gs ! i = (c, Closed)" using gs(2) by (auto simp: list_all2_conv_all_nth)
    then have "list_all2 inStep ((handlers p)[i := None]) (gs[i := (c, Closed)])"
      using gs(2) by (intro list_all2_update_cong) simp_all
    then show ?thesis using handled gs(1) \<open>gs ! i = (c, Closed)\<close> list_update_id [of gs i] by (intro exI [of _ gs]) simp
  next
    case (storeClose eo db' w')
    then show ?thesis using onward.prems(1) by (simp add: serving_def)
  qed (use gs in auto)
qed



section \<open>Shutting down\<close>

text \<open>A signal, the end of \<open>Serve\<close> and the deferred close of the store, with handlers still running.\<close>

lemma shutdown_run:
  assumes "alive p" "mainAt p = Accepting" "closeAt p = NoSignal" "calm (sdisk (core p))"
  shows "serverRun env p (p\<lparr>core := (core p)\<lparr>sdb := (sdb (core p))\<lparr>ssReaders := [], segments := [], active := None\<rparr>\<rparr>,
    listening := False, backlog := [], mainAt := StoreClosed, closeAt := WaitingGroup\<rparr>)"
proof -
  let ?db = "(sdb (core p))\<lparr>ssReaders := [], segments := [], active := None\<rparr>"
  let ?p1 = "p\<lparr>listening := False, backlog := [], closeAt := WaitingGroup\<rparr>"
  let ?p2 = "?p1\<lparr>mainAt := ServeReturned\<rparr>"
  let ?p3 = "?p2\<lparr>core := setStore ?db (sdisk (core p)) (core p), mainAt := StoreClosed\<rparr>"
  have "serverStep env p ?p1" using assms by (intro serverStep.signal)
  then have "serverRun env p ?p1" by (rule r_into_rtranclp)
  also have "serverStep env ?p1 ?p2" using assms by (intro serverStep.acceptFails) (simp_all add: alive_def)
  also have "serverStep env ?p2 ?p3"
    using assms serverStep.storeClose [of ?p2 None ?db "sdisk (core p)" env] dbClose_calm [OF assms(4), of "sdb (core p)"]
    by (simp add: alive_def)
  finally show ?thesis by (cases p) (simp add: setStore_def)
qed

text \<open>The store after \<open>Close\<close>: the memtable is still there, the tables and the log are not.\<close>

abbreviation closedDB :: "DB \<Rightarrow> DB" where
  "closedDB db \<equiv> db\<lparr>ssReaders := [], segments := [], active := None\<rparr>"

definition getCmd :: "bytes \<Rightarrow> bytes option list" where
  "getCmd k = [Some (str ''GET''), Some k]"

lemma getCmd_ok:
  assumes "keyOk k"
  shows "cmdOf env (getCmd k) = str ''GET''" "wireOk (getCmd k)"
  using assms by (simp_all add: getCmd_def cmdOf_def goUpper_def isAscii_def asciiUpper_def wireOk_def bulkOk_def maxAlloc_def
      keyOk_def maxPrefixLen_def)

lemma get_solo:
  assumes "keyOk k" "\<not> down s" "dbGet (sdb s) k = Inr v"
  shows "solo env (clientConn [getCmd k], s) ((\<lparr>incoming = [], sent = WriteBulkString v, accepts = None\<rparr>, Reading), s)"
proof -
  let ?c = "\<lparr>incoming = [], sent = [], accepts = None\<rparr>"
  have r: "solo env ((?c, Replying (WriteBulkString v)), s) ((\<lparr>incoming = [], sent = WriteBulkString v, accepts = None\<rparr>, Reading), s)"
    using assms(2) by (intro solo_last [of env 0]) (simp_all add: flushConn_def)
  have "dispatch env (\<lambda>_. 0) (getCmd k) (sdb s) (sdisk s) = (Reply (WriteBulkString v), sdb s, sdisk s)"
    using getCmd_ok(1) [OF assms(1), of env] assms(3) by (simp add: dispatch_def cmdOf_def) (auto simp: getCmd_def split: option.splits)
  then have "taskStep env 0 (?c, Called (getCmd k)) s = Some ((?c, Replying (WriteBulkString v)), s)"
    using getCmd_ok(1) [OF assms(1), of env] by (simp add: callStep_def cmdOf_def)
  from solo_step [OF this assms(2) r] have
    c: "solo env ((?c, Called (getCmd k)), s) ((\<lparr>incoming = [], sent = WriteBulkString v, accepts = None\<rparr>, Reading), s)" .
  have "taskStep env 0 (clientConn [getCmd k]) s = Some ((?c, Called (getCmd k)), s)"
    using ReadCommand_encCmd [OF getCmd_ok(2) [OF assms(1)], of "uni env" "[]"] by (simp add: clientConn_def) (simp add: getCmd_def)
  from solo_step [OF this assms(2) c] show ?thesis .
qed

text \<open>
  C33: A wrong answer at shutdown. \<open>main\<close> does not wait for \<open>Close\<close>: once a signal has closed the
  listener, \<open>Serve\<close> returns and the store is closed while connections are still served. A client
  that asks now for a key that is stored in a table is told that there is no such key.
\<close>

theorem shutdown_misanswers:
  assumes "alive p" "mainAt p = Accepting" "closeAt p = NoSignal" "calm (sdisk (core p))"
    and "i < length (handlers p)" "handlers p ! i = Some (clientConn [getCmd k])" "keyOk k"
    and "Get (memtable (sdb (core p))) k = None" "dbGet (sdb (core p)) k = Inr (Some v)"
  shows "\<exists>q c. serverRun env p q \<and> mainAt q \<noteq> Exited \<and> handlers q ! i = Some (c, Reading) \<and> sent c = WriteBulkString None"
proof -
  let ?s = "(core p)\<lparr>sdb := closedDB (sdb (core p))\<rparr>"
  let ?p = "p\<lparr>core := ?s, listening := False, backlog := [], mainAt := StoreClosed, closeAt := WaitingGroup\<rparr>"
  let ?c = "\<lparr>incoming = [], sent = WriteBulkString None, accepts = None\<rparr>"
  have "dbGet (sdb ?s) k = Inr None" using assms(8) by (simp add: dbGet_def)
  then have "solo env (clientConn [getCmd k], ?s) ((?c, Reading), ?s)"
    using get_solo [OF assms(7), of ?s None env] assms(1) by (simp add: alive_def)
  from solo_work [OF this, of ?p i] have "serverRun env ?p (?p\<lparr>core := ?s, handlers := (handlers p)[i := Some (?c, Reading)]\<rparr>)"
    using assms(1,5,6) by (simp add: alive_def)
  with shutdown_run [OF assms(1-4), of env]
  have "serverRun env p (?p\<lparr>core := ?s, handlers := (handlers p)[i := Some (?c, Reading)]\<rparr>)" by (rule rtranclp_trans)
  then show ?thesis using assms(5) by (intro exI [of _ "?p\<lparr>core := ?s, handlers := (handlers p)[i := Some (?c, Reading)]\<rparr>"] exI [of _ ?c]) simp
qed

text \<open>A server with one connection, in a given state.\<close>

definition busyServer :: "conn \<times> task \<Rightarrow> DB \<Rightarrow> world \<Rightarrow> Server" where
  "busyServer g db w = \<lparr>core = freshShared db w, listening = True, backlog = [], wg = 1, handlers = [Some g],
     mainAt = Accepting, closeAt = NoSignal\<rparr>"

theorem shutdown_misanswers_witness:
  "\<exists>db w q c. Open DefaultOptions (exampleDir [] [\<lparr>Timestamp = 1, Key = [98], Value = Some [2]\<rparr>] [([97], Some [1])]) = (Inr db, w) \<and>
     dbGet db [97] = Inr (Some [1]) \<and> serverRun plainEnv (busyServer (clientConn [getCmd [97]]) db w) q \<and>
     handlers q ! 0 = Some (c, Reading) \<and> sent c = WriteBulkString None"
proof -
  let ?B = "[\<lparr>Timestamp = 1, Key = [98], Value = Some [2]\<rparr> :: Record]" and ?es = "[([97], Some [1])] :: entry list"
  have k: "list_all logRecOk ?B" "sstOk ?es"
    by (simp_all add: small_record sstOk_def entryOk_def encEntry_def)
  then obtain db w where o: "Open DefaultOptions (exampleDir [] ?B ?es) = (Inr db, w)" "calm w" "dbOk db w"
    "dbView db = overlay (replayLog ([] @ ?B)) [?es]" "map_of (Iterator (memtable db)) = replayLog ([] @ ?B)"
    using exampleDir_opened [of "[]" ?B ?es DefaultOptions] by auto
  have rep: "replayLog ?B [97] = None" using replayLog_snoc [of "[]"] by simp
  have get: "dbGet db [97] = Inr (Some [1])" using dbGet_view [OF dbOk_mem [OF o(3)]] o(4) rep by (simp add: overlay_def)
  have "Get (memtable db) [97] = None"
    using art.get_map [OF memOkD(1) [OF dbOk_mem [OF o(3)]], of "[97]"] o(5) rep by (simp add: keyOk_def maxPrefixLen_def)
  then show ?thesis
    using shutdown_misanswers [of "busyServer (clientConn [getCmd [97]]) db w" 0 "[97]" "[1]" plainEnv] o(1,2) get
    by (fastforce simp: busyServer_def alive_def keyOk_def maxPrefixLen_def)
qed

section \<open>A compaction that is still running at shutdown\<close>

lemma compact_to_swap:
  assumes "compactSnapshot (sdb s) = (Inr (Some (snap, n)), db1)" "compactMerge (mapOrd env) snap n (sdisk s) = (None, w1)"
    and "\<not> down s" "\<not> compactMu s" "cmdOf env args = str ''COMPACT''"
  shows "solo env ((c, Called args), s) ((c, Swapping snap n), s\<lparr>compactMu := True, sdb := db1, sdisk := w1\<rparr>)"
proof -
  let ?s = "s\<lparr>compactMu := True, sdb := db1\<rparr>"
  obtain l w0 where rd: "readLatest snap [] (sdisk ?s) = (Inr l, w0)" "compactWrite (mapOrd env) l n w0 = (None, w1)"
    using assms(2) by (auto simp: compactMerge_def split: sum.splits prod.splits)
  have w: "solo env ((c, MergeWrite l snap n), ?s\<lparr>sdisk := w0\<rparr>) ((c, Swapping snap n), ?s\<lparr>sdisk := w1\<rparr>)"
    using rd(2) assms(3) by (intro solo_last [of env 0]) simp_all
  have r: "solo env ((c, MergeRead snap [] snap n), ?s) ((c, MergeWrite l snap n), ?s\<lparr>sdisk := w0\<rparr>)"
    using mergeRead_solo [OF rd(1), of env c snap n] assms(3) by simp
  have m: "solo env ((c, MergeRead snap [] snap n), ?s) ((c, Swapping snap n), ?s\<lparr>sdisk := w1\<rparr>)"
    by (rule rtranclp_trans [OF r w])
  have "taskStep env 0 (c, Called args) s = Some ((c, MergeRead snap [] snap n), ?s)"
    using assms(1,4,5) by (simp add: callStep_def cmdOf_def)
  from solo_step [OF this assms(3) m] show ?thesis by simp
qed

text \<open>The swap on a closed store: the manifest it writes has no tables, then it panics.\<close>

lemma swap_after_close:
  assumes "calm w" "lookupFile (segmentPath n) w = Some c"
    and m: "m = \<lparr>mNextID = nextID db, mOrder = n # filter (\<lambda>i. i \<notin> set snap) (order db), mNextSSTID = ssNextID db, mSstIDs = []\<rparr>"
  shows "\<exists>db' w'. compactSwap snap n (closedDB db) w = ((Some Panic, db'), w') \<and> calm w' \<and>
    lookupFile (Top manifestName) w' = Some (manifestBytes m) \<and> (\<forall>i. lookupFile (segmentPath i) w' = lookupFile (segmentPath i) w)"
proof -
  obtain w2 where "writeManifest m w = (None, w2)" "calm w2" "lookupFile (Top manifestName) w2 = Some (manifestBytes m)"
    "\<And>p. p \<noteq> Top manifestName \<Longrightarrow> p \<noteq> Top manifestTmpName \<Longrightarrow> lookupFile p w2 = lookupFile p w"
    using writeManifest_calm [OF assms(1), of m] by blast
  then show ?thesis using openSegmentReadOnly_calm [OF assms(1,2)]
    by (simp add: compactSwap_def writeManifestLocked_def currentSSTIDs_def Let_def m)
qed

lemma closed_swap_reopened:
  assumes st: "calm w" "dbOk db w" "unat (nextID db) + 1 < 2 ^ 32" "butlast (order db) \<noteq> []" and ord: "\<And>xs. mset (ord xs) = mset xs"
  defines "snap \<equiv> butlast (order db)" and "db1 \<equiv> db\<lparr>nextID := nextID db + 1\<rparr>"
  shows "\<exists>w1 db3 w3 db2 w2. compactSnapshot db = (Inr (Some (snap, nextID db)), db1) \<and> compactMerge ord snap (nextID db) w = (None, w1) \<and>
    calm w1 \<and> compactSwap snap (nextID db) (closedDB db1) w1 = ((Some Panic, db3), w3) \<and>
    Open o0 w3 = (Inr db2, w2) \<and> SSTableCount db2 = 0 \<and> (\<forall>k. dbGet db2 k = Inr (overlay (replayLog (logRecords db w)) [] k))"
proof -
  let ?n = "nextID db" and ?a = "last (order db)" and ?S = "concat (map (recordsAt w) snap)"
  let ?rs = "mergedRecords ord ?S"
  note o = dbOk_order [OF st(2)]
  obtain w1 where w1: "compactSnapshot db = (Inr (Some (snap, ?n)), db1)" "compactMerge ord snap ?n w = (None, w1)" "calm w1"
    "list_all logRecOk ?rs" "lookupFile (segmentPath ?n) w1 = Some (logOf ?rs)"
    "\<And>p. p \<noteq> segmentPath ?n \<Longrightarrow> p \<noteq> compactTmpPath ?n \<Longrightarrow> lookupFile p w1 = lookupFile p w" "?n < ?n + 1"
    using merged_ready [OF st(1-3) ord st(4)] unfolding snap_def db1_def by auto
  let ?m = "\<lparr>mNextID = ?n + 1, mOrder = [?n, ?a], mNextSSTID = ssNextID db, mSstIDs = []\<rparr>"
  obtain db3 w3 where sw: "compactSwap snap ?n (closedDB db1) w1 = ((Some Panic, db3), w3)" "calm w3"
    "lookupFile (Top manifestName) w3 = Some (manifestBytes ?m)" "\<And>i. lookupFile (segmentPath i) w3 = lookupFile (segmentPath i) w1"
    using swap_after_close [OF w1(3,5), of ?m db1 snap] rest_of_butlast [OF o(1,2)] by (auto simp: db1_def snap_def)
  have rn: "recordsAt w3 ?n = ?rs" using recordsAt_log w1(4,5) sw(4) by simp
  have "?a \<noteq> ?n" using o(3,4) by metis
  then have la: "lookupFile (segmentPath ?a) w3 = lookupFile (segmentPath ?a) w" using sw(4) w1(6) by simp
  have ra: "recordsAt w3 ?a = recordsAt w ?a" by (rule recordsAt_cong [OF la])
  have "logClean w3 ?n" using rn w1(4,5) sw(4) by (simp add: logClean_def)
  moreover have "logClean w3 ?a" using segOk_logClean [OF dbOk_seg [OF st(2) o(3)]] la ra by (simp add: logClean_def)
  moreover have "idsValid (?n + 1) [?n, ?a]"
    using w1(7) o(3,4) dbOk_shape [OF st(2)] by (auto simp: idsValid_def shapeOk_def intro: less_trans)
  ultimately obtain db2 w2 where op: "Open o0 w3 = (Inr db2, w2)" "SSTableCount db2 = 0"
    "\<forall>k. dbGet db2 k = Inr (overlay (replayLog (?rs @ recordsAt w ?a)) [] k)"
    using reopened_without_tables [OF sw(2,3), of o0] rn ra by auto
  have bl: "order db = snap @ [?a]" using o(1) by (simp add: snap_def)
  have "logRecords db w = ?S @ recordsAt w ?a" unfolding logRecords_def by (subst (1) bl) simp
  then show ?thesis using w1(1-3) sw(1) op merged_overlay [OF ord] by auto
qed

text \<open>
  C32: A shutdown that loses the tables. A log compaction is in flight when the store is closed. Its
  swap then writes a manifest that lists the segments but, since \<open>Close\<close> has dropped the readers,
  no table, and panics. The next start finds no tables and deletes their files: every key that
  was only in a table is gone.
\<close>

theorem shutdown_drops_tables:
  assumes p: "alive p" "mainAt p = Accepting" "closeAt p = NoSignal" "i < length (handlers p)" "handlers p ! i = Some (c, Called args)"
    and cmd: "cmdOf env args = str ''COMPACT''" "envOk env" "\<not> compactMu (core p)"
    and st: "calm w" "dbOk db w" "unat (nextID db) + 1 < 2 ^ 32" "butlast (order db) \<noteq> []" "sdb (core p) = db" "sdisk (core p) = w"
  shows "\<exists>q db2 w2. serverRun env p q \<and> down (core q) \<and> Open o0 (sdisk (core q)) = (Inr db2, w2) \<and> SSTableCount db2 = 0 \<and>
    (\<forall>k. dbGet db2 k = Inr (overlay (replayLog (logRecords db w)) [] k))"
proof -
  let ?n = "nextID db" and ?snap = "butlast (order db)" and ?db1 = "db\<lparr>nextID := nextID db + 1\<rparr>"
  have ord: "mset (mapOrd env xs) = mset xs" for xs using cmd(2) by (simp add: envOk_def)
  obtain w1 db3 w3 db2 w2 where w1: "compactSnapshot db = (Inr (Some (?snap, ?n)), ?db1)" "compactMerge (mapOrd env) ?snap ?n w = (None, w1)"
    "calm w1" "compactSwap ?snap ?n (closedDB ?db1) w1 = ((Some Panic, db3), w3)"
    and op: "Open o0 w3 = (Inr db2, w2)" "SSTableCount db2 = 0" "\<forall>k. dbGet db2 k = Inr (overlay (replayLog (logRecords db w)) [] k)"
    using closed_swap_reopened [OF st(1-4) ord, of o0] by blast
  let ?s1 = "(core p)\<lparr>compactMu := True, sdb := ?db1, sdisk := w1\<rparr>"
  let ?p1 = "p\<lparr>core := ?s1, handlers := (handlers p)[i := Some (c, Swapping ?snap ?n)]\<rparr>"
  have "solo env ((c, Called args), core p) ((c, Swapping ?snap ?n), ?s1)"
    using compact_to_swap [of "core p" ?snap ?n ?db1 env w1 args c] w1(1,2) st(5,6) cmd p(1) by (simp add: alive_def)
  from solo_work [OF this p(1)] have run1: "serverRun env p ?p1" using p by (simp add: alive_def)
  let ?s2 = "?s1\<lparr>sdb := closedDB ?db1\<rparr>"
  let ?p2 = "?p1\<lparr>core := ?s2, listening := False, backlog := [], mainAt := StoreClosed, closeAt := WaitingGroup\<rparr>"
  have run2: "serverRun env ?p1 ?p2" using shutdown_run [of ?p1 env] p w1(3) by (simp add: alive_def)
  let ?s3 = "(setStore db3 w3 (?s2\<lparr>compactMu := False\<rparr>))\<lparr>down := True\<rparr>"
  let ?p3 = "?p2\<lparr>core := ?s3, handlers := (handlers ?p2)[i := Some (c, Closed)]\<rparr>"
  have "taskStep env 0 (c, Swapping ?snap ?n) ?s2 = Some ((c, Closed), ?s3)" using w1(4) by (simp add: errReply_def)
  then have "goStep env (c, Swapping ?snap ?n) (core ?p2) (c, Closed) ?s3" using p(1) by (auto simp: goStep_def alive_def)
  then have "serverStep env ?p2 ?p3" using p by (intro serverStep.work) (simp_all add: alive_def)
  with rtranclp_trans [OF run1 run2] have "serverRun env p ?p3" by (rule rtranclp.rtrancl_into_rtrancl)
  then show ?thesis using op by (intro exI [of _ ?p3] exI [of _ db2] exI [of _ w2]) simp
qed

theorem shutdown_drops_tables_witness:
  "\<exists>db w q db2 w2. Open DefaultOptions (exampleDir [] [\<lparr>Timestamp = 1, Key = [98], Value = Some [2]\<rparr>] [([97], Some [1])]) = (Inr db, w) \<and>
     dbGet db [97] = Inr (Some [1]) \<and>
     serverRun plainEnv (busyServer (\<lparr>incoming = [], sent = [], accepts = None\<rparr>, Called [Some (str ''COMPACT'')]) db w) q \<and>
     Open DefaultOptions (sdisk (core q)) = (Inr db2, w2) \<and> dbGet db2 [97] = Inr None"
proof -
  let ?B = "[\<lparr>Timestamp = 1, Key = [98], Value = Some [2]\<rparr> :: Record]" and ?es = "[([97], Some [1])] :: entry list"
  let ?args = "[Some (str ''COMPACT'')]" and ?c = "\<lparr>incoming = [], sent = [], accepts = None\<rparr>"
  have k: "list_all logRecOk ?B" "sstOk ?es"
    by (simp_all add: small_record sstOk_def entryOk_def encEntry_def)
  then obtain db w where o: "Open DefaultOptions (exampleDir [] ?B ?es) = (Inr db, w)" "calm w" "dbOk db w" "order db = [1, 2]" "nextID db = 3"
    "recordsAt w 1 = []" "recordsAt w 2 = ?B" "dbView db = overlay (replayLog ([] @ ?B)) [?es]"
    using exampleDir_opened [of "[]" ?B ?es DefaultOptions] by auto
  have rep: "replayLog ?B [97] = None" using replayLog_snoc [of "[]"] by simp
  have get: "dbGet db [97] = Inr (Some [1])" using dbGet_view [OF dbOk_mem [OF o(3)]] o(8) rep by (simp add: overlay_def)
  have cmd: "cmdOf plainEnv ?args = str ''COMPACT''" by (simp add: cmdOf_def goUpper_def isAscii_def asciiUpper_def)
  have lost: "overlay (replayLog (logRecords db w)) [] [97] = None" using o(4,6,7) rep by (simp add: logRecords_def overlay_def)
  let ?p = "busyServer (?c, Called ?args) db w"
  have p: "alive ?p" "mainAt ?p = Accepting" "closeAt ?p = NoSignal" "0 < length (handlers ?p)" "handlers ?p ! 0 = Some (?c, Called ?args)"
    "\<not> compactMu (core ?p)" "sdb (core ?p) = db" "sdisk (core ?p) = w"
    by (simp_all add: busyServer_def alive_def)
  from shutdown_drops_tables [OF p(1-5) cmd emptyDir_simps(3) p(6) o(2,3) _ _ p(7,8), of DefaultOptions]
  obtain q db2 w2 where "serverRun plainEnv ?p q" "Open DefaultOptions (sdisk (core q)) = (Inr db2, w2)"
    "\<forall>k. dbGet db2 k = Inr (overlay (replayLog (logRecords db w)) [] k)"
    using o(4,5) by auto
  then show ?thesis using o(1) get lost by metis
qed

end
